(* ===== verification/C_Prelude.thy ===== *)
theory C_Prelude
  imports Main "HOL-Library.Word"
begin

text \<open>
  The vocabulary the whole development shares: the outcomes of a C function (a value, or
  one of the ways in which C leaves the rails), NUL-terminated strings and the string
  functions of the C library the sources call, decimal printing, and linked lists on an
  explicit heap.  The generic lemmas on heap lists live in the locale \<open>linked_node\<close>,
  which the client queue of the server and the host cache of the client interpret.
\<close>

unbundle bit_operations_syntax

section \<open>Outcomes\<close>

text \<open>
  A C function that can run into undefined behaviour, or end the process, returns an
  element of \<open>c_error + 'a\<close>: \<open>Inl\<close> names what went wrong, \<open>Inr\<close> carries the result.
  \<open>Diverges\<close> is the fuel of a loop over the heap running out.
\<close>

datatype c_error =
    NullDeref
  | BadPointer
  | OutOfBounds
  | BufferOverflow
  | BadFd
  | Unterminated
  | Diverges
  | BadFormat
  | Exit int

type_synonym 'a res = "c_error + 'a"

fun rbind :: "'a res \<Rightarrow> ('a \<Rightarrow> 'b res) \<Rightarrow> 'b res" where
  "rbind (Inl e) f = Inl e"
| "rbind (Inr x) f = f x"

definition is_ok :: "'a res \<Rightarrow> bool" where
  "is_ok r = (case r of Inl _ \<Rightarrow> False | Inr _ \<Rightarrow> True)"

text \<open>Writing a string of the given length into a buffer of \<open>cap\<close> bytes, NUL included.\<close>

definition fits :: "nat \<Rightarrow> string \<Rightarrow> string res" where
  "fits cap s = (if length s < cap then Inr s else Inl BufferOverflow)"

section \<open>C strings\<close>

abbreviation NUL :: char where "NUL \<equiv> CHR 0x00"
abbreviation LF :: char where "LF \<equiv> CHR 0x0A"
abbreviation CR :: char where "CR \<equiv> CHR 0x0D"
abbreviation SP :: char where "SP \<equiv> CHR 0x20"

text \<open>The string a buffer holds: its bytes up to the first NUL.\<close>

definition cstr :: "string \<Rightarrow> string" where
  "cstr buf = takeWhile (\<lambda>c. c \<noteq> NUL) buf"

text \<open>\<open>tolower\<close> in the C locale.\<close>

definition to_lower :: "char \<Rightarrow> char" where
  "to_lower c = (let n = (of_char c :: nat) in if 65 \<le> n \<and> n \<le> 90 then char_of (n + 32) else c)"

text \<open>\<open>strncasecmp\<close> and \<open>strcasecmp\<close>: the difference at the first position where the two
  strings differ (the end of a string counts as 0), 0 when there is none.\<close>

fun strncasecmp :: "string \<Rightarrow> string \<Rightarrow> nat \<Rightarrow> int" where
  "strncasecmp s t 0 = 0"
| "strncasecmp [] [] (Suc n) = 0"
| "strncasecmp (x # xs) [] (Suc n) = of_char (to_lower x)"
| "strncasecmp [] (y # ys) (Suc n) = - of_char (to_lower y)"
| "strncasecmp (x # xs) (y # ys) (Suc n) =
     (if to_lower x = to_lower y then strncasecmp xs ys n
      else of_char (to_lower x) - of_char (to_lower y))"

definition strcasecmp :: "string \<Rightarrow> string \<Rightarrow> int" where
  "strcasecmp s t = strncasecmp s t (Suc (max (length s) (length t)))"

text \<open>\<open>%d\<close> of \<open>printf\<close>.\<close>

definition digit_char :: "nat \<Rightarrow> char" where
  "digit_char d = char_of (48 + d)"

fun show_nat :: "nat \<Rightarrow> string" where
  "show_nat n = (if n < 10 then [digit_char n] else show_nat (n div 10) @ [digit_char (n mod 10)])"

declare show_nat.simps [simp del]

definition show_int :: "int \<Rightarrow> string" where
  "show_int i = (if i < 0 then CHR ''-'' # show_nat (nat (- i)) else show_nat (nat i))"

definition is_digit :: "char \<Rightarrow> bool" where
  "is_digit c = (let n = (of_char c :: nat) in 48 \<le> n \<and> n \<le> 57)"

definition digit_val :: "char \<Rightarrow> nat" where
  "digit_val c = of_char c - 48"

text \<open>The value of a string of decimal digits (what \<open>atoi\<close> computes before any overflow).\<close>

definition read_nat :: "string \<Rightarrow> nat" where
  "read_nat ds = foldl (\<lambda>n c. 10 * n + digit_val c) 0 ds"

section \<open>Linked lists on a heap\<close>

type_synonym addr = nat
type_synonym 'n heap = "addr \<rightharpoonup> 'n"

text \<open>
  \<open>chain nx vl h p xs\<close>: following the \<open>nx\<close> fields in the heap \<open>h\<close> from the pointer \<open>p\<close>
  visits exactly the addresses of \<open>xs\<close>, whose nodes hold the listed values, and ends at
  the null pointer.
\<close>

fun chain :: "('n \<Rightarrow> addr option) \<Rightarrow> ('n \<Rightarrow> 'v) \<Rightarrow> 'n heap \<Rightarrow> addr option \<Rightarrow> (addr \<times> 'v) list \<Rightarrow> bool" where
  "chain nx vl h p [] = (p = None)"
| "chain nx vl h p ((a, v) # xs) =
     (p = Some a \<and> (case h a of None \<Rightarrow> False | Some n \<Rightarrow> vl n = v \<and> chain nx vl h (nx n) xs))"

text \<open>The pointer to the first node of a list.\<close>

definition head_addr :: "(addr \<times> 'v) list \<Rightarrow> addr option" where
  "head_addr xs = (case xs of [] \<Rightarrow> None | (a, _) # _ \<Rightarrow> Some a)"

section \<open>Shared lemmas\<close>


subsection \<open>Outcomes\<close>

lemma rbind_eq_Inr [simp]: "rbind m f = Inr y \<longleftrightarrow> (\<exists>x. m = Inr x \<and> f x = Inr y)"
  by (cases m) auto

lemma rbind_eq_Inl: "rbind m f = Inl e \<longleftrightarrow> m = Inl e \<or> (\<exists>x. m = Inr x \<and> f x = Inl e)"
  by (cases m) auto

lemma rbind_assoc: "rbind (rbind m f) g = rbind m (\<lambda>x. rbind (f x) g)"
  by (cases m) auto

lemma is_ok_simps [simp]: "is_ok (Inr x)" "\<not> is_ok (Inl e)"
  by (simp_all add: is_ok_def)

lemma is_ok_iff: "is_ok r \<longleftrightarrow> (\<exists>x. r = Inr x)"
  by (cases r) auto

lemma fits_eq_Inr [simp]: "fits cap s = Inr t \<longleftrightarrow> t = s \<and> length s < cap"
  by (auto simp: fits_def)

lemma fits_eq_Inl [simp]: "fits cap s = Inl e \<longleftrightarrow> e = BufferOverflow \<and> cap \<le> length s"
  by (auto simp: fits_def)

lemma is_ok_fits [simp]: "is_ok (fits cap s) \<longleftrightarrow> length s < cap"
  by (simp add: fits_def)

subsection \<open>Strings\<close>

lemma to_lower_NUL [simp]: "to_lower c = NUL \<longleftrightarrow> c = NUL"
proof (cases "65 \<le> (of_char c :: nat) \<and> (of_char c :: nat) \<le> 90")
  case True
  then have "of_char (to_lower c) = (of_char c + 32 :: nat)"
    by (simp add: to_lower_def of_char_of)
  with True have "to_lower c \<noteq> NUL" "c \<noteq> NUL" by auto
  then show ?thesis by simp
next
  case False
  then show ?thesis by (auto simp: to_lower_def Let_def)
qed

lemma of_char_to_lower_0 [simp]: "(of_char (to_lower c) :: int) = 0 \<longleftrightarrow> c = NUL"
proof -
  have "(of_char (to_lower c) :: int) = 0 \<longleftrightarrow> (of_char (to_lower c) :: int) = of_char NUL"
    by simp
  also have "\<dots> \<longleftrightarrow> to_lower c = NUL" by (simp only: of_char_eq_iff)
  finally show ?thesis by simp
qed

lemma strncasecmp_eq_0:
  assumes "NUL \<notin> set s" and "NUL \<notin> set t"
  shows "strncasecmp s t n = 0 \<longleftrightarrow> map to_lower (take n s) = map to_lower (take n t)"
  using assms by (induction s t n rule: strncasecmp.induct) (auto simp: neq_commute)

lemma strcasecmp_eq_0:
  assumes "NUL \<notin> set s" and "NUL \<notin> set t"
  shows "strcasecmp s t = 0 \<longleftrightarrow> map to_lower s = map to_lower t"
  using assms by (simp add: strcasecmp_def strncasecmp_eq_0)

lemma strcasecmp_refl [simp]: "strcasecmp s s = 0"
proof -
  have "strncasecmp s s n = 0" for n
  proof (induction s arbitrary: n)
    case Nil
    show ?case by (cases n) auto
  next
    case (Cons c s)
    then show ?case by (cases n) auto
  qed
  then show ?thesis by (simp add: strcasecmp_def)
qed

lemma NUL_notin_cstr [simp]: "NUL \<notin> set (cstr s)"
  by (auto simp: cstr_def dest: set_takeWhileD)

lemma cstr_id [simp]: "NUL \<notin> set s \<Longrightarrow> cstr s = s"
  by (auto simp: cstr_def takeWhile_eq_all_conv)

lemma cstr_append_NUL [simp]: "NUL \<notin> set s \<Longrightarrow> cstr (s @ NUL # t) = s"
  unfolding cstr_def by (subst takeWhile_append2) auto

lemma length_cstr: "length (cstr s) \<le> length s"
  by (simp add: cstr_def length_takeWhile_le)

subsection \<open>Decimal numbers\<close>

lemma digit_val_digit_char [simp]: "d < 10 \<Longrightarrow> digit_val (digit_char d) = d"
  by (simp add: digit_val_def digit_char_def)

lemma is_digit_digit_char [simp]: "d < 10 \<Longrightarrow> is_digit (digit_char d)"
  by (simp add: is_digit_def digit_char_def)

lemma show_nat_digits: "c \<in> set (show_nat n) \<Longrightarrow> is_digit c"
proof (induction n rule: show_nat.induct)
  case (1 n)
  then show ?case
    by (cases "n < 10") (auto simp: show_nat.simps [of n])
qed

lemma show_nat_nonempty [simp]: "show_nat n \<noteq> []"
  by (subst show_nat.simps) simp

lemma read_nat_snoc: "read_nat (ds @ [c]) = 10 * read_nat ds + digit_val c"
  by (simp add: read_nat_def)

lemma read_show_nat [simp]: "read_nat (show_nat n) = n"
proof (induction n rule: show_nat.induct)
  case (1 n)
  then show ?case
    by (subst show_nat.simps) (auto simp: read_nat_snoc read_nat_def)
qed

lemma length_show_nat_less: "n < 10 ^ Suc k \<Longrightarrow> length (show_nat n) \<le> Suc k"
proof (induction k arbitrary: n)
  case 0
  then show ?case by (subst show_nat.simps) simp
next
  case (Suc k)
  from Suc.prems have "n div 10 < 10 ^ Suc k" by (simp add: less_mult_imp_div_less)
  from Suc.IH [OF this] show ?case by (subst show_nat.simps) simp
qed

lemma length_show_nat_less_1000: "n < 1000 \<Longrightarrow> length (show_nat n) \<le> 3"
  using length_show_nat_less [of n 2] by simp

subsection \<open>Heap lists\<close>

lemma head_addr_simps [simp]:
  "head_addr [] = None" "head_addr ((a, v) # xs) = Some a"
  by (simp_all add: head_addr_def)

lemma head_addr_eq_None [simp]: "head_addr xs = None \<longleftrightarrow> xs = []"
  by (cases xs) (auto simp: head_addr_def)

lemma chain_Cons [simp]:
  "chain nx vl h p ((a, v) # xs) \<longleftrightarrow> p = Some a \<and> (\<exists>n. h a = Some n \<and> vl n = v \<and> chain nx vl h (nx n) xs)"
  by (auto split: option.splits)

declare chain.simps(2) [simp del]

lemma chain_head: "chain nx vl h p xs \<Longrightarrow> p = head_addr xs"
  by (cases xs) auto

lemma chain_None [simp]: "chain nx vl h None xs \<longleftrightarrow> xs = []"
  by (cases xs) auto

lemma chain_Some:
  "chain nx vl h (Some a) xs \<longleftrightarrow>
     (\<exists>n ys. h a = Some n \<and> xs = (a, vl n) # ys \<and> chain nx vl h (nx n) ys)"
  by (cases xs) (auto split: option.splits)

lemma chain_append:
  "chain nx vl h p (xs @ ys) \<Longrightarrow> chain nx vl h (head_addr ys) ys"
  by (induction xs arbitrary: p) (auto dest: chain_head split: option.splits)

lemma chain_mid:
  assumes "chain nx vl h p (xs @ (a, v) # ys)"
  obtains n where "h a = Some n" "vl n = v" "nx n = head_addr ys" "chain nx vl h (head_addr ys) ys"
proof -
  from chain_append [OF assms] obtain n where n: "h a = Some n" "vl n = v" "chain nx vl h (nx n) ys"
    by (auto split: option.splits)
  then have "nx n = head_addr ys" by (blast dest: chain_head)
  with n that show thesis by simp
qed

lemma chain_lookup: "chain nx vl h p xs \<Longrightarrow> (a, v) \<in> set xs \<Longrightarrow> \<exists>n. h a = Some n \<and> vl n = v"
  by (induction xs arbitrary: p) (auto split: option.splits)

lemma chain_dom: "chain nx vl h p xs \<Longrightarrow> a \<in> fst ` set xs \<Longrightarrow> a \<in> dom h"
  by (auto dest: chain_lookup)

lemma chain_frame [simp]:
  "a \<notin> fst ` set xs \<Longrightarrow> chain nx vl (h(a := n)) p xs = chain nx vl h p xs"
  by (induction xs arbitrary: p) (auto split: option.splits)

lemma chain_unique: "chain nx vl h p xs \<Longrightarrow> chain nx vl h p ys \<Longrightarrow> xs = ys"
proof (induction xs arbitrary: p ys)
  case (Cons x xs)
  then show ?case by (cases x; cases ys) (auto split: option.splits)
qed auto

text \<open>A list that ends at the null pointer has no cycle, so its addresses are distinct.\<close>

lemma chain_distinct: "chain nx vl h p xs \<Longrightarrow> distinct (map fst xs)"
proof (induction xs arbitrary: p)
  case (Cons x xs)
  obtain a v where x: "x = (a, v)" by force
  from Cons.prems x obtain n where n: "h a = Some n" "chain nx vl h (nx n) xs"
    by (auto split: option.splits)
  have "a \<notin> fst ` set xs"
  proof
    assume "a \<in> fst ` set xs"
    then obtain us w ws where xs: "xs = us @ (a, w) # ws"
      by (auto dest!: split_list)
    with n have "chain nx vl h (Some a) ((a, w) # ws)"
      using chain_append [of nx vl h "nx n" us "(a, w) # ws"] by simp
    with Cons.prems x have "xs = ws" by (auto dest: chain_unique split: option.splits)
    with xs show False by (metis append_Cons append_eq_append_conv2 length_append length_Cons
        less_irrefl linorder_not_less le_add2 not_less_eq_eq)
  qed
  with Cons.IH n x show ?case by auto
qed auto

text \<open>
  The laws of a node type: it has a link and a payload, each with its own update.  Both
  kinds of nodes in the program, \<open>port_queue_t\<close> and \<open>hostrec\<close>, satisfy them.
\<close>

locale linked_node =
  fixes nx :: "'n \<Rightarrow> addr option"
    and vl :: "'n \<Rightarrow> 'v"
    and set_nx :: "addr option \<Rightarrow> 'n \<Rightarrow> 'n"
    and set_vl :: "'v \<Rightarrow> 'n \<Rightarrow> 'n"
  assumes nx_set_nx [simp]: "nx (set_nx q n) = q"
    and vl_set_nx [simp]: "vl (set_nx q n) = vl n"
    and nx_set_vl [simp]: "nx (set_vl v n) = nx n"
    and vl_set_vl [simp]: "vl (set_vl v n) = v"
begin

lemma push:
  "chain nx vl h p xs \<Longrightarrow> a \<notin> fst ` set xs \<Longrightarrow> nx n = p \<Longrightarrow>
   chain nx vl (h(a \<mapsto> n)) (Some a) ((a, vl n) # xs)"
  by simp

lemma unlink_head:
  assumes "chain nx vl h p ((a, v) # xs)"
  shows "chain nx vl (h(a := None)) (head_addr xs) xs"
proof -
  from chain_distinct [OF assms] have "a \<notin> fst ` set xs" by simp
  with chain_append [of nx vl h p "[(a, v)]" xs] assms show ?thesis by simp
qed

lemma unlink_next:
  assumes "chain nx vl h p (xs @ (b, w) # (a, v) # ys)" and "h b = Some n"
  shows "chain nx vl (h(b \<mapsto> set_nx (head_addr ys) n, a := None)) p (xs @ (b, w) # ys)"
  using assms(1)
proof (induction xs arbitrary: p)
  case Nil
  then have dist: "b \<noteq> a" "b \<notin> fst ` set ys" "a \<notin> fst ` set ys"
    using chain_distinct [OF Nil.prems] by auto
  moreover have "chain nx vl h (head_addr ys) ys"
    using chain_append [of nx vl h p "[(b, w), (a, v)]" ys] Nil by simp
  ultimately show ?case using Nil assms(2)
    by (simp del: fun_upd_apply add: fun_upd_same fun_upd_other)
next
  case (Cons x xs)
  obtain c u where x: "x = (c, u)" by force
  from Cons.prems x have "c \<noteq> a" "c \<noteq> b"
    using chain_distinct [OF Cons.prems] by auto
  with Cons x show ?case by (auto split: option.splits)
qed

lemma set_payload:
  assumes "chain nx vl h p (xs @ (a, v) # ys)" and "h a = Some n"
  shows "chain nx vl (h(a \<mapsto> set_vl w n)) p (xs @ (a, w) # ys)"
  using assms(1)
proof (induction xs arbitrary: p)
  case Nil
  then have "a \<notin> fst ` set ys" using chain_distinct [OF Nil.prems] by auto
  with Nil assms(2) show ?case by (simp del: fun_upd_apply add: fun_upd_same)
next
  case (Cons x xs)
  obtain c u where x: "x = (c, u)" by force
  from Cons.prems x have "c \<noteq> a" using chain_distinct [OF Cons.prems] by auto
  with Cons x show ?case by (auto split: option.splits)
qed

end

end
