(* ===== verification/Inet.thy ===== *)
theory Inet
  imports C_Prelude
begin

text \<open>
  IPv4 addresses as the sources handle them: \<open>struct in_addr\<close> is its 32-bit member
  \<open>s_addr\<close>, in network byte order and read on a little-endian host, so the first octet in
  memory is the least significant byte.  \<open>inet_ntoa\<close> prints the four octets,
  \<open>inet_pton\<close> (for \<open>AF_INET\<close>) accepts exactly the strings that \<open>inet_ntoa\<close> prints.
\<close>

type_synonym in_addr = "32 word"

definition octet :: "in_addr \<Rightarrow> nat \<Rightarrow> 8 word" where
  "octet a i = ucast (drop_bit (8 * i) a)"

definition of_octets :: "nat \<Rightarrow> nat \<Rightarrow> nat \<Rightarrow> nat \<Rightarrow> in_addr" where
  "of_octets a b c d = of_nat (a + 256 * b + 65536 * c + 16777216 * d)"

definition inet_ntoa :: "in_addr \<Rightarrow> string" where
  "inet_ntoa a = show_nat (unat (octet a 0)) @ ''.'' @ show_nat (unat (octet a 1)) @ ''.'' @
     show_nat (unat (octet a 2)) @ ''.'' @ show_nat (unat (octet a 3))"

text \<open>
  The scanner of \<open>inet_pton\<close>: \<open>don\<close> are the finished octets, the last one first, and
  \<open>cur\<close> is the octet being read, if a digit of it has been seen.  An octet has no leading
  zero and is at most 255.
\<close>

fun pton_scan :: "nat list \<Rightarrow> nat option \<Rightarrow> string \<Rightarrow> in_addr option" where
  "pton_scan don cur [] =
     (case cur of None \<Rightarrow> None
      | Some d \<Rightarrow> (case don of [c, b, a] \<Rightarrow> Some (of_octets a b c d) | _ \<Rightarrow> None))"
| "pton_scan don cur (ch # s) =
     (if is_digit ch then
        (case cur of
           None \<Rightarrow> if 4 \<le> length don then None else pton_scan don (Some (digit_val ch)) s
         | Some n \<Rightarrow>
             if n = 0 \<or> 255 < 10 * n + digit_val ch then None
             else pton_scan don (Some (10 * n + digit_val ch)) s)
      else if ch = CHR ''.'' then
        (case cur of None \<Rightarrow> None
         | Some n \<Rightarrow> if length don = 3 then None else pton_scan (n # don) None s)
      else None)"

definition inet_pton :: "string \<Rightarrow> in_addr option" where
  "inet_pton s = pton_scan [] None s"

section \<open>Printing and reading back\<close>

lemma unat_octet: "unat (octet a i) = unat a div 2 ^ (8 * i) mod 256"
proof -
  have "unat (octet a i) = take_bit 8 (unat (drop_bit (8 * i) a))"
    by (simp add: octet_def unsigned_ucast_eq)
  also have "\<dots> = take_bit 8 (drop_bit (8 * i) (unat a))"
    by (simp only: unat_drop_bit_eq)
  finally show ?thesis by (simp add: drop_bit_eq_div take_bit_eq_mod)
qed

lemma octet_less [simp]: "unat (octet a i) < 256"
  by (simp add: unat_octet)

lemma unat_octets:
  "unat (octet a 0) = unat a mod 256" "unat (octet a (Suc 0)) = unat a div 256 mod 256"
  "unat (octet a 2) = unat a div 256 div 256 mod 256"
  "unat (octet a 3) = unat a div 256 div 256 div 256 mod 256"
  by (simp_all add: unat_octet flip: div_mult2_eq)

lemma of_octets_octet:
  "of_octets (unat (octet a 0)) (unat (octet a (Suc 0))) (unat (octet a 2)) (unat (octet a 3)) = a"
proof -
  define q1 q2 q3 where "q1 = unat a div 256" and "q2 = q1 div 256" and "q3 = q2 div 256"
  have "unat a < 4294967296" using unsigned_less [of a] by simp
  then have "q3 < 256" by (simp add: q1_def q2_def q3_def flip: div_mult2_eq)
  moreover have "unat a = 256 * q1 + unat a mod 256" "q1 = 256 * q2 + q1 mod 256"
    "q2 = 256 * q3 + q2 mod 256"
    by (simp_all add: q1_def q2_def q3_def)
  ultimately have "unat a mod 256 + 256 * (q1 mod 256) + 65536 * (q2 mod 256) + 16777216 * (q3 mod 256)
      = unat a"
    by simp
  then show ?thesis
    unfolding of_octets_def unat_octets q1_def [symmetric] q2_def [symmetric] q3_def [symmetric]
    by (simp only: of_nat_unat ucast_id)
qed

lemma octet_of_octets:
  assumes "a < 256" "b < 256" "c < 256" "d < 256"
  shows "unat (octet (of_octets a b c d) 0) = a" "unat (octet (of_octets a b c d) (Suc 0)) = b"
    "unat (octet (of_octets a b c d) 2) = c" "unat (octet (of_octets a b c d) 3) = d"
proof -
  let ?n = "a + 256 * (b + 256 * (c + 256 * d))"
  have "?n < 4294967296" using assms by simp
  then have n: "unat (of_octets a b c d) = ?n"
    by (simp only: of_octets_def unat_of_nat) (simp add: take_bit_eq_mod)
  show "unat (octet (of_octets a b c d) 0) = a" "unat (octet (of_octets a b c d) (Suc 0)) = b"
    "unat (octet (of_octets a b c d) 2) = c" "unat (octet (of_octets a b c d) 3) = d"
    unfolding unat_octets n using assms by (simp_all only: div_mult_self2 mod_mult_self2 div_less mod_less
        zero_neq_numeral not_False_eq_True add_0_right)
qed

lemma not_digit_dot [simp]: "\<not> is_digit (CHR ''.'')"
  by (simp add: is_digit_def)

lemma pton_scan_show_nat:
  "n < 256 \<Longrightarrow> length don < 4 \<Longrightarrow> pton_scan don None (show_nat n @ s) = pton_scan don (Some n) s"
proof (induction n arbitrary: s rule: show_nat.induct)
  case (1 n)
  show ?case
  proof (cases "n < 10")
    case True
    with 1 show ?thesis by (simp add: show_nat.simps [of n])
  next
    case False
    then have "n div 10 \<noteq> 0" by simp
    with False "1.IH" [of "digit_char (n mod 10) # s"] "1.prems" show ?thesis
      by (simp add: show_nat.simps [of n])
  qed
qed

lemma inet_pton_ntoa [simp]: "inet_pton (inet_ntoa a) = Some a"
proof -
  have last: "n < 256 \<Longrightarrow> length don < 4 \<Longrightarrow> pton_scan don None (show_nat n) = pton_scan don (Some n) []"
    for n don using pton_scan_show_nat [of n don "[]"] by simp
  show ?thesis
    unfolding inet_pton_def inet_ntoa_def
    by (simp add: pton_scan_show_nat last of_octets_octet)
qed

definition scanned :: "nat list \<Rightarrow> nat option \<Rightarrow> string" where
  "scanned don cur = concat (map (\<lambda>n. show_nat n @ ''.'') (rev don)) @
     (case cur of None \<Rightarrow> [] | Some n \<Rightarrow> show_nat n)"

lemma digit_char_val [simp]: "is_digit c \<Longrightarrow> digit_char (digit_val c) = c"
  by (simp add: is_digit_def digit_char_def digit_val_def Let_def)

lemma digit_val_less [simp]: "is_digit c \<Longrightarrow> digit_val c < 10"
  by (auto simp: is_digit_def digit_val_def Let_def)

lemma show_nat_step: "n \<noteq> 0 \<Longrightarrow> is_digit c \<Longrightarrow> show_nat (10 * n + digit_val c) = show_nat n @ [c]"
  by (subst show_nat.simps) (simp add: div_mult_self1 [of 10] add.commute)

lemma pton_scan_Some:
  assumes "pton_scan don cur s = Some a" and "\<forall>x \<in> set don. x < 256"
    and "case cur of None \<Rightarrow> True | Some n \<Rightarrow> n < 256"
  shows "scanned don cur @ s = inet_ntoa a"
  using assms
proof (induction don cur s rule: pton_scan.induct)
  case (1 don cur)
  then obtain d c b a' where "cur = Some d" "don = [c, b, a']" "a = of_octets a' b c d"
    by (auto split: option.splits list.splits)
  with 1 show ?case by (simp add: scanned_def inet_ntoa_def octet_of_octets)
next
  case (2 don cur ch s)
  show ?case
  proof (cases "is_digit ch")
    case True
    with 2 show ?thesis
      by (cases cur)
         (auto simp: scanned_def show_nat_step show_nat.simps [of "digit_val ch"]
          dest: digit_val_less split: if_splits)
  next
    case False
    with 2 show ?thesis by (cases cur) (auto simp: scanned_def split: if_splits)
  qed
qed

lemma inet_pton_iff: "inet_pton s = Some a \<longleftrightarrow> s = inet_ntoa a"
  using pton_scan_Some [of "[]" None s a] by (auto simp: inet_pton_def scanned_def
      simp flip: inet_pton_ntoa)

lemma length_inet_ntoa: "length (inet_ntoa a) \<le> 15"
proof -
  have "length (show_nat (unat (octet a i))) \<le> 3" for i
    using octet_less [of a i] by (intro length_show_nat_less_1000) linarith
  from this [of 0] this [of 1] this [of 2] this [of 3] show ?thesis
    by (simp add: inet_ntoa_def)
qed

lemma NUL_notin_inet_ntoa [simp]: "NUL \<notin> set (inet_ntoa a)"
proof -
  have "\<not> is_digit NUL" by (simp add: is_digit_def)
  then show ?thesis by (auto simp: inet_ntoa_def dest: show_nat_digits)
qed

lemma length_inet_ntoa_ge: "7 \<le> length (inet_ntoa a)"
proof -
  have "1 \<le> length (show_nat n)" for n using show_nat_nonempty [of n] by (cases "show_nat n") auto
  note this [of "unat (octet a 0)"] this [of "unat (octet a 1)"] this [of "unat (octet a 2)"] this [of "unat (octet a 3)"]
  then show ?thesis by (simp add: inet_ntoa_def)
qed

end
