(* ===== verification/Auth.thy ===== *)
theory Auth
  imports Inet
begin

text \<open>
  The access list of the server (\<open>server/authenticate.c\<close>): a list of users, each with a
  network, built by \<open>auth_add\<close> and searched by \<open>auth_check\<close>.  Addresses and masks are
  \<open>unsigned long int\<close>, 64 bits wide, holding a zero-extended \<open>s_addr\<close>.  Both functions also
  format a log line into a 256-byte buffer, which is part of the model because it can
  overflow.  The locale \<open>access_policy\<close> states what the rest of the server relies on.
\<close>

record auth_data_t =
  conf_userid :: string
  conf_ip :: "64 word"
  conf_netmask :: "64 word"

text \<open>\<open>ipaddress(x)\<close>: the first four bytes in memory of an \<open>unsigned long int\<close>.\<close>

definition ipaddress :: "64 word \<Rightarrow> in_addr" where
  "ipaddress x = ucast x"

text \<open>\<open>%s\<close> of a \<open>char *\<close>; the C library prints a null pointer as \<open>(null)\<close>.\<close>

definition printf_s :: "string option \<Rightarrow> string" where
  "printf_s p = (case p of None \<Rightarrow> ''(null)'' | Some s \<Rightarrow> s)"

definition auth_add :: "string \<Rightarrow> 64 word \<Rightarrow> 64 word \<Rightarrow> auth_data_t list \<Rightarrow> auth_data_t list res" where
  "auth_add user ip netmask aq =
     (let newauth = \<lparr>conf_userid = user, conf_ip = ip AND netmask, conf_netmask = netmask\<rparr>
      in rbind (fits 256 (''Added user: '' @ user @ ''@'' @ inet_ntoa (ipaddress ip) @ ''/''))
           (\<lambda>line. rbind (fits 256 (line @ inet_ntoa (ipaddress netmask)))
             (\<lambda>_. Inr (newauth # aq))))"

text \<open>The search loop of \<open>auth_check\<close>; \<open>strcasecmp\<close> of a null user id dereferences it.\<close>

fun auth_scan :: "auth_data_t list \<Rightarrow> string option \<Rightarrow> 64 word \<Rightarrow> string \<Rightarrow> bool res" where
  "auth_scan [] user ip line = rbind (fits 256 (line @ ''read-only access'')) (\<lambda>_. Inr False)"
| "auth_scan (c # cs) user ip line =
     (case user of None \<Rightarrow> Inl NullDeref
      | Some u \<Rightarrow>
          if strcasecmp (conf_userid c) u = 0 then
            (let ipcheck = ip AND conf_netmask c in
             if ipcheck = conf_ip c
             then rbind (fits 256 (line @ ''full access'')) (\<lambda>_. Inr True)
             else auth_scan cs user ip line)
          else auth_scan cs user ip line)"

definition auth_check :: "auth_data_t list \<Rightarrow> string option \<Rightarrow> 64 word \<Rightarrow> bool res" where
  "auth_check aq user ip =
     rbind (fits 256 (''Checking user: '' @ printf_s user @ ''@'' @ inet_ntoa (ipaddress ip) @ '' -- ''))
       (\<lambda>line. auth_scan aq user ip line)"

section \<open>The policy an access list stands for\<close>

definition entry_allows :: "auth_data_t \<Rightarrow> string \<Rightarrow> 64 word \<Rightarrow> bool" where
  "entry_allows c user ip \<longleftrightarrow> strcasecmp (conf_userid c) user = 0 \<and> ip AND conf_netmask c = conf_ip c"

definition allowed :: "auth_data_t list \<Rightarrow> string \<Rightarrow> 64 word \<Rightarrow> bool" where
  "allowed aq user ip \<longleftrightarrow> list_ex (\<lambda>c. entry_allows c user ip) aq"

text \<open>A user of network \<open>ip/netmask\<close>, as the entry written by \<open>auth_add\<close> for it.\<close>

definition auth_entry :: "string \<Rightarrow> 64 word \<Rightarrow> 64 word \<Rightarrow> auth_data_t" where
  "auth_entry user ip netmask = \<lparr>conf_userid = user, conf_ip = ip AND netmask, conf_netmask = netmask\<rparr>"

lemma auth_scan_eq:
  "auth_scan aq (Some u) ip line =
     (if allowed aq u ip then rbind (fits 256 (line @ ''full access'')) (\<lambda>_. Inr True)
      else rbind (fits 256 (line @ ''read-only access'')) (\<lambda>_. Inr False))"
  by (induction aq) (auto simp: allowed_def entry_allows_def Let_def)

lemma auth_check_result: "auth_check aq (Some u) ip = Inr b \<Longrightarrow> b = allowed aq u ip"
  by (auto simp: auth_check_def auth_scan_eq split: if_splits)

text \<open>The log lines fit whenever the user name has at most 204 characters.\<close>

lemma auth_check_eq:
  assumes "length u \<le> 204"
  shows "auth_check aq (Some u) ip = Inr (allowed aq u ip)"
  using assms length_inet_ntoa [of "ipaddress ip"]
  by (simp add: auth_check_def printf_s_def auth_scan_eq fits_def)

lemma auth_check_null:
  "auth_check aq None ip = (if aq = [] then Inr False else Inl NullDeref)"
  using length_inet_ntoa [of "ipaddress ip"]
  by (cases aq) (simp_all add: auth_check_def printf_s_def fits_def)

lemma auth_add_eq:
  assumes "length u \<le> 211"
  shows "auth_add u ip netmask aq = Inr (auth_entry u ip netmask # aq)"
  using assms length_inet_ntoa [of "ipaddress ip"] length_inet_ntoa [of "ipaddress netmask"]
  by (simp add: auth_add_def auth_entry_def fits_def)

lemma auth_add_result: "auth_add u ip netmask aq = Inr aq' \<Longrightarrow> aq' = auth_entry u ip netmask # aq"
  by (auto simp: auth_add_def auth_entry_def Let_def)

section \<open>What the server relies on\<close>

text \<open>
  An access policy: \<open>check\<close> after \<open>add\<close> grants what it granted before, and the new user on
  the new network.  From the laws: the order in which a configuration lists its users does not
  matter, and adding users never takes an access away.
\<close>

locale access_policy =
  fixes empty :: 'p
    and add :: "string \<Rightarrow> 64 word \<Rightarrow> 64 word \<Rightarrow> 'p \<Rightarrow> 'p"
    and check :: "'p \<Rightarrow> string \<Rightarrow> 64 word \<Rightarrow> bool"
  assumes check_empty: "\<not> check empty v j"
    and check_add: "check (add u i m p) v j \<longleftrightarrow> (strcasecmp u v = 0 \<and> j AND m = i AND m) \<or> check p v j"
begin

lemma check_fold:
  "check (fold (\<lambda>(u, i, m). add u i m) cfg p) v j \<longleftrightarrow>
     (\<exists>(u, i, m) \<in> set cfg. strcasecmp u v = 0 \<and> j AND m = i AND m) \<or> check p v j"
  by (induction cfg arbitrary: p) (auto simp: check_add)

lemma check_order_irrelevant:
  "set cfg = set cfg' \<Longrightarrow>
   check (fold (\<lambda>(u, i, m). add u i m) cfg empty) v j =
   check (fold (\<lambda>(u, i, m). add u i m) cfg' empty) v j"
  by (simp add: check_fold check_empty)

lemma check_mono: "check p v j \<Longrightarrow> check (fold (\<lambda>(u, i, m). add u i m) cfg p) v j"
  by (simp add: check_fold)

end

interpretation acl: access_policy "[]" "\<lambda>u i m aq. auth_entry u i m # aq" allowed
  by unfold_locales (auto simp: allowed_def entry_allows_def auth_entry_def)

end
