(* ===== verification/FdSets.thy ===== *)
theory FdSets
  imports C_Prelude
begin

text \<open>
  The descriptor sets of the server (\<open>server/fds.h\<close>) and the multiplexing of its three
  ``threads'' over one \<open>select\<close> (\<open>server/selection.c\<close>).  An \<open>fd_set\<close> is the set of its
  members; \<open>FD_SET\<close> outside \<open>0 .. FD_SETSIZE - 1\<close> writes outside the bitmap and is
  \<open>BadFd\<close>.  The lemmas show that the record a thread keeps (\<open>fds_ok\<close>: a counted set and its
  maximum) is kept by adding and removing descriptors, and what a round of \<open>do_select\<close>
  hands to each thread.
\<close>

definition FD_SETSIZE :: int where
  "FD_SETSIZE = 1024"

record thread_fds_t =
  fullcount :: int
  full :: "int set"
  maxfd :: int
  selcount :: int
  sel :: "int set"

definition FD_SET :: "int \<Rightarrow> int set \<Rightarrow> int set res" where
  "FD_SET fd S = (if 0 \<le> fd \<and> fd < FD_SETSIZE then Inr (insert fd S) else Inl BadFd)"

text \<open>\<open>fifo_server_init\<close> and \<open>port_server_init\<close> build this record.\<close>

definition port_server_init :: thread_fds_t where
  "port_server_init = \<lparr>fullcount = 0, full = {}, maxfd = -1, selcount = 0, sel = {}\<rparr>"

section \<open>selection.c\<close>

definition adjust_maxfd :: "thread_fds_t \<Rightarrow> int \<Rightarrow> int" where
  "adjust_maxfd t currfd =
     (if maxfd t \<noteq> currfd then maxfd t
      else foldl (\<lambda>m i. if i \<in> full t then i else m) (-1) [0..maxfd t])"

text \<open>One of the three copy loops of \<open>mux_fds\<close>, with the maximum that follows it.\<close>

definition mux_one :: "thread_fds_t \<Rightarrow> thread_fds_t \<Rightarrow> thread_fds_t" where
  "mux_one t mux =
     (let m = foldl (\<lambda>m i. if i \<in> full t
                then m\<lparr>full := insert i (full m), fullcount := fullcount m + 1\<rparr> else m)
              mux [0..maxfd t]
      in m\<lparr>maxfd := (if maxfd t > maxfd m then maxfd t else maxfd m)\<rparr>)"

definition mux_fds :: "thread_fds_t \<Rightarrow> thread_fds_t \<Rightarrow> thread_fds_t \<Rightarrow> thread_fds_t \<Rightarrow> thread_fds_t" where
  "mux_fds pd ps fs mux =
     mux_one fs (mux_one ps (mux_one pd (mux\<lparr>maxfd := -1, fullcount := 0, full := {}\<rparr>)))"

definition mark :: "int \<Rightarrow> thread_fds_t \<Rightarrow> thread_fds_t" where
  "mark i t = (if i \<in> full t then t\<lparr>sel := insert i (sel t), selcount := selcount t + 1\<rparr> else t)"

definition unselect :: "thread_fds_t \<Rightarrow> thread_fds_t" where
  "unselect t = t\<lparr>sel := {}, selcount := 0\<rparr>"

fun demux_loop :: "int list \<Rightarrow> int \<Rightarrow> thread_fds_t \<Rightarrow>
    thread_fds_t \<times> thread_fds_t \<times> thread_fds_t \<Rightarrow> thread_fds_t \<times> thread_fds_t \<times> thread_fds_t" where
  "demux_loop [] cnt mux fds = fds"
| "demux_loop (i # is) cnt mux (pd, ps, fs) =
     (if cnt < selcount mux then
        if i \<in> full mux then demux_loop is (cnt + 1) mux (mark i pd, mark i ps, mark i fs)
        else demux_loop is cnt mux (pd, ps, fs)
      else (pd, ps, fs))"

text \<open>\<open>count\<close> is never initialised in \<open>demux_fds\<close>: its first value is the argument \<open>count0\<close>.\<close>

definition demux_fds :: "int \<Rightarrow> thread_fds_t \<Rightarrow>
    thread_fds_t \<times> thread_fds_t \<times> thread_fds_t \<Rightarrow> thread_fds_t \<times> thread_fds_t \<times> thread_fds_t" where
  "demux_fds count0 mux fds =
     (case fds of (pd, ps, fs) \<Rightarrow>
        demux_loop [0..maxfd mux] count0 mux (unselect pd, unselect ps, unselect fs))"

text \<open>
  \<open>do_select\<close>: the system call is a parameter, given the number of descriptors to look at
  and the set; it returns its result and the set it leaves behind.  The new \<open>muxedfds\<close> and the
  three records are returned.
\<close>

definition do_select :: "(int \<Rightarrow> int set \<Rightarrow> int \<times> int set) \<Rightarrow> int \<Rightarrow> thread_fds_t \<Rightarrow>
    thread_fds_t \<times> thread_fds_t \<times> thread_fds_t \<Rightarrow>
    thread_fds_t \<times> thread_fds_t \<times> thread_fds_t \<times> thread_fds_t" where
  "do_select select count0 mux fds =
     (case fds of (pd, ps, fs) \<Rightarrow>
        let m = mux_fds pd ps fs mux;
            (n, ready) = select (maxfd m + 1) (full m);
            m' = m\<lparr>full := ready, selcount := n\<rparr>
        in (m', demux_fds count0 m' (pd, ps, fs)))"

section \<open>The record of a thread\<close>

definition set_max :: "int set \<Rightarrow> int" where
  "set_max S = (if S = {} then -1 else Max S)"

definition fds_ok :: "thread_fds_t \<Rightarrow> bool" where
  "fds_ok t \<longleftrightarrow> full t \<subseteq> {0..<FD_SETSIZE} \<and> fullcount t = int (card (full t)) \<and> maxfd t = set_max (full t)"

lemma FD_SET_eq_Inr [simp]: "FD_SET fd S = Inr T \<longleftrightarrow> 0 \<le> fd \<and> fd < FD_SETSIZE \<and> T = insert fd S"
  by (auto simp: FD_SET_def)

lemma fds_ok_finite: "fds_ok t \<Longrightarrow> finite (full t)"
  by (auto simp: fds_ok_def intro: finite_subset)

lemma fds_ok_bounds: "fds_ok t \<Longrightarrow> i \<in> full t \<Longrightarrow> 0 \<le> i \<and> i \<le> maxfd t"
  using fds_ok_finite [of t] by (auto simp: fds_ok_def set_max_def)

lemma fds_ok_init [simp]: "fds_ok port_server_init"
  by (simp add: fds_ok_def port_server_init_def set_max_def)

lemma set_max_insert: "finite S \<Longrightarrow> S \<subseteq> {0..} \<Longrightarrow> 0 \<le> fd \<Longrightarrow> set_max (insert fd S) = max fd (set_max S)"
  by (auto simp: set_max_def)

lemma fds_ok_insert:
  assumes "fds_ok t" and "0 \<le> fd" "fd < FD_SETSIZE" and "fd \<notin> full t"
  shows "fds_ok (t\<lparr>fullcount := fullcount t + 1, full := insert fd (full t),
                   maxfd := (if fd > maxfd t then fd else maxfd t)\<rparr>)"
proof -
  from assms have "set_max (insert fd (full t)) = max fd (maxfd t)"
    by (subst set_max_insert) (auto simp: fds_ok_def intro: finite_subset)
  with assms fds_ok_finite [OF assms(1)] show ?thesis by (auto simp: fds_ok_def)
qed

text \<open>The scan of \<open>adjust_maxfd\<close> finds the largest member.\<close>

lemma foldl_scan_max:
  "foldl (\<lambda>m i. if i \<in> S then i else m) (-1) [0..int n] = set_max (S \<inter> {0..int n})"
proof (induction n)
  case 0
  show ?case by (auto simp: set_max_def)
next
  case (Suc n)
  have upto: "[0..int (Suc n)] = [0..int n] @ [int (Suc n)]"
    by (subst upto_rec2) auto
  have set: "S \<inter> {0..int (Suc n)} =
      (if int (Suc n) \<in> S then insert (int (Suc n)) (S \<inter> {0..int n}) else S \<inter> {0..int n})"
    by (auto simp: le_less)
  have "set_max (S \<inter> {0..int n}) \<le> int n" by (auto simp: set_max_def)
  then have "set_max (insert (int (Suc n)) (S \<inter> {0..int n})) = int (Suc n)"
    by (subst set_max_insert) (auto simp: max_def)
  with Suc show ?case by (simp only: upto set foldl_append) simp
qed

lemma adjust_maxfd_removed:
  assumes "fds_ok t" and "t' = t\<lparr>fullcount := c, full := full t - {fd}\<rparr>"
  shows "adjust_maxfd t' fd = set_max (full t - {fd})"
proof (cases "maxfd t = fd")
  case False
  have "set_max (full t - {fd}) = set_max (full t)"
  proof (cases "full t = {}")
    case nonempty: False
    with assms(1) False have m: "Max (full t) \<in> full t - {fd}"
      using fds_ok_finite [OF assms(1)] by (auto simp: fds_ok_def set_max_def)
    then have "Max (full t - {fd}) = Max (full t)"
      using fds_ok_finite [OF assms(1)] by (intro Max_eqI) auto
    with m nonempty show ?thesis by (auto simp: set_max_def)
  qed simp
  with False assms show ?thesis by (simp add: adjust_maxfd_def fds_ok_def)
next
  case True
  show ?thesis
  proof (cases "0 \<le> fd")
    case nonneg: True
    have "(full t - {fd}) \<inter> {0..fd} = full t - {fd}"
      using fds_ok_bounds [OF assms(1)] True by auto
    with foldl_scan_max [of "full t - {fd}" "nat fd"] True nonneg assms(2) show ?thesis
      by (simp add: adjust_maxfd_def)
  next
    case neg: False
    with fds_ok_bounds [OF assms(1)] True have "full t = {}" by fastforce
    with True neg assms(2) show ?thesis by (simp add: adjust_maxfd_def set_max_def)
  qed
qed

lemma fds_ok_remove:
  assumes "fds_ok t" and "fd \<in> full t"
  defines "t' \<equiv> t\<lparr>fullcount := fullcount t - 1, full := full t - {fd}\<rparr>"
  shows "fds_ok (t'\<lparr>maxfd := adjust_maxfd t' fd\<rparr>)"
proof -
  have "adjust_maxfd t' fd = set_max (full t - {fd})"
    by (rule adjust_maxfd_removed [OF assms(1)]) (simp add: t'_def)
  moreover have "0 < card (full t)"
    using assms(2) fds_ok_finite [OF assms(1)] by (auto simp: card_gt_0_iff)
  ultimately show ?thesis
    using assms fds_ok_finite [OF assms(1)] by (auto simp: fds_ok_def t'_def card_Diff_singleton)
qed

section \<open>A round of select\<close>

lemma mux_fold:
  "distinct is \<Longrightarrow>
   foldl (\<lambda>m i. if i \<in> S then m\<lparr>full := insert i (full m), fullcount := fullcount m + 1\<rparr> else m) mux is =
   mux\<lparr>full := full mux \<union> (S \<inter> set is), fullcount := fullcount mux + int (card (S \<inter> set is))\<rparr>"
proof (induction "is" arbitrary: mux)
  case (Cons i "is")
  then have "i \<in> S \<Longrightarrow> card (S \<inter> insert i (set is)) = Suc (card (S \<inter> set is))"
    by (simp add: Int_insert_right)
  with Cons show ?case by (auto simp: Int_insert_right)
qed simp

lemma mux_one_eq:
  assumes "fds_ok t"
  shows "mux_one t mux = mux\<lparr>full := full mux \<union> full t, fullcount := fullcount mux + fullcount t,
                             maxfd := max (maxfd mux) (maxfd t)\<rparr>"
proof -
  have "full t \<inter> {0..maxfd t} = full t" using fds_ok_bounds [OF assms] by auto
  with assms show ?thesis by (simp add: mux_one_def mux_fold fds_ok_def Let_def max_def)
qed

lemma mux_fds_eq:
  assumes "fds_ok pd" "fds_ok ps" "fds_ok fs"
  shows "mux_fds pd ps fs mux = mux\<lparr>full := full pd \<union> full ps \<union> full fs,
     fullcount := fullcount pd + fullcount ps + fullcount fs,
     maxfd := max (max (max (-1) (maxfd pd)) (maxfd ps)) (maxfd fs)\<rparr>"
  using assms by (simp add: mux_fds_def mux_one_eq)

text \<open>What marking a whole set of descriptors does to a thread's record.\<close>

definition marked :: "int set \<Rightarrow> thread_fds_t \<Rightarrow> thread_fds_t" where
  "marked S t = t\<lparr>sel := sel t \<union> (S \<inter> full t), selcount := selcount t + int (card (S \<inter> full t))\<rparr>"

lemma marked_empty [simp]: "marked {} t = t"
  by (simp add: marked_def)

lemma marked_mark: "finite S \<Longrightarrow> i \<notin> S \<Longrightarrow> marked S (mark i t) = marked (insert i S) t"
  by (auto simp: marked_def mark_def)

lemma demux_loop_eq:
  assumes "distinct is"
  shows "demux_loop is cnt mux (pd, ps, fs) =
    (let S = set (take (nat (selcount mux - cnt)) (filter (\<lambda>i. i \<in> full mux) is))
     in (marked S pd, marked S ps, marked S fs))"
  using assms
proof (induction "is" arbitrary: cnt pd ps fs)
  case (Cons i "is")
  show ?case
  proof (cases "cnt < selcount mux")
    case True
    then have n: "nat (selcount mux - cnt) = Suc (nat (selcount mux - (cnt + 1)))" by simp
    have "i \<notin> set (take k (filter (\<lambda>i. i \<in> full mux) is))" for k
      using Cons.prems by (auto dest!: in_set_takeD)
    with Cons True show ?thesis by (simp add: n marked_mark Let_def)
  next
    case False
    then show ?thesis by simp
  qed
qed simp

definition served :: "int set \<Rightarrow> thread_fds_t \<Rightarrow> thread_fds_t" where
  "served R t = t\<lparr>sel := R \<inter> full t, selcount := int (card (R \<inter> full t))\<rparr>"

lemma marked_unselect: "marked R (unselect t) = served R t"
  by (simp add: marked_def unselect_def served_def)

text \<open>Whatever \<open>select\<close> does, a round leaves the watched sets alone.\<close>

definition same_watch :: "thread_fds_t \<Rightarrow> thread_fds_t \<Rightarrow> bool" where
  "same_watch t t' \<longleftrightarrow> full t' = full t \<and> fullcount t' = fullcount t \<and> maxfd t' = maxfd t"

lemma fds_ok_same_watch: "same_watch t t' \<Longrightarrow> fds_ok t' = fds_ok t"
  by (simp add: same_watch_def fds_ok_def)

lemma do_select_same_watch:
  assumes "do_select select count0 mux (pd, ps, fs) = (m, pd', ps', fs')"
  shows "same_watch pd pd'" "same_watch ps ps'" "same_watch fs fs'"
  using assms
  by (auto simp: do_select_def demux_fds_def demux_loop_eq same_watch_def marked_def unselect_def Let_def
      split: prod.splits)

text \<open>C11: \<open>do_select\<close> hands every ready descriptor to the thread that watches it and to no
  other.  When \<open>select\<close> reports \<open>n\<close> ready descriptors (a subset of what it was given, with its
  size as the result) and the uninitialised counter of \<open>demux_fds\<close> happens to start at or
  below 0, each of the three records has the ready part of its own set selected and counted.\<close>

theorem do_select_serves:
  assumes ok: "fds_ok pd" "fds_ok ps" "fds_ok fs"
    and sel: "\<And>k S. select k S = (int (card (ready S)), ready S)"
    and sub: "\<And>S. ready S \<subseteq> S"
    and cnt: "count0 \<le> 0"
  shows "snd (do_select select count0 mux (pd, ps, fs)) =
    (let R = ready (full pd \<union> full ps \<union> full fs) in (served R pd, served R ps, served R fs))"
proof -
  let ?m = "mux_fds pd ps fs mux"
  let ?R = "ready (full ?m)"
  have R: "?R \<subseteq> {0..maxfd ?m}"
    using sub [of "full ?m"] fds_ok_bounds [OF ok(1)] fds_ok_bounds [OF ok(2)] fds_ok_bounds [OF ok(3)]
    by (fastforce simp: mux_fds_eq [OF ok] le_max_iff_disj)
  let ?l = "filter (\<lambda>i. i \<in> ?R) [0..maxfd ?m]"
  have l: "set ?l = ?R" using R by auto
  then have "length ?l = card ?R" by (metis distinct_card distinct_filter distinct_upto)
  then have "set (take (nat (int (card ?R) - count0)) ?l) = ?R" using l cnt by simp
  then show ?thesis
    by (simp add: do_select_def sel demux_fds_def demux_loop_eq marked_unselect Let_def
        mux_fds_eq [OF ok])
qed

lemma do_select_serves_witness:
  "snd (do_select (\<lambda>k S. (int (card (S \<inter> {3, 9})), S \<inter> {3, 9})) 0 port_server_init
     (\<lparr>fullcount = 1, full = {3}, maxfd = 3, selcount = 0, sel = {}\<rparr>,
      \<lparr>fullcount = 2, full = {5, 9}, maxfd = 9, selcount = 4, sel = {5}\<rparr>, port_server_init)) =
   (\<lparr>fullcount = 1, full = {3}, maxfd = 3, selcount = 1, sel = {3}\<rparr>,
    \<lparr>fullcount = 2, full = {5, 9}, maxfd = 9, selcount = 1, sel = {9}\<rparr>, port_server_init)"
proof -
  let ?pd = "\<lparr>fullcount = 1, full = {3}, maxfd = 3, selcount = 0, sel = {}\<rparr>"
  let ?ps = "\<lparr>fullcount = 2, full = {5, 9}, maxfd = 9, selcount = 4, sel = {5}\<rparr>"
  have "fds_ok ?pd" "fds_ok ?ps" by (simp_all add: fds_ok_def set_max_def FD_SETSIZE_def)
  from do_select_serves [OF this fds_ok_init, of "\<lambda>k S. (int (card (S \<inter> {3, 9})), S \<inter> {3, 9})" "\<lambda>S. S \<inter> {3, 9}"
      0 port_server_init]
  show ?thesis by (simp add: served_def Let_def port_server_init_def)
qed

text \<open>C35: the counter of \<open>demux_fds\<close> is never initialised.  When the value it happens to start with
  is not below the number of ready descriptors, no thread is told about any of them.\<close>

theorem do_select_starves:
  assumes "fst (select (maxfd (mux_fds pd ps fs mux) + 1) (full (mux_fds pd ps fs mux))) \<le> count0"
  shows "snd (do_select select count0 mux (pd, ps, fs)) = (unselect pd, unselect ps, unselect fs)"
proof -
  obtain n ready where nr: "select (maxfd (mux_fds pd ps fs mux) + 1) (full (mux_fds pd ps fs mux)) = (n, ready)"
    by force
  with assms show ?thesis
    by (simp add: do_select_def demux_fds_def demux_loop_eq)
qed

lemma do_select_starves_witness:
  "snd (do_select (\<lambda>k S. (1, S)) 1 port_server_init
     (\<lparr>fullcount = 1, full = {3}, maxfd = 3, selcount = 0, sel = {}\<rparr>, port_server_init, port_server_init)) =
   (\<lparr>fullcount = 1, full = {3}, maxfd = 3, selcount = 0, sel = {}\<rparr>, port_server_init, port_server_init)"
  by (subst do_select_starves) (simp_all add: unselect_def port_server_init_def)

end
