(* ===== verification/ServerState.thy ===== *)
theory ServerState
  imports Auth FdSets
begin

text \<open>
  The data of the server: \<open>port_t\<close> and \<open>port_queue_t\<close> of \<open>server/ports.h\<close>, and the global
  variables of its files in one record.  The queue of clients is a linked list on an explicit
  heap (\<open>qheap\<close>, \<open>pq\<close>), because the loops of the server walk it while they unlink nodes.
  \<open>out\<close> records, oldest first, what the server did to the outside: sockets made, reads from a client, bytes a client's descriptor
  accepted, bytes written to the control FIFO (\<open>controlfd\<close>), descriptors closed, FIFOs made and
  removed.
\<close>

definition FLAG_READ :: "32 word" where "FLAG_READ = 1"
definition FLAG_WRITE :: "32 word" where "FLAG_WRITE = 2"
definition FLAG_MONITOR :: "32 word" where "FLAG_MONITOR = 4"

record sockaddr_in =
  sin_addr :: in_addr
  sin_port :: "16 word"

record port_t =
  fd :: int
  sa :: sockaddr_in
  flag :: "32 word"
  userid :: "string option"

record port_queue_t =
  qnext :: "addr option"
  port :: port_t

datatype event =
    Socket int
  | Recv int
  | ToClient int string
  | ToControl string
  | Close int
  | Mknod string
  | Unlink string

record server =
  qheap :: "port_queue_t heap"
  pq :: "addr option"
  aq :: "auth_data_t list"
  pd :: thread_fds_t
  ps :: thread_fds_t
  fs :: thread_fds_t
  muxedfds :: thread_fds_t
  monitorcount :: int
  controlfd :: int
  monitorfd :: int
  monitor :: string
  s_in :: port_t
  out :: "event list"

definition emit :: "event \<Rightarrow> server \<Rightarrow> server" where
  "emit e s = s\<lparr>out := out s @ [e]\<rparr>"

text \<open>The node a pointer of the queue leads to; a dangling pointer is \<open>BadPointer\<close>.\<close>

definition deref :: "server \<Rightarrow> addr \<Rightarrow> port_queue_t res" where
  "deref s a = (case qheap s a of None \<Rightarrow> Inl BadPointer | Some n \<Rightarrow> Inr n)"

text \<open>A test such as \<open>p->flag & FLAG_MONITOR\<close>.\<close>

definition has_flag :: "port_t \<Rightarrow> 32 word \<Rightarrow> bool" where
  "has_flag p m \<longleftrightarrow> flag p AND m \<noteq> 0"

text \<open>The queue as a list of nodes.\<close>

abbreviation queue :: "server \<Rightarrow> (addr \<times> port_t) list \<Rightarrow> bool" where
  "queue s xs \<equiv> chain qnext port (qheap s) (pq s) xs"

interpretation pqn: linked_node qnext port "\<lambda>q n. n\<lparr>qnext := q\<rparr>" "\<lambda>v n. n\<lparr>port := v\<rparr>"
  by unfold_locales simp_all

section \<open>Flags\<close>

lemma has_flag_bits:
  "has_flag p FLAG_READ \<longleftrightarrow> bit (flag p) 0" "has_flag p FLAG_WRITE \<longleftrightarrow> bit (flag p) 1"
  "has_flag p FLAG_MONITOR \<longleftrightarrow> bit (flag p) 2"
  using bit_iff_and_push_bit_not_eq_0 [of "flag p" 0] bit_iff_and_push_bit_not_eq_0 [of "flag p" 1]
    bit_iff_and_push_bit_not_eq_0 [of "flag p" 2]
  by (simp_all add: has_flag_def FLAG_READ_def FLAG_WRITE_def FLAG_MONITOR_def push_bit_eq_mult)

lemmas flag_defs = FLAG_READ_def FLAG_WRITE_def FLAG_MONITOR_def

lemma emit_frame [simp]:
  "qheap (emit e s) = qheap s" "pq (emit e s) = pq s" "aq (emit e s) = aq s"
  "pd (emit e s) = pd s" "ps (emit e s) = ps s" "fs (emit e s) = fs s"
  "muxedfds (emit e s) = muxedfds s" "monitorcount (emit e s) = monitorcount s"
  "controlfd (emit e s) = controlfd s" "monitorfd (emit e s) = monitorfd s"
  "monitor (emit e s) = monitor s" "s_in (emit e s) = s_in s" "out (emit e s) = out s @ [e]"
  by (simp_all add: emit_def)

lemma emit_emit: "emit e (emit f s) = s\<lparr>out := out s @ [f, e]\<rparr>"
  by (simp add: emit_def)

lemma deref_eq_Inr [simp]: "deref s a = Inr n \<longleftrightarrow> qheap s a = Some n"
  by (simp add: deref_def split: option.splits)

lemma deref_Some [simp]: "qheap s a = Some n \<Longrightarrow> deref s a = Inr n"
  by simp

section \<open>The bookkeeping of the queue\<close>

text \<open>
  What the server keeps true of its clients: the queue is a list of nodes and nothing else is
  allocated, no two clients share a descriptor, the descriptor set of the port server is the
  set of the clients' descriptors, and \<open>monitorcount\<close> counts the clients that monitor.
\<close>

definition monitors :: "(addr \<times> port_t) list \<Rightarrow> port_t list" where
  "monitors xs = filter (\<lambda>p. has_flag p FLAG_MONITOR) (map snd xs)"

definition clients_ok :: "server \<Rightarrow> (addr \<times> port_t) list \<Rightarrow> bool" where
  "clients_ok s xs \<longleftrightarrow> queue s xs \<and> dom (qheap s) = fst ` set xs \<and>
     distinct (map (fd \<circ> snd) xs) \<and> fds_ok (ps s) \<and> full (ps s) = (fd \<circ> snd) ` set xs \<and>
     monitorcount s = int (length (monitors xs))"

lemma monitors_simps [simp]:
  "monitors [] = []"
  "monitors ((a, p) # xs) = (if has_flag p FLAG_MONITOR then p # monitors xs else monitors xs)"
  "monitors (xs @ ys) = monitors xs @ monitors ys"
  by (simp_all add: monitors_def)

lemma monitors_fd: "p \<in> set (monitors xs) \<Longrightarrow> fd p \<in> (fd \<circ> snd) ` set xs"
  by (auto simp: monitors_def image_iff)

lemma clients_ok_fd_unique:
  "clients_ok s (xs @ (a, p) # ys) \<Longrightarrow> fd p \<notin> (fd \<circ> snd) ` set xs \<and> fd p \<notin> (fd \<circ> snd) ` set ys"
  by (auto simp: clients_ok_def)

lemma clients_ok_length: "clients_ok s xs \<Longrightarrow> length xs \<le> 1024"
proof -
  assume ok: "clients_ok s xs"
  then have "length xs = card ((fd \<circ> snd) ` set xs)"
    by (metis clients_ok_def distinct_card length_map set_map)
  also have "\<dots> \<le> card {0..<FD_SETSIZE}"
    using ok by (intro card_mono) (auto simp: clients_ok_def fds_ok_def)
  finally show ?thesis by (simp add: FD_SETSIZE_def)
qed

lemma clients_ok_cong:
  "qheap s' = qheap s \<Longrightarrow> pq s' = pq s \<Longrightarrow> ps s' = ps s \<Longrightarrow> monitorcount s' = monitorcount s \<Longrightarrow>
   clients_ok s' xs = clients_ok s xs"
  by (simp add: clients_ok_def)

lemma clients_ok_emit [simp]: "clients_ok (emit e s) xs = clients_ok s xs"
  by (rule clients_ok_cong) simp_all

lemma deref_emit [simp]: "deref (emit e s) a = deref s a"
  by (simp add: deref_def)

text \<open>The bytes written into the control FIFO.\<close>

fun controls :: "event list \<Rightarrow> string list" where
  "controls [] = []"
| "controls (ToControl b # es) = b # controls es"
| "controls (e # es) = controls es"

text \<open>The clients read from.\<close>

fun recvs :: "event list \<Rightarrow> int list" where
  "recvs [] = []"
| "recvs (Recv f # es) = f # recvs es"
| "recvs (e # es) = recvs es"

lemma recvs_append [simp]: "recvs (es @ es') = recvs es @ recvs es'"
  by (induction es rule: recvs.induct) auto

lemma controls_append [simp]: "controls (es @ es') = controls es @ controls es'"
  by (induction es rule: controls.induct) auto

lemma controls_map_ToClient [simp]: "controls (map (\<lambda>x. ToClient (f x) (g x)) xs) = []"
  by (induction xs) auto

section \<open>An example state\<close>

text \<open>Three clients on descriptors 5, 6 and 7, all monitoring; the first has write access and
  its user is in the access list.  Concrete instances of the theorems are stated over it.\<close>

definition ex_port :: "int \<Rightarrow> 32 word \<Rightarrow> string option \<Rightarrow> port_t" where
  "ex_port f fl u = \<lparr>fd = f, sa = \<lparr>sin_addr = 16777343, sin_port = 4660\<rparr>, flag = fl, userid = u\<rparr>"

definition ex_clients :: "(addr \<times> port_t) list" where
  "ex_clients = [(1, ex_port 5 7 (Some ''gavin'')), (2, ex_port 6 5 (Some ''guest'')), (3, ex_port 7 5 None)]"

definition ex_server :: server where
  "ex_server = \<lparr>qheap = [1 \<mapsto> \<lparr>qnext = Some 2, port = ex_port 5 7 (Some ''gavin'')\<rparr>,
                         2 \<mapsto> \<lparr>qnext = Some 3, port = ex_port 6 5 (Some ''guest'')\<rparr>,
                         3 \<mapsto> \<lparr>qnext = None, port = ex_port 7 5 None\<rparr>],
     pq = Some 1, aq = [auth_entry ''gavin'' 16777343 4294967295],
     pd = \<lparr>fullcount = 1, full = {3}, maxfd = 3, selcount = 0, sel = {}\<rparr>,
     ps = \<lparr>fullcount = 3, full = {5, 6, 7}, maxfd = 7, selcount = 1, sel = {6}\<rparr>,
     fs = \<lparr>fullcount = 1, full = {8}, maxfd = 8, selcount = 0, sel = {}\<rparr>,
     muxedfds = port_server_init, monitorcount = 3, controlfd = 4, monitorfd = 8,
     monitor = ''/tmp/f'', s_in = ex_port 0 0 None, out = []\<rparr>"

lemma ex_flags [simp]:
  "has_flag (ex_port f 7 u) FLAG_MONITOR" "has_flag (ex_port f 5 u) FLAG_MONITOR"
  "has_flag (ex_port f 7 u) FLAG_WRITE" "\<not> has_flag (ex_port f 5 u) FLAG_WRITE"
  by (simp_all add: has_flag_def ex_port_def flag_defs)

lemma ex_port_fd [simp]: "fd (ex_port f fl u) = f" "userid (ex_port f fl u) = u"
  by (simp_all add: ex_port_def)

lemma ex_monitors [simp]:
  "monitors ex_clients = [ex_port 5 7 (Some ''gavin''), ex_port 6 5 (Some ''guest''), ex_port 7 5 None]"
  by (simp add: ex_clients_def)

lemma ex_clients_ok: "clients_ok ex_server ex_clients"
proof -
  have "queue ex_server ex_clients" by (simp add: ex_server_def ex_clients_def)
  moreover have "dom (qheap ex_server) = fst ` set ex_clients"
    by (auto simp: ex_server_def ex_clients_def)
  moreover have "fds_ok (ps ex_server)"
    by (simp add: ex_server_def fds_ok_def set_max_def FD_SETSIZE_def)
  moreover have "full (ps ex_server) = (fd \<circ> snd) ` set ex_clients"
    by (simp add: ex_server_def ex_clients_def)
  moreover have "distinct (map (fd \<circ> snd) ex_clients)" by (simp add: ex_clients_def)
  moreover have "monitorcount ex_server = int (length (monitors ex_clients))"
    by (simp add: ex_server_def)
  ultimately show ?thesis by (simp add: clients_ok_def)
qed

end
