(* ===== verification/PortQueue.thy ===== *)
theory PortQueue
  imports ServerState
begin

text \<open>
  The queue of connected clients (\<open>server/port-queue.c\<close>): \<open>port_enqueue\<close> links a new node in
  front, \<open>close_port\<close> closes a client's descriptor, finds its node by comparing the stored
  ports and unlinks it.  Both are shown to implement the corresponding operation on the list of
  clients and to keep the bookkeeping \<open>clients_ok\<close>.  The locale \<open>client_queue\<close> is the contract
  the loops over the queue rely on.
\<close>

text \<open>The result of \<open>malloc\<close> is a parameter: \<open>None\<close> is the null pointer.\<close>

definition port_enqueue :: "addr option \<Rightarrow> port_t \<Rightarrow> server \<Rightarrow> (bool \<times> server) res" where
  "port_enqueue malloc p s =
     (case malloc of None \<Rightarrow> Inr (False, s)
      | Some np \<Rightarrow>
          let s1 = s\<lparr>qheap := (qheap s)(np \<mapsto> \<lparr>qnext = pq s, port = p\<rparr>), pq := Some np\<rparr>;
              t = ps s1
          in rbind (FD_SET (fd p) (full t)) (\<lambda>S.
               Inr (True, s1\<lparr>ps := t\<lparr>fullcount := fullcount t + 1, full := S,
                                 maxfd := (if fd p > maxfd t then fd p else maxfd t)\<rparr>\<rparr>)))"

text \<open>
  The search loop of \<open>close_port\<close>.  Fuel bounds the number of nodes visited: a queue of
  descriptors below \<open>FD_SETSIZE\<close> has at most 1024 nodes.  After the node is freed the loop
  header of the source still evaluates \<open>curr->next\<close>; the value is not used, as \<open>found\<close> ends
  the loop.
\<close>

definition QFUEL :: nat where
  "QFUEL = 1025"

fun close_loop :: "nat \<Rightarrow> port_t \<Rightarrow> addr option \<Rightarrow> addr option \<Rightarrow> server \<Rightarrow> server res" where
  "close_loop 0 p cur prev s = Inl Diverges"
| "close_loop (Suc fuel) p cur prev s =
     (case cur of None \<Rightarrow> Inr s
      | Some c \<Rightarrow> rbind (deref s c) (\<lambda>n.
          if port n = p then
            rbind (case prev of
                     None \<Rightarrow> Inr (s\<lparr>pq := qnext n\<rparr>)
                   | Some b \<Rightarrow> rbind (deref s b) (\<lambda>m. Inr (s\<lparr>qheap := (qheap s)(b \<mapsto> m\<lparr>qnext := qnext n\<rparr>)\<rparr>)))
              (\<lambda>s1. let t = (ps s1)\<lparr>fullcount := fullcount (ps s1) - 1, full := full (ps s1) - {fd p}\<rparr>
                    in Inr (s1\<lparr>ps := t\<lparr>maxfd := adjust_maxfd t (fd p)\<rparr>, qheap := (qheap s1)(c := None)\<rparr>))
          else close_loop fuel p (qnext n) (Some c) s))"

text \<open>\<open>close_port(&a->port)\<close>, as every caller passes the port inside a node.\<close>

definition close_port :: "addr \<Rightarrow> server \<Rightarrow> server res" where
  "close_port a s = rbind (deref s a) (\<lambda>n.
     let p = port n in
     if fd p \<in> full (ps s) then
       let s1 = (if has_flag p FLAG_MONITOR then s\<lparr>monitorcount := monitorcount s - 1\<rparr> else s);
           s2 = emit (Close (fd p)) s1
       in if pq s2 = None then Inr s2 else close_loop QFUEL p (pq s2) None s2
     else Inr s)"

text \<open>The step \<open>curr = (curr ? curr->next : pq)\<close> of the two loops over the queue.\<close>

definition next_node :: "server \<Rightarrow> addr option \<Rightarrow> addr option res" where
  "next_node s cur = (case cur of None \<Rightarrow> Inr (pq s) | Some a \<Rightarrow> rbind (deref s a) (\<lambda>n. Inr (qnext n)))"

section \<open>What closing leaves alone\<close>

definition same_rest :: "server \<Rightarrow> server \<Rightarrow> bool" where
  "same_rest s s' \<longleftrightarrow> aq s' = aq s \<and> pd s' = pd s \<and> fs s' = fs s \<and> muxedfds s' = muxedfds s \<and>
     controlfd s' = controlfd s \<and> monitorfd s' = monitorfd s \<and> monitor s' = monitor s \<and>
     sel (ps s') = sel (ps s) \<and> selcount (ps s') = selcount (ps s)"

lemma same_rest_refl [simp]: "same_rest s s"
  by (simp add: same_rest_def)

lemma same_rest_trans: "same_rest s s' \<Longrightarrow> same_rest s' s'' \<Longrightarrow> same_rest s s''"
  by (simp add: same_rest_def)

definition last_addr :: "(addr \<times> 'v) list \<Rightarrow> addr option" where
  "last_addr xs = (if xs = [] then None else Some (fst (last xs)))"

lemma last_addr_simps [simp]: "last_addr [] = None" "last_addr (xs @ [(a, v)]) = Some a"
  by (simp_all add: last_addr_def)

section \<open>Adding a client\<close>

lemma port_enqueue_refines:
  assumes ok: "clients_ok s xs" and fresh: "np \<notin> dom (qheap s)"
    and fd: "0 \<le> fd p" "fd p < FD_SETSIZE" "fd p \<notin> full (ps s)"
    and flag: "\<not> has_flag p FLAG_MONITOR"
  obtains s' where "port_enqueue (Some np) p s = Inr (True, s')" "clients_ok s' ((np, p) # xs)"
    "same_rest s s'" "out s' = out s"
proof -
  let ?t = "(ps s)\<lparr>fullcount := fullcount (ps s) + 1, full := insert (fd p) (full (ps s)),
               maxfd := (if fd p > maxfd (ps s) then fd p else maxfd (ps s))\<rparr>"
  let ?s = "s\<lparr>qheap := (qheap s)(np \<mapsto> \<lparr>qnext = pq s, port = p\<rparr>), pq := Some np, ps := ?t\<rparr>"
  have "np \<notin> fst ` set xs" using ok fresh by (auto simp: clients_ok_def)
  with ok have "chain qnext port (qheap ?s) (Some np) ((np, p) # xs)"
    using pqn.push [of "qheap s" "pq s" xs np "\<lparr>qnext = pq s, port = p\<rparr>"]
    by (simp add: clients_ok_def)
  moreover have "fds_ok ?t" using ok fd by (intro fds_ok_insert) (auto simp: clients_ok_def)
  ultimately have "clients_ok ?s ((np, p) # xs)" using ok fd flag by (auto simp: clients_ok_def)
  moreover have "port_enqueue (Some np) p s = Inr (True, ?s)"
    using fd by (simp add: port_enqueue_def Let_def FD_SET_def)
  ultimately show thesis using that by (simp add: same_rest_def)
qed

section \<open>Removing a client\<close>

text \<open>The record of the port server once the descriptor \<open>f\<close> is gone.\<close>

definition drop_fd :: "int \<Rightarrow> thread_fds_t \<Rightarrow> thread_fds_t" where
  "drop_fd f t = (let t' = t\<lparr>fullcount := fullcount t - 1, full := full t - {f}\<rparr>
                  in t'\<lparr>maxfd := adjust_maxfd t' f\<rparr>)"

lemma drop_fd_simps [simp]:
  "full (drop_fd f t) = full t - {f}" "sel (drop_fd f t) = sel t" "selcount (drop_fd f t) = selcount t"
  by (simp_all add: drop_fd_def Let_def)

lemma fds_ok_drop_fd: "fds_ok t \<Longrightarrow> f \<in> full t \<Longrightarrow> fds_ok (drop_fd f t)"
  using fds_ok_remove [of t f] by (simp add: drop_fd_def Let_def)

text \<open>Where the loop stands: \<open>us\<close> are the nodes already passed, \<open>vs\<close> those still before the
  node it looks for.\<close>

lemma close_loop_unlinks:
  assumes "queue s (us @ vs @ (a, p) # ys)" and "p \<notin> snd ` set vs" and "length vs < fuel"
  shows "\<exists>s'. close_loop fuel p (head_addr (vs @ (a, p) # ys)) (last_addr us) s = Inr s' \<and>
    queue s' (us @ vs @ ys) \<and> dom (qheap s') = dom (qheap s) - {a} \<and> ps s' = drop_fd (fd p) (ps s) \<and>
    out s' = out s \<and> monitorcount s' = monitorcount s \<and> same_rest s s'"
  using assms
proof (induction vs arbitrary: us fuel)
  case Nil
  obtain f where fuel: "fuel = Suc f" using Nil.prems by (cases fuel) auto
  obtain n where n: "qheap s a = Some n" "port n = p" "qnext n = head_addr ys"
    using Nil.prems by (auto elim: chain_mid [of qnext port "qheap s" "pq s" us a p ys])
  show ?case
  proof (cases us rule: rev_cases)
    case us: Nil
    have "chain qnext port ((qheap s)(a := None)) (head_addr ys) ys"
      using Nil.prems us by (auto intro: pqn.unlink_head [of _ "pq s" a p])
    with fuel n us show ?thesis
      by (simp add: Let_def drop_fd_def same_rest_def del: fun_upd_apply)
  next
    case (snoc us' x)
    obtain b q where x: "x = (b, q)" by force
    from Nil.prems snoc x have q: "queue s (us' @ (b, q) # (a, p) # ys)" by simp
    then obtain m where m: "qheap s b = Some m" by (auto elim: chain_mid)
    have "chain qnext port ((qheap s)(b \<mapsto> m\<lparr>qnext := head_addr ys\<rparr>, a := None)) (pq s) (us' @ (b, q) # ys)"
      by (rule pqn.unlink_next [OF q m])
    moreover have "b \<noteq> a" using chain_distinct [OF q] by auto
    ultimately show ?thesis using fuel n m snoc x
      by (auto simp add: Let_def drop_fd_def same_rest_def simp del: fun_upd_apply)
  qed
next
  case (Cons v vs)
  obtain c q where v: "v = (c, q)" by force
  obtain f where fuel: "fuel = Suc f" using Cons.prems by (cases fuel) auto
  have "queue s (us @ (c, q) # vs @ (a, p) # ys)" using Cons.prems v by simp
  then obtain n where "qheap s c = Some n" "port n = q" "qnext n = head_addr (vs @ (a, p) # ys)"
    by (auto elim: chain_mid)
  with Cons.prems fuel v
  have "close_loop fuel p (head_addr ((v # vs) @ (a, p) # ys)) (last_addr us) s =
      close_loop f p (head_addr (vs @ (a, p) # ys)) (last_addr (us @ [(c, q)])) s"
    by auto
  with Cons.IH [of "us @ [(c, q)]" f] Cons.prems v fuel show ?case by simp
qed

lemma close_port_refines:
  assumes ok: "clients_ok s (xs @ (a, p) # ys)"
  shows "\<exists>s'. close_port a s = Inr s' \<and> clients_ok s' (xs @ ys) \<and> same_rest s s' \<and>
    out s' = out s @ [Close (fd p)]"
proof -
  have q: "queue s (xs @ (a, p) # ys)" using ok by (simp add: clients_ok_def)
  then obtain n where n: "qheap s a = Some n" "port n = p" by (auto elim: chain_mid)
  have fd: "fd p \<in> full (ps s)" using ok by (auto simp: clients_ok_def)
  have pq: "pq s = head_addr (xs @ (a, p) # ys)" by (rule chain_head [OF q])
  then have ne: "pq s \<noteq> None" by simp
  let ?s = "emit (Close (fd p)) (if has_flag p FLAG_MONITOR then s\<lparr>monitorcount := monitorcount s - 1\<rparr> else s)"
  have "length xs < QFUEL" using clients_ok_length [OF ok] by (simp add: QFUEL_def)
  moreover have "p \<notin> snd ` set xs" using clients_ok_fd_unique [OF ok] by force
  moreover have "queue ?s ([] @ xs @ (a, p) # ys)" using q by simp
  ultimately obtain s' where s': "close_loop QFUEL p (pq s) None ?s = Inr s'" "queue s' (xs @ ys)"
    "dom (qheap s') = dom (qheap s) - {a}" "ps s' = drop_fd (fd p) (ps s)" "out s' = out ?s"
    "monitorcount s' = monitorcount ?s" "same_rest ?s s'"
    using close_loop_unlinks [of ?s "[]" xs a p ys QFUEL] pq by auto
  have "fds_ok (ps s')" using fds_ok_drop_fd [of "ps s" "fd p"] fd ok s' by (simp add: clients_ok_def)
  moreover have "(fd \<circ> snd) ` set (xs @ ys) = full (ps s')"
  proof -
    have "fd p \<notin> (fd \<circ> snd) ` set (xs @ ys)"
      using clients_ok_fd_unique [OF ok] by (simp only: set_append image_Un) blast
    moreover have "full (ps s) = insert (fd p) ((fd \<circ> snd) ` set (xs @ ys))"
      using ok by (auto simp: clients_ok_def)
    ultimately show ?thesis using s'(4) by (simp only: drop_fd_simps Diff_insert_absorb simp_thms)
  qed
  moreover have "dom (qheap s') = fst ` set (xs @ ys)"
    using s' ok chain_distinct [OF q] by (auto simp: clients_ok_def)
  ultimately have "clients_ok s' (xs @ ys)" using ok s' by (auto simp: clients_ok_def)
  moreover have "close_port a s = Inr s'" using n fd ne s'(1)
    by (auto simp: close_port_def Let_def split: if_splits)
  moreover have "same_rest s s'" using s' by (auto simp: same_rest_def)
  ultimately show ?thesis using s' by simp
qed

section \<open>The contract of the queue\<close>

text \<open>
  What a loop over the clients relies on, for a state that represents the list of clients:
  the first pointer, a node's client and successor, replacing a client's data, and closing a
  client.  The two consequences are what makes the loops of the server sound: after a client is
  kept the walk goes on with the one behind it, and after a client is closed the walk, set back
  to the node before it, also goes on with the one behind it.
\<close>

locale client_queue =
  fixes rep :: "'s \<Rightarrow> (addr \<times> port_t) list \<Rightarrow> bool"
    and first :: "'s \<Rightarrow> addr option"
    and get :: "'s \<Rightarrow> addr \<Rightarrow> port_queue_t res"
    and close :: "addr \<Rightarrow> 's \<Rightarrow> 's res"
  assumes first_rep: "rep s xs \<Longrightarrow> first s = head_addr xs"
    and get_rep: "rep s (xs @ (a, p) # ys) \<Longrightarrow> get s a = Inr \<lparr>qnext = head_addr ys, port = p\<rparr>"
    and close_rep: "rep s (xs @ (a, p) # ys) \<Longrightarrow> \<exists>s'. close a s = Inr s' \<and> rep s' (xs @ ys)"
begin

lemma walk_keeps:
  "rep s (xs @ (a, p) # ys) \<Longrightarrow> rbind (get s a) (\<lambda>n. Inr (qnext n)) = Inr (head_addr ys)"
  by (simp add: get_rep)

lemma walk_set_back:
  assumes "rep s (xs @ ys)"
  shows "(case last_addr xs of None \<Rightarrow> Inr (first s) | Some b \<Rightarrow> rbind (get s b) (\<lambda>n. Inr (qnext n)))
    = Inr (head_addr ys)"
proof (cases xs rule: rev_cases)
  case Nil
  with assms show ?thesis by (simp add: first_rep)
next
  case (snoc xs' x)
  obtain b q where "x = (b, q)" by force
  with assms snoc show ?thesis by (simp add: get_rep [of s xs' b q ys])
qed

lemma walk_closes:
  assumes "rep s (xs @ (a, p) # ys)"
  shows "\<exists>s'. close a s = Inr s' \<and> rep s' (xs @ ys) \<and>
    (case last_addr xs of None \<Rightarrow> Inr (first s') | Some b \<Rightarrow> rbind (get s' b) (\<lambda>n. Inr (qnext n)))
      = Inr (head_addr ys)"
  using close_rep [OF assms] walk_set_back by blast

end

lemma clients_ok_deref:
  assumes "clients_ok s (xs @ (a, p) # ys)"
  shows "deref s a = Inr \<lparr>qnext = head_addr ys, port = p\<rparr>"
proof -
  from assms have "queue s (xs @ (a, p) # ys)" by (simp add: clients_ok_def)
  then obtain n where "qheap s a = Some n" "port n = p" "qnext n = head_addr ys"
    by (auto elim: chain_mid)
  then show ?thesis by simp
qed

interpretation cq: client_queue clients_ok pq deref close_port
proof unfold_locales
  show "clients_ok s xs \<Longrightarrow> pq s = head_addr xs" for s xs
    by (auto simp: clients_ok_def dest: chain_head)
  show "clients_ok s (xs @ (a, p) # ys) \<Longrightarrow> deref s a = Inr \<lparr>qnext = head_addr ys, port = p\<rparr>" for s xs a p ys
    by (rule clients_ok_deref)
  show "clients_ok s (xs @ (a, p) # ys) \<Longrightarrow> \<exists>s'. close_port a s = Inr s' \<and> clients_ok s' (xs @ ys)" for s xs a p ys
    using close_port_refines by blast
qed

lemma next_node_kept: "clients_ok s (xs @ (a, p) # ys) \<Longrightarrow> next_node s (Some a) = Inr (head_addr ys)"
  using cq.walk_keeps by (simp add: next_node_def)

lemma next_node_set_back: "clients_ok s (xs @ ys) \<Longrightarrow> next_node s (last_addr xs) = Inr (head_addr ys)"
  using cq.walk_set_back unfolding next_node_def .

text \<open>C26: closing a client closes its descriptor and takes exactly this client out of the queue, wherever
  it stands, with the descriptor set, the largest descriptor and the count of monitoring clients kept
  in step, and touches nothing else.\<close>

theorem close_port_removes:
  assumes "clients_ok s (xs @ (a, p) # ys)"
  shows "\<exists>s'. close_port a s = Inr s' \<and> clients_ok s' (xs @ ys) \<and> out s' = out s @ [Close (fd p)] \<and>
    same_rest s s'"
  using close_port_refines [OF assms] by blast

lemma close_port_removes_witness:
  "\<exists>s'. close_port 2 ex_server = Inr s' \<and>
    clients_ok s' [(1, ex_port 5 7 (Some ''gavin'')), (3, ex_port 7 5 None)] \<and> out s' = [Close 6]"
proof -
  have "clients_ok ex_server ([(1, ex_port 5 7 (Some ''gavin''))] @
      (2, ex_port 6 5 (Some ''guest'')) # [(3, ex_port 7 5 None)])"
    using ex_clients_ok by (simp add: ex_clients_def)
  from close_port_removes [OF this] show ?thesis by (auto simp: ex_server_def)
qed

end
