(* ===== verification/FifoServer.thy ===== *)
theory FifoServer
  imports PortQueue
begin

text \<open>
  The monitor FIFO (\<open>server/fifo-server.c\<close>): opening and closing it, and \<open>fifo_server\<close>, which
  copies what diald writes into it to every client that monitors.  The lemmas show that without
  a broken connection every monitoring client gets every chunk exactly once and in order, that a
  round always ends with the bookkeeping intact, and what a broken connection does to the others.
\<close>

text \<open>The path \<open>tmpnam\<close> returns and the result of \<open>open\<close> are parameters.\<close>

definition monitor_open :: "string \<times> int \<Rightarrow> server \<Rightarrow> server res" where
  "monitor_open mo s =
     (if monitorfd s \<noteq> -1 then Inr s
      else rbind (fits 255 (fst mo)) (\<lambda>path.
        let s1 = (emit (Mknod path) (s\<lparr>monitor := path\<rparr>))\<lparr>monitorfd := snd mo\<rparr>
        in if monitorfd s1 = -1 then Inr s1
           else rbind (fits 1002 (''monitor '' @ path @ [LF])) (\<lambda>line.
             let s2 = emit (ToControl line) s1
             in rbind (FD_SET (monitorfd s2) {}) (\<lambda>S.
                  Inr (s2\<lparr>fs := (fs s2)\<lparr>fullcount := 1, full := S, maxfd := monitorfd s2\<rparr>\<rparr>)))))"

definition monitor_close :: "server \<Rightarrow> server" where
  "monitor_close s =
     (if monitorfd s = -1 then s
      else (emit (Unlink (monitor s)) (emit (Close (monitorfd s)) s))
             \<lparr>monitorfd := -1,
              fs := (fs s)\<lparr>fullcount := 0, selcount := 0, full := {}, sel := {}, maxfd := -1\<rparr>\<rparr>)"

text \<open>
  The inner loop of \<open>fifo_server\<close>, for one chunk.  \<open>epipe i fd\<close> says whether the \<open>write\<close> to
  \<open>fd\<close>, made when the loop counter is \<open>i\<close>, fails with \<open>EPIPE\<close>.  \<open>prev\<close> is never assigned in
  the source after its initialisation, so after a close the walk restarts at \<open>pq\<close>.  The fuel
  covers one walk over the queue for each client that can be closed.
\<close>

definition BFUEL :: nat where
  "BFUEL = 1050625"

fun bcast :: "nat \<Rightarrow> (nat \<Rightarrow> int \<Rightarrow> bool) \<Rightarrow> string \<Rightarrow> addr option \<Rightarrow> nat \<Rightarrow> server \<Rightarrow> server res" where
  "bcast 0 epipe line cur i s = Inl Diverges"
| "bcast (Suc fuel) epipe line cur i s =
     (case cur of None \<Rightarrow> Inr s
      | Some a \<Rightarrow>
          if int i < monitorcount s then
            rbind (deref s a) (\<lambda>n.
              if has_flag (port n) FLAG_MONITOR then
                if epipe i (fd (port n)) then
                  rbind (close_port a s) (\<lambda>s1.
                    rbind (next_node s1 None) (\<lambda>c. bcast fuel epipe line c (i + 1) s1))
                else
                  let s1 = emit (ToClient (fd (port n)) line) s
                  in rbind (next_node s1 cur) (\<lambda>c. bcast fuel epipe line c (i + 1) s1)
              else rbind (next_node s cur) (\<lambda>c. bcast fuel epipe line c i s))
          else Inr s)"

text \<open>The outer loop: the chunks \<open>read\<close> returns, each with the fate of its writes; the list
  ends where \<open>read\<close> returns 0 or an error.\<close>

type_synonym chunk = "string \<times> (nat \<Rightarrow> int \<Rightarrow> bool)"

fun fifo_loop :: "chunk list \<Rightarrow> server \<Rightarrow> server res" where
  "fifo_loop [] s = Inr s"
| "fifo_loop ((line, epipe) # cs) s =
     rbind (bcast BFUEL epipe line (pq s) 0 s)
       (\<lambda>s1. if monitorcount s1 \<noteq> 0 then fifo_loop cs s1 else Inr s1)"

definition fifo_server :: "chunk list \<Rightarrow> server \<Rightarrow> server res" where
  "fifo_server cs s =
     (if fullcount (ps s) = 0 \<or> monitorcount s = 0 then Inr (monitor_close s) else fifo_loop cs s)"

section \<open>The monitor FIFO and its descriptor set\<close>

definition fifo_ok :: "server \<Rightarrow> bool" where
  "fifo_ok s \<longleftrightarrow> fds_ok (fs s) \<and> full (fs s) = (if monitorfd s = -1 then {} else {monitorfd s})"

lemma fds_ok_single: "0 \<le> f \<Longrightarrow> f < FD_SETSIZE \<Longrightarrow> fds_ok (t\<lparr>fullcount := 1, full := {f}, maxfd := f\<rparr>)"
  by (simp add: fds_ok_def set_max_def)

lemma fds_ok_none: "fds_ok (t\<lparr>fullcount := 0, selcount := 0, full := {}, sel := {}, maxfd := -1\<rparr>)"
  by (simp add: fds_ok_def set_max_def)

lemma monitor_open_frame:
  "monitor_open mo s = Inr s' \<Longrightarrow>
   qheap s' = qheap s \<and> pq s' = pq s \<and> monitorcount s' = monitorcount s \<and> aq s' = aq s \<and>
   pd s' = pd s \<and> ps s' = ps s \<and> muxedfds s' = muxedfds s \<and> controlfd s' = controlfd s"
  by (auto simp: monitor_open_def Let_def split: if_splits)

lemma monitor_open_ok:
  assumes "monitor_open mo s = Inr s'" and "fifo_ok s" and "clients_ok s xs"
  shows "fifo_ok s' \<and> clients_ok s' xs"
proof -
  have "fifo_ok s'"
    using assms by (auto simp: monitor_open_def Let_def fifo_ok_def fds_ok_single split: if_splits)
  moreover have "clients_ok s' xs = clients_ok s xs"
    using monitor_open_frame [OF assms(1)] by (intro clients_ok_cong) simp_all
  ultimately show ?thesis using assms by simp
qed

lemma monitor_open_succeeds:
  assumes "length (fst mo) < 255" and "snd mo = -1 \<or> 0 \<le> snd mo \<and> snd mo < FD_SETSIZE"
  shows "is_ok (monitor_open mo s)"
  using assms by (auto simp: monitor_open_def Let_def fits_def FD_SET_def)

text \<open>The only line the server itself writes into the control FIFO asks diald to monitor.\<close>

lemma monitor_open_out:
  assumes "monitor_open mo s = Inr s'"
  shows "\<exists>es. out s' = out s @ es \<and> (\<forall>b. ToControl b \<in> set es \<longrightarrow> b = ''monitor '' @ monitor s' @ [LF])"
  using assms by (auto simp: monitor_open_def Let_def emit_emit split: if_splits)

lemma monitor_close_ok:
  assumes "fifo_ok s" and "clients_ok s xs"
  shows "fifo_ok (monitor_close s) \<and> clients_ok (monitor_close s) xs"
proof -
  have "clients_ok (monitor_close s) xs = clients_ok s xs"
    by (rule clients_ok_cong) (simp_all add: monitor_close_def)
  then show ?thesis using assms by (simp add: monitor_close_def fifo_ok_def fds_ok_none)
qed

section \<open>Broadcasting\<close>

text \<open>
  Walking over clients whose writes succeed: \<open>us\<close> lie behind, \<open>ys\<close> ahead.  The counter \<open>i\<close> and
  \<open>monitorcount\<close> decide how many of the monitoring clients ahead are still served.
\<close>

lemma bcast_delivers:
  assumes "clients_ok s (us @ ys)" and "length ys < fuel"
    and "\<forall>p \<in> set (monitors ys). \<forall>i. \<not> epipe i (fd p)"
  shows "bcast fuel epipe line (head_addr ys) i s =
    Inr (s\<lparr>out := out s @ map (\<lambda>p. ToClient (fd p) line) (take (nat (monitorcount s - int i)) (monitors ys))\<rparr>)"
  using assms
proof (induction ys arbitrary: us s fuel i)
  case Nil
  then obtain f where "fuel = Suc f" by (cases fuel) auto
  then show ?case by simp
next
  case (Cons y ys)
  obtain a p where y: "y = (a, p)" by force
  obtain f where fuel: "fuel = Suc f" "length ys < f" using Cons.prems by (cases fuel) auto
  have ok: "clients_ok s (us @ (a, p) # ys)" using Cons.prems y by simp
  have ok': "clients_ok s ((us @ [(a, p)]) @ ys)" using ok by simp
  have ep: "\<forall>p \<in> set (monitors ys). \<forall>i. \<not> epipe i (fd p)"
    using Cons.prems(3) y by auto
  show ?case
  proof (cases "int i < monitorcount s")
    case stop: False
    then show ?thesis using fuel y by simp
  next
    case go: True
    then have n: "nat (monitorcount s - int i) = Suc (nat (monitorcount s - int (i + 1)))" by simp
    show ?thesis
    proof (cases "has_flag p FLAG_MONITOR")
      case True
      let ?s = "emit (ToClient (fd p) line) s"
      have "next_node ?s (Some a) = Inr (head_addr ys)"
        using ok by (intro next_node_kept [of _ us a p]) simp
      moreover have "clients_ok ?s ((us @ [(a, p)]) @ ys)" using ok' by simp
      note Cons.IH [OF this fuel(2) ep, of "i + 1"]
      moreover have "\<not> epipe i (fd p)" using True Cons.prems(3) y by simp
      ultimately show ?thesis using fuel True go y
        by (simp add: clients_ok_deref [OF ok] Let_def n)
    next
      case False
      with Cons.IH [OF ok' fuel(2) ep, of i] fuel go y show ?thesis
        by (simp add: clients_ok_deref [OF ok] next_node_kept [OF ok])
    qed
  qed
qed

lemma bcast_skips:
  assumes "clients_ok s (us @ vs @ ys)" and "\<forall>p \<in> set (monitors vs). \<forall>i. \<not> epipe i (fd p)"
    and "int (i + length (monitors vs)) < monitorcount s"
  shows "bcast (length vs + fuel) epipe line (head_addr (vs @ ys)) i s =
    bcast fuel epipe line (head_addr ys) (i + length (monitors vs))
      (s\<lparr>out := out s @ map (\<lambda>p. ToClient (fd p) line) (monitors vs)\<rparr>)"
  using assms
proof (induction vs arbitrary: us s i)
  case (Cons v vs)
  obtain a p where v: "v = (a, p)" by force
  have ok: "clients_ok s (us @ (a, p) # vs @ ys)" using Cons.prems v by simp
  have ok': "clients_ok s ((us @ [(a, p)]) @ vs @ ys)" using ok by simp
  have ep: "\<forall>p \<in> set (monitors vs). \<forall>i. \<not> epipe i (fd p)"
    using Cons.prems(2) v by auto
  have go: "int i < monitorcount s" using Cons.prems(3) by simp
  show ?case
  proof (cases "has_flag p FLAG_MONITOR")
    case True
    let ?s = "emit (ToClient (fd p) line) s"
    have "next_node ?s (Some a) = Inr (head_addr (vs @ ys))"
      using ok by (intro next_node_kept [of _ us a p]) simp
    moreover have "clients_ok ?s ((us @ [(a, p)]) @ vs @ ys)" using ok' by simp
    moreover have "int (i + 1 + length (monitors vs)) < monitorcount ?s"
      using Cons.prems(3) True v by simp
    note Cons.IH [OF calculation(2) ep this]
    moreover have "\<not> epipe i (fd p)" using True Cons.prems(2) v by simp
    ultimately show ?thesis using True go v
      by (simp add: clients_ok_deref [OF ok] Let_def) (simp add: emit_def)
  next
    case False
    then have "int (i + length (monitors vs)) < monitorcount s" using Cons.prems(3) v by simp
    with Cons.IH [OF ok' ep this] False go v show ?thesis
      by (simp add: clients_ok_deref [OF ok] next_node_kept [OF ok])
  qed
qed simp

lemma fifo_server_result:
  assumes ok: "clients_ok s xs" and mon: "monitors xs \<noteq> []"
    and ep: "\<forall>(line, epipe) \<in> set cs. \<forall>i f. \<not> epipe i f"
  shows "fifo_server cs s = Inr (s\<lparr>out := out s @
    concat (map (\<lambda>(line, epipe). map (\<lambda>p. ToClient (fd p) line) (monitors xs)) cs)\<rparr>)"
proof -
  have mc: "monitorcount s = int (length (monitors xs))" using ok by (simp add: clients_ok_def)
  have "xs \<noteq> []" using mon by auto
  then have "full (ps s) \<noteq> {}" using ok by (auto simp: clients_ok_def)
  then have "fullcount (ps s) \<noteq> 0"
    using ok fds_ok_finite [of "ps s"] by (auto simp: clients_ok_def fds_ok_def)
  moreover have "fifo_loop cs t = Inr (t\<lparr>out := out t @
      concat (map (\<lambda>(line, epipe). map (\<lambda>p. ToClient (fd p) line) (monitors xs)) cs)\<rparr>)"
    if "clients_ok t xs" for t
    using ep that
  proof (induction cs arbitrary: t)
    case (Cons c cs)
    obtain line epipe where c: "c = (line, epipe)" by force
    have len: "length xs < BFUEL" using clients_ok_length [OF ok] by (simp add: BFUEL_def)
    have "pq t = head_addr xs" using Cons.prems cq.first_rep by blast
    with bcast_delivers [of t "[]" xs BFUEL epipe line 0] Cons.prems len c
    have "bcast BFUEL epipe line (pq t) 0 t =
        Inr (t\<lparr>out := out t @ map (\<lambda>p. ToClient (fd p) line) (monitors xs)\<rparr>)"
      by (simp add: clients_ok_def)
    moreover have "monitorcount t \<noteq> 0" using Cons.prems mon by (simp add: clients_ok_def)
    moreover have "clients_ok (t\<lparr>out := out t @ map (\<lambda>p. ToClient (fd p) line) (monitors xs)\<rparr>) xs"
      using Cons.prems by (simp add: clients_ok_def)
    ultimately show ?case using Cons c by simp
  qed simp
  ultimately show ?thesis using ok mon mc by (simp add: fifo_server_def)
qed

text \<open>C6: without a broken connection, every chunk read from the monitor FIFO is written to
  every client that monitors, exactly once, in queue order, one chunk after the other, and
  nothing else of the server's state changes.\<close>

theorem fifo_server_delivers:
  assumes ok: "clients_ok s xs" and mon: "monitors xs \<noteq> []"
    and ep: "\<forall>(line, epipe) \<in> set cs. \<forall>i f. \<not> epipe i f"
  shows "fifo_server cs s = Inr (s\<lparr>out := out s @
    concat (map (\<lambda>(line, epipe). map (\<lambda>p. ToClient (fd p) line) (monitors xs)) cs)\<rparr>)"
  using assms by (rule fifo_server_result)

lemma fifo_server_delivers_witness:
  "fifo_server [(''STATE'', \<lambda>i f. False)] ex_server =
   Inr (ex_server\<lparr>out := [ToClient 5 ''STATE'', ToClient 6 ''STATE'', ToClient 7 ''STATE'']\<rparr>)"
  using fifo_server_delivers [OF ex_clients_ok, of "[(''STATE'', \<lambda>i f. False)]"]
  by (simp add: ex_server_def)

text \<open>When the write to one client \<open>q\<close> fails with \<open>EPIPE\<close>, \<open>q\<close> is closed, but the walk starts over at the head
  of the queue with its counter already advanced: one write fewer is made than there are monitoring clients
  behind \<open>q\<close>, and these writes begin with the first client.\<close>

lemma bcast_epipe:
  assumes ok: "clients_ok s (us @ (a, q) # ys)" and mon: "has_flag q FLAG_MONITOR"
    and ep: "\<And>i f. epipe i f \<longleftrightarrow> f = fd q"
  shows "\<exists>s'. bcast BFUEL epipe line (pq s) 0 s = Inr s' \<and> clients_ok s' (us @ ys) \<and>
    out s' = out s @ map (\<lambda>p. ToClient (fd p) line) (monitors us) @ [Close (fd q)] @
      map (\<lambda>p. ToClient (fd p) line) (take (length (monitors ys) - 1) (monitors us @ monitors ys))"
proof -
  let ?s = "s\<lparr>out := out s @ map (\<lambda>p. ToClient (fd p) line) (monitors us)\<rparr>"
  define fuel where "fuel = BFUEL - length us - 1"
  have fuel: "BFUEL = length us + Suc fuel" "length (us @ ys) < fuel"
    using clients_ok_length [OF ok] by (simp_all add: fuel_def BFUEL_def)
  have others: "\<forall>p \<in> set (monitors us) \<union> set (monitors ys). fd p \<noteq> fd q"
    using clients_ok_fd_unique [OF ok] by (metis UnE monitors_fd)
  have mc: "monitorcount s = int (length (monitors us) + 1 + length (monitors ys))"
    using ok mon by (simp add: clients_ok_def)
  have "bcast BFUEL epipe line (pq s) 0 s =
      bcast (Suc fuel) epipe line (Some a) (length (monitors us)) ?s"
    using bcast_skips [of s "[]" us "(a, q) # ys" epipe 0 "Suc fuel" line] ok others ep mc fuel(1)
    by (simp add: cq.first_rep del: bcast.simps)
  moreover have ok': "clients_ok ?s (us @ (a, q) # ys)" using ok by (simp add: clients_ok_def)
  moreover obtain s2 where s2: "close_port a ?s = Inr s2" "clients_ok s2 (us @ ys)"
      "out s2 = out ?s @ [Close (fd q)]"
    using close_port_refines [OF ok'] by blast
  moreover have "next_node s2 None = Inr (head_addr (us @ ys))"
    using s2 cq.first_rep by (simp add: next_node_def)
  moreover have "bcast fuel epipe line (head_addr (us @ ys)) (length (monitors us) + 1) s2 =
      Inr (s2\<lparr>out := out s2 @ map (\<lambda>p. ToClient (fd p) line)
        (take (length (monitors ys) - 1) (monitors us @ monitors ys))\<rparr>)"
    using bcast_delivers [of s2 "[]" "us @ ys" fuel epipe line "length (monitors us) + 1"] s2(2) others ep fuel
    by (simp add: clients_ok_def nat_diff_distrib' of_nat_diff)
  ultimately have "bcast BFUEL epipe line (pq s) 0 s =
      Inr (s2\<lparr>out := out s2 @ map (\<lambda>p. ToClient (fd p) line)
        (take (length (monitors ys) - 1) (monitors us @ monitors ys))\<rparr>)"
    using mon ep mc by (simp add: clients_ok_deref [OF ok'])
  then show ?thesis using s2 by (simp add: clients_ok_def)
qed

lemma distinct_monitors: "distinct (map (fd \<circ> snd) xs) \<Longrightarrow> distinct (map fd (monitors xs))"
proof (induction xs)
  case (Cons x xs)
  then show ?case using monitors_fd [of _ xs] by (cases x) auto
qed simp

lemma filter_writes:
  "fd u \<notin> fd ` set qs \<Longrightarrow> filter (\<lambda>ev. ev = ToClient (fd u) line) (map (\<lambda>p. ToClient (fd p) line) qs) = []"
  by (force simp: filter_empty_conv)

text \<open>C29: a broken connection disturbs the other monitoring clients.  When the write to one client \<open>q\<close> fails
  with \<open>EPIPE\<close>, and at least one client in front of \<open>q\<close> and two behind it monitor, the first client gets the
  chunk twice, and the last one does not get it at all.\<close>

theorem bcast_epipe_repeats_and_drops:
  assumes ok: "clients_ok s (us @ (a, q) # ys)" and mon: "has_flag q FLAG_MONITOR"
    and ep: "\<And>i f. epipe i f \<longleftrightarrow> f = fd q"
    and us: "monitors us = u # us'" and ys: "monitors ys = ys' @ [z]" "ys' \<noteq> []"
  shows "\<exists>s' evs. bcast BFUEL epipe line (pq s) 0 s = Inr s' \<and> clients_ok s' (us @ ys) \<and> out s' = out s @ evs \<and>
    evs = map (\<lambda>p. ToClient (fd p) line) (u # us') @ [Close (fd q)] @
      map (\<lambda>p. ToClient (fd p) line) (take (length ys') (u # us' @ ys')) \<and>
    length (filter (\<lambda>ev. ev = ToClient (fd u) line) evs) = 2 \<and> ToClient (fd z) line \<notin> set evs"
proof -
  let ?w = "map (\<lambda>p. ToClient (fd p) line)"
  let ?evs = "?w (u # us') @ [Close (fd q)] @ ?w (take (length ys') (u # us' @ ys'))"
  have "take (length (monitors ys) - 1) (monitors us @ monitors ys) = take (length ys') (u # us' @ ys')"
    using us ys by (simp add: take_Cons')
  with bcast_epipe [where epipe = epipe and line = line, OF ok mon ep] us obtain s' where
    s': "bcast BFUEL epipe line (pq s) 0 s = Inr s'" "clients_ok s' (us @ ys)" "out s' = out s @ ?evs" by auto
  have "distinct (map fd (monitors (us @ ys)))" using s'(2) by (intro distinct_monitors) (simp add: clients_ok_def)
  then have d: "fd u \<notin> fd ` set (us' @ ys')" "fd z \<notin> fd ` set (u # us' @ ys')" using us ys by auto
  obtain k where k: "length ys' = Suc k" using ys(2) by (cases ys') auto
  have "fd u \<notin> fd ` set (take k (us' @ ys'))" using d(1) in_set_takeD [of _ k "us' @ ys'"] by blast
  then have "filter (\<lambda>ev. ev = ToClient (fd u) line) ?evs = [ToClient (fd u) line, ToClient (fd u) line]"
    using d(1) filter_writes [of u us' line] filter_writes [of u "take k (us' @ ys')" line]
    by (simp add: k image_Un del: take_append)
  moreover have "ToClient (fd z) line \<notin> set ?evs" using d(2) by (auto simp: image_iff dest!: in_set_takeD)
  ultimately show ?thesis using s' by (intro exI [of _ s'] exI [of _ ?evs]) simp
qed

text \<open>Four clients monitor, and the connection to the second is broken.\<close>

definition ex_four :: "(addr \<times> port_t) list" where
  "ex_four = [(1, ex_port 5 7 (Some ''gavin'')), (2, ex_port 6 5 (Some ''guest'')), (3, ex_port 7 5 None), (4, ex_port 9 5 None)]"

definition ex_four_server :: server where
  "ex_four_server = ex_server\<lparr>monitorcount := 4,
     ps := \<lparr>fullcount = 4, full = {5, 6, 7, 9}, maxfd = 9, selcount = 0, sel = {}\<rparr>,
     qheap := [1 \<mapsto> \<lparr>qnext = Some 2, port = ex_port 5 7 (Some ''gavin'')\<rparr>,
               2 \<mapsto> \<lparr>qnext = Some 3, port = ex_port 6 5 (Some ''guest'')\<rparr>,
               3 \<mapsto> \<lparr>qnext = Some 4, port = ex_port 7 5 None\<rparr>,
               4 \<mapsto> \<lparr>qnext = None, port = ex_port 9 5 None\<rparr>]\<rparr>"

lemma ex_four_ok: "clients_ok ex_four_server ex_four"
proof -
  have "queue ex_four_server ex_four" by (simp add: ex_four_server_def ex_four_def) (simp add: ex_server_def)
  moreover have "dom (qheap ex_four_server) = fst ` set ex_four" by (auto simp: ex_four_server_def ex_four_def)
  moreover have "fds_ok (ps ex_four_server)" by (simp add: ex_four_server_def fds_ok_def set_max_def FD_SETSIZE_def)
  ultimately show ?thesis by (simp add: clients_ok_def) (simp add: ex_four_server_def ex_four_def)
qed

lemma bcast_epipe_repeats_and_drops_witness:
  "\<exists>s' evs. bcast BFUEL (\<lambda>i f. f = 6) ''STATE'' (pq ex_four_server) 0 ex_four_server = Inr s' \<and> out s' = evs \<and>
    evs = [ToClient 5 ''STATE'', Close 6, ToClient 5 ''STATE''] \<and>
    length (filter (\<lambda>ev. ev = ToClient 5 ''STATE'') evs) = 2 \<and> ToClient 9 ''STATE'' \<notin> set evs"
proof -
  have "clients_ok ex_four_server ([(1, ex_port 5 7 (Some ''gavin''))] @
      (2, ex_port 6 5 (Some ''guest'')) # [(3, ex_port 7 5 None), (4, ex_port 9 5 None)])"
    using ex_four_ok by (simp add: ex_four_def)
  from bcast_epipe_repeats_and_drops [OF this, where epipe = "\<lambda>i f. f = 6" and u = "ex_port 5 7 (Some ''gavin'')"
      and us' = "[]" and z = "ex_port 9 5 None" and ys' = "[ex_port 7 5 None]" and line = "''STATE''"]
  show ?thesis by (auto simp: ex_four_server_def ex_server_def)
qed

section \<open>A round always ends\<close>

lemma bcast_total:
  assumes "clients_ok s (us @ ys)" and "length ys + length (us @ ys) * length (us @ ys) < fuel"
  shows "\<exists>s' zs. bcast fuel epipe line (head_addr ys) i s = Inr s' \<and> clients_ok s' zs \<and>
    set zs \<subseteq> set (us @ ys) \<and> same_rest s s' \<and> controls (out s') = controls (out s)"
  using assms
proof (induction fuel arbitrary: us ys s i)
  case (Suc fuel)
  show ?case
  proof (cases ys)
    case Nil
    with Suc.prems show ?thesis by auto
  next
    case (Cons y ys')
    obtain a p where y: "y = (a, p)" by force
    have ok: "clients_ok s (us @ (a, p) # ys')" using Suc.prems Cons y by simp
    then have ok': "clients_ok s ((us @ [(a, p)]) @ ys')" by simp
    have fuel: "length ys' + length ((us @ [(a, p)]) @ ys') * length ((us @ [(a, p)]) @ ys') < fuel"
      using Suc.prems(2) Cons by simp
    note d = clients_ok_deref [OF ok]
    consider (stop) "monitorcount s \<le> int i"
      | (skip) "int i < monitorcount s" "\<not> has_flag p FLAG_MONITOR"
      | (sent) "int i < monitorcount s" "has_flag p FLAG_MONITOR" "\<not> epipe i (fd p)"
      | (broken) "int i < monitorcount s" "has_flag p FLAG_MONITOR" "epipe i (fd p)"
      by fastforce
    then show ?thesis
    proof cases
      case stop
      then show ?thesis using Suc.prems(1) Cons y by auto
    next
      case skip
      with Suc.IH [OF ok' fuel, of i] show ?thesis
        using Cons y by (simp add: d next_node_kept [OF ok])
    next
      case sent
      let ?s = "emit (ToClient (fd p) line) s"
      have "clients_ok ?s ((us @ [(a, p)]) @ ys')" using ok' by simp
      from Suc.IH [OF this fuel, of "i + 1"] sent show ?thesis
        using Cons y next_node_kept [of ?s us a p ys'] ok
        by (simp add: d Let_def same_rest_def)
    next
      case broken
      obtain s1 where s1: "close_port a s = Inr s1" "clients_ok s1 ([] @ us @ ys')" "same_rest s s1"
          "out s1 = out s @ [Close (fd p)]"
        using close_port_refines [OF ok] by auto
      have "length (us @ ys') + length ([] @ us @ ys') * length ([] @ us @ ys') < fuel"
        using fuel by simp
      from Suc.IH [OF s1(2) this, of "i + 1"] obtain s' zs where
        "bcast fuel epipe line (head_addr (us @ ys')) (i + 1) s1 = Inr s'" "clients_ok s' zs"
        "set zs \<subseteq> set (us @ ys')" "same_rest s1 s'" "controls (out s') = controls (out s1)"
        by auto
      moreover have "next_node s1 None = Inr (head_addr (us @ ys'))"
        using cq.first_rep [OF s1(2)] by (simp add: next_node_def)
      ultimately show ?thesis using broken s1 Cons y same_rest_trans [OF s1(3)]
        by (auto simp: d)
    qed
  qed
qed simp

lemma fifo_loop_total:
  assumes "clients_ok s xs"
  shows "\<exists>s' zs. fifo_loop cs s = Inr s' \<and> clients_ok s' zs \<and> set zs \<subseteq> set xs \<and> same_rest s s' \<and>
    controls (out s') = controls (out s)"
  using assms
proof (induction cs arbitrary: s xs)
  case (Cons c cs)
  obtain line epipe where c: "c = (line, epipe)" by force
  have "length xs + length xs * length xs < BFUEL"
  proof -
    have "length xs \<le> 1024" by (rule clients_ok_length [OF Cons.prems])
    then have "length xs * length xs \<le> 1024 * 1024" by (rule mult_le_mono) fact
    with \<open>length xs \<le> 1024\<close> show ?thesis by (simp add: BFUEL_def)
  qed
  with bcast_total [of s "[]" xs BFUEL epipe line 0] Cons.prems obtain s1 ys where
    s1: "bcast BFUEL epipe line (pq s) 0 s = Inr s1" "clients_ok s1 ys" "set ys \<subseteq> set xs"
      "same_rest s s1" "controls (out s1) = controls (out s)"
    by (auto simp: cq.first_rep)
  with Cons.IH [OF s1(2)] c show ?case
    by (cases "monitorcount s1 = 0") (fastforce intro: same_rest_trans)+
qed auto

lemma fifo_server_total:
  assumes "clients_ok s xs" and "fifo_ok s"
  shows "\<exists>s' zs. fifo_server cs s = Inr s' \<and> clients_ok s' zs \<and> set zs \<subseteq> set xs \<and> fifo_ok s' \<and>
    aq s' = aq s \<and> pd s' = pd s \<and> controls (out s') = controls (out s)"
proof (cases "fullcount (ps s) = 0 \<or> monitorcount s = 0")
  case True
  with assms monitor_close_ok [OF assms(2,1)] show ?thesis
    by (auto simp: fifo_server_def monitor_close_def)
next
  case False
  obtain s' zs where s': "fifo_loop cs s = Inr s'" "clients_ok s' zs" "set zs \<subseteq> set xs" "same_rest s s'"
      "controls (out s') = controls (out s)"
    using fifo_loop_total [OF assms(1)] by blast
  then have "fifo_ok s'" "aq s' = aq s" "pd s' = pd s"
    using assms(2) by (simp_all add: same_rest_def fifo_ok_def)
  moreover have "fifo_server cs s = Inr s'" using False s'(1) by (simp add: fifo_server_def)
  ultimately show ?thesis using s' by blast
qed

end
