(* ===== verification/Ident.thy ===== *)
theory Ident
  imports C_Prelude
begin

text \<open>
  Taking the user name out of a reply of the identification protocol: \<open>reap_userid\<close> and
  \<open>clean_userid\<close> of \<open>server/port-daemon.c\<close>.  A buffer is given as the string it holds up to
  its NUL; both functions also cut that string at the end of the line, which \<open>cut_line\<close> states.
\<close>

definition cut_line :: "string \<Rightarrow> string" where
  "cut_line s = takeWhile (\<lambda>c. c \<noteq> LF \<and> c \<noteq> CR) s"

definition clean_userid :: "string \<Rightarrow> string" where
  "clean_userid s = dropWhile (\<lambda>c. c = SP) (cut_line s)"

text \<open>One of the three loops of \<open>reap_userid\<close>: past the next colon, if there is one.\<close>

definition after_colon :: "string \<Rightarrow> string" where
  "after_colon s = tl (dropWhile (\<lambda>c. c \<noteq> CHR '':'') s)"

definition reap_userid :: "string \<Rightarrow> string" where
  "reap_userid s = clean_userid (cut_line (after_colon (after_colon (after_colon s))))"

section \<open>What they return\<close>

lemma cut_line_no_eol [simp]: "LF \<notin> set (cut_line s)" "CR \<notin> set (cut_line s)"
  by (auto simp: cut_line_def dest: set_takeWhileD)

lemma cut_line_id [simp]: "LF \<notin> set s \<Longrightarrow> CR \<notin> set s \<Longrightarrow> cut_line s = s"
  unfolding cut_line_def by (rule takeWhile_eq_all_conv [THEN iffD2]) auto

lemma cut_line_eol [simp]:
  "LF \<notin> set s \<Longrightarrow> CR \<notin> set s \<Longrightarrow> cut_line (s @ LF # t) = s"
  "LF \<notin> set s \<Longrightarrow> CR \<notin> set s \<Longrightarrow> cut_line (s @ CR # t) = s"
  unfolding cut_line_def by (subst takeWhile_append2, auto)+

lemma length_clean_userid: "length (clean_userid s) \<le> length s"
  using length_dropWhile_le [of "\<lambda>c. c = SP" "cut_line s"] length_takeWhile_le [of _ s]
  by (simp add: clean_userid_def cut_line_def) (meson order_trans)

lemma clean_userid_no_eol [simp]: "LF \<notin> set (clean_userid s)" "CR \<notin> set (clean_userid s)"
  by (auto simp: clean_userid_def dest!: set_dropWhileD)

lemma after_colon_field [simp]:
  "CHR '':'' \<notin> set s \<Longrightarrow> after_colon (s @ CHR '':'' # t) = t"
  by (induction s) (auto simp: after_colon_def)

lemma after_colon_none [simp]: "CHR '':'' \<notin> set s \<Longrightarrow> after_colon s = []"
  unfolding after_colon_def by (subst dropWhile_eq_Nil_conv [THEN iffD2]) auto

lemma reap_userid_field:
  assumes "CHR '':'' \<notin> set ports" "CHR '':'' \<notin> set kind" "CHR '':'' \<notin> set opsys"
    and "LF \<notin> set user" "CR \<notin> set user" "user = [] \<or> hd user \<noteq> SP"
    and "cut_line rest = replicate n SP @ user"
  shows "reap_userid (ports @ '':'' @ kind @ '':'' @ opsys @ '':'' @ rest) = user"
proof -
  have "dropWhile (\<lambda>c. c = SP) (replicate n SP @ user) = user"
    using assms(6) by (induction n) (auto simp: dropWhile_eq_self_iff)
  then show ?thesis using assms(1-5,7) by (simp add: reap_userid_def clean_userid_def)
qed

text \<open>C25: from a reply \<open>ports : USERID : system : user\<close>, \<open>reap_userid\<close> takes the user name, without
  the blanks in front of it and without the line end and whatever follows it.\<close>

theorem reap_userid_reply:
  assumes "CHR '':'' \<notin> set ports" "CHR '':'' \<notin> set kind" "CHR '':'' \<notin> set opsys"
    and "LF \<notin> set user" "CR \<notin> set user" "user = [] \<or> hd user \<noteq> SP"
    and "eol = LF \<or> eol = CR"
  shows "reap_userid (ports @ '':'' @ kind @ '':'' @ opsys @ '':'' @ replicate n SP @ user @ eol # rest) = user"
proof -
  have "cut_line (replicate n SP @ user @ eol # rest) = replicate n SP @ user"
    using assms(4,5,7) cut_line_eol [of "replicate n SP @ user" rest] by auto
  from reap_userid_field [OF assms(1-6) this] show ?thesis .
qed

lemma reap_userid_reply_witness:
  "reap_userid (''1042, 1313 '' @ '':'' @ '' USERID '' @ '':'' @ '' UNIX '' @ '':'' @ replicate 1 SP @ ''gavin'' @ CR # [LF])
     = ''gavin''"
  by (rule reap_userid_reply) simp_all

lemma reap_userid_error: 
  assumes "CHR '':'' \<notin> set ports" "CHR '':'' \<notin> set kind" "CHR '':'' \<notin> set err"
  shows "reap_userid (ports @ '':'' @ kind @ '':'' @ err) = []"
  using assms by (simp add: reap_userid_def clean_userid_def cut_line_def)

end
