(* ===== verification/PortServer.thy ===== *)
theory PortServer
  imports FifoServer Ident
begin

text \<open>
  Serving the connected clients (\<open>parse_incoming\<close> and \<open>port_server\<close> of
  \<open>server/port-queue.c\<close>).  The lemmas show that a round reads every ready client exactly once,
  in queue order, even when clients are closed on the way, that it keeps the bookkeeping, and
  that only the data of a client with write access reaches the control FIFO.
\<close>

definition set_port :: "addr \<Rightarrow> port_t \<Rightarrow> server \<Rightarrow> server res" where
  "set_port a p s = rbind (deref s a) (\<lambda>n. Inr (s\<lparr>qheap := (qheap s)(a \<mapsto> n\<lparr>port := p\<rparr>)\<rparr>))"

definition no_access_reply :: "string \<Rightarrow> string" where
  "no_access_reply cmd = ''MESSAGE'' @ [LF] @ ''You have no control access: Command '' @ [CHR 0x22] @
     cmd @ [CHR 0x22] @ '' ignored'' @ [LF]"

text \<open>
  \<open>parse_incoming(line, len, a)\<close>: \<open>data\<close> are the \<open>len\<close> bytes read, which are followed by NULs in
  the buffer.  The result is whether the client was closed.
\<close>

definition parse_incoming :: "string \<times> int \<Rightarrow> string \<Rightarrow> addr \<Rightarrow> server \<Rightarrow> (bool \<times> server) res" where
  "parse_incoming mo data a s =
     (let line = cstr data in
      rbind (deref s a) (\<lambda>n.
        let p = port n in
        if strncasecmp line (''monitor off'' @ [CR]) 12 = 0 \<or> strncasecmp line (''monitor'' @ [CR]) 8 = 0 then
          if has_flag p FLAG_MONITOR then
            rbind (set_port a (p\<lparr>flag := flag p AND NOT FLAG_MONITOR\<rparr>) s)
              (\<lambda>s1. Inr (False, s1\<lparr>monitorcount := monitorcount s1 - 1\<rparr>))
          else Inr (False, s)
        else if strncasecmp line ''monitor '' 8 = 0 then
          if \<not> has_flag p FLAG_MONITOR then
            rbind (set_port a (p\<lparr>flag := flag p OR FLAG_MONITOR\<rparr>) s) (\<lambda>s1.
              let s2 = s1\<lparr>monitorcount := monitorcount s1 + 1\<rparr>
              in if fullcount (fs s2) = 0 then rbind (monitor_open mo s2) (\<lambda>s3. Inr (False, s3))
                 else Inr (False, s2))
          else Inr (False, s)
        else if strncasecmp line ''close'' 5 = 0 then
          rbind (close_port a s) (\<lambda>s1. Inr (True, s1))
        else if has_flag p FLAG_WRITE then Inr (False, emit (ToControl data) s)
        else rbind (fits 1024 (no_access_reply (clean_userid line)))
               (\<lambda>outline. Inr (False, emit (ToClient (fd p) outline) s))))"

text \<open>
  What the outside does in a round: for each descriptor, the 1 to 1000 bytes \<open>read\<close> returns (\<open>None\<close> for
  end of file or an error) and the results \<open>monitor_open\<close> would see on behalf of that client.
\<close>

type_synonym client_io = "int \<Rightarrow> string option \<times> (string \<times> int)"

fun serve :: "nat \<Rightarrow> client_io \<Rightarrow> int \<Rightarrow> addr option \<Rightarrow> addr option \<Rightarrow> int \<Rightarrow> server \<Rightarrow> server res" where
  "serve 0 io cnt cur prev i s = Inl Diverges"
| "serve (Suc fuel) io cnt cur prev i s =
     (case cur of None \<Rightarrow> Inr s
      | Some a \<Rightarrow>
          if i < cnt then
            rbind (deref s a) (\<lambda>n.
              let curfd = fd (port n) in
              rbind (if curfd \<in> sel (ps s) then
                       let s1 = emit (Recv curfd) s in
                       (case fst (io curfd) of
                          Some data \<Rightarrow> rbind (parse_incoming (snd (io curfd)) data a s1)
                            (\<lambda>(closed, s2). Inr (if closed then prev else cur, i + 1, s2))
                        | None \<Rightarrow> rbind (close_port a s1) (\<lambda>s2. Inr (prev, i + 1, s2)))
                     else Inr (cur, i, s))
                (\<lambda>(c, i', s'). rbind (next_node s' c) (\<lambda>c'. serve fuel io cnt c' c i' s')))
          else Inr s)"

definition port_server :: "client_io \<Rightarrow> server \<Rightarrow> server res" where
  "port_server io s = serve QFUEL io (selcount (ps s)) (pq s) None 0 s"

section \<open>One client\<close>

text \<open>What never changes about a connected client while it is served.\<close>

definition same_client :: "port_t \<Rightarrow> port_t \<Rightarrow> bool" where
  "same_client p p' \<longleftrightarrow> fd p' = fd p \<and> sa p' = sa p \<and> userid p' = userid p \<and>
     has_flag p' FLAG_READ = has_flag p FLAG_READ \<and> has_flag p' FLAG_WRITE = has_flag p FLAG_WRITE"

lemma same_client_refl [simp]: "same_client p p"
  by (simp add: same_client_def)

lemma same_client_trans: "same_client p q \<Longrightarrow> same_client q r \<Longrightarrow> same_client p r"
  by (simp add: same_client_def)

lemma monitor_flag_off:
  "same_client p (p\<lparr>flag := flag p AND NOT FLAG_MONITOR\<rparr>)"
  "\<not> has_flag (p\<lparr>flag := flag p AND NOT FLAG_MONITOR\<rparr>) FLAG_MONITOR"
  unfolding same_client_def has_flag_bits by (simp_all add: bit_simps flag_defs)

lemma monitor_flag_on:
  "same_client p (p\<lparr>flag := flag p OR FLAG_MONITOR\<rparr>)"
  "has_flag (p\<lparr>flag := flag p OR FLAG_MONITOR\<rparr>) FLAG_MONITOR"
  unfolding same_client_def has_flag_bits by (simp_all add: bit_simps flag_defs)

lemma set_port_refines:
  assumes ok: "clients_ok s (us @ (a, p) # ys)" and fd: "fd q = fd p"
  shows "\<exists>s'. set_port a q s = Inr s' \<and> s' = s\<lparr>qheap := qheap s'\<rparr> \<and>
    clients_ok (s'\<lparr>monitorcount := int (length (monitors (us @ (a, q) # ys)))\<rparr>) (us @ (a, q) # ys)"
proof -
  let ?n = "\<lparr>qnext = head_addr ys, port = p\<rparr>"
  have n: "qheap s a = Some ?n" using clients_ok_deref [OF ok] by (simp only: deref_eq_Inr)
  let ?h = "(qheap s)(a \<mapsto> ?n\<lparr>port := q\<rparr>)"
  have "chain qnext port (qheap s) (pq s) (us @ (a, p) # ys)" using ok by (simp add: clients_ok_def)
  from pqn.set_payload [OF this n, of q] have chain: "chain qnext port ?h (pq s) (us @ (a, q) # ys)" .
  have "dom ?h = fst ` set (us @ (a, q) # ys)" using ok by (auto simp: clients_ok_def)
  with chain ok fd have "clients_ok (s\<lparr>qheap := ?h, monitorcount := int (length (monitors (us @ (a, q) # ys)))\<rparr>)
      (us @ (a, q) # ys)"
    by (simp add: clients_ok_def)
  then show ?thesis using n by (simp add: set_port_def)
qed

text \<open>The three tests \<open>parse_incoming\<close> makes on the start of a line.\<close>

definition asks_monitor_off :: "string \<Rightarrow> bool" where
  "asks_monitor_off line \<longleftrightarrow>
     strncasecmp line (''monitor off'' @ [CR]) 12 = 0 \<or> strncasecmp line (''monitor'' @ [CR]) 8 = 0"

definition quoted_back :: "string \<Rightarrow> bool" where
  "quoted_back line \<longleftrightarrow> \<not> asks_monitor_off line \<and> strncasecmp line ''monitor '' 8 \<noteq> 0 \<and>
     strncasecmp line ''close'' 5 \<noteq> 0"

text \<open>
  The outside behaves for a client: a line that is quoted back to a client without write access
  is short enough for the reply buffer, the path of a new monitor FIFO fits its buffer, and
  \<open>open\<close> returns -1 or a descriptor \<open>select\<close> can handle.
\<close>

definition io_safe :: "client_io \<Rightarrow> port_t \<Rightarrow> bool" where
  "io_safe io p \<longleftrightarrow>
     (case fst (io (fd p)) of None \<Rightarrow> True
      | Some data \<Rightarrow> \<not> has_flag p FLAG_WRITE \<and> quoted_back (cstr data) \<longrightarrow>
          length (clean_userid (cstr data)) < 969) \<and>
     length (fst (snd (io (fd p)))) < 255 \<and>
     (snd (snd (io (fd p))) = -1 \<or> 0 \<le> snd (snd (io (fd p))) \<and> snd (snd (io (fd p))) < FD_SETSIZE)"

lemma length_no_access_reply: "length (no_access_reply cmd) = length cmd + 55"
  by (simp add: no_access_reply_def)

text \<open>The parts of the state that serving clients never touches.\<close>

definition served_frame :: "server \<Rightarrow> server \<Rightarrow> bool" where
  "served_frame s s' \<longleftrightarrow> aq s' = aq s \<and> pd s' = pd s \<and> muxedfds s' = muxedfds s \<and>
     controlfd s' = controlfd s \<and> sel (ps s') = sel (ps s) \<and> selcount (ps s') = selcount (ps s)"

lemma served_frame_trans: "served_frame s s' \<Longrightarrow> served_frame s' s'' \<Longrightarrow> served_frame s s''"
  by (simp add: served_frame_def)

lemma same_rest_served: "same_rest s s' \<Longrightarrow> served_frame s s'"
  by (simp add: same_rest_def served_frame_def)

text \<open>
  Bytes the control FIFO may get in a round: what a client with write access sent, or the
  request to monitor a FIFO the server has just made.
\<close>

definition control_ok :: "client_io \<Rightarrow> port_t list \<Rightarrow> string \<Rightarrow> bool" where
  "control_ok io pts b \<longleftrightarrow>
     (\<exists>p \<in> set pts. has_flag p FLAG_WRITE \<and> fst (io (fd p)) = Some b \<or>
        b = ''monitor '' @ fst (snd (io (fd p))) @ [LF])"

text \<open>What serving one client amounts to: it is closed, or it stays, the same client, perhaps
  with another monitor flag.\<close>

definition one_served :: "client_io \<Rightarrow> server \<Rightarrow> (addr \<times> port_t) list \<Rightarrow> addr \<Rightarrow> port_t \<Rightarrow>
    (addr \<times> port_t) list \<Rightarrow> bool \<times> server \<Rightarrow> bool" where
  "one_served io s us a p ys r \<longleftrightarrow>
     (case r of (closed, s') \<Rightarrow>
        fifo_ok s' \<and> served_frame s s' \<and> recvs (out s') = recvs (out s) \<and>
        (\<exists>bs. controls (out s') = controls (out s) @ bs \<and> (\<forall>b \<in> set bs. control_ok io [p] b)) \<and>
        (if closed then clients_ok s' (us @ ys)
         else \<exists>q. same_client p q \<and> clients_ok s' (us @ (a, q) # ys)))"

lemma close_port_served:
  assumes ok: "clients_ok s (us @ (a, p) # ys)" and "fifo_ok s"
  shows "\<exists>s'. close_port a s = Inr s' \<and> one_served io s us a p ys (True, s')"
proof -
  obtain s' where "close_port a s = Inr s'" "clients_ok s' (us @ ys)" "same_rest s s'"
      "out s' = out s @ [Close (fd p)]"
    using close_port_refines [OF ok] by blast
  moreover from this assms have "fifo_ok s'" by (simp add: same_rest_def fifo_ok_def)
  ultimately show ?thesis by (auto simp: one_served_def same_rest_served)
qed

lemma set_flag_served:
  assumes ok: "clients_ok s (us @ (a, p) # ys)" and fifo: "fifo_ok s" and same: "same_client p q"
    and k: "k = int (length (monitors (us @ (a, q) # ys)))"
  shows "\<exists>s'. set_port a q s = Inr s' \<and> monitorcount s' = monitorcount s \<and> fs s' = fs s \<and> monitorfd s' = monitorfd s \<and>
    one_served io s us a p ys (False, s'\<lparr>monitorcount := k\<rparr>) \<and>
    clients_ok (s'\<lparr>monitorcount := k\<rparr>) (us @ (a, q) # ys)"
proof -
  from same have "fd q = fd p" by (simp add: same_client_def)
  from set_port_refines [OF ok this] obtain s' where
    s': "set_port a q s = Inr s'" "s' = s\<lparr>qheap := qheap s'\<rparr>"
      "clients_ok (s'\<lparr>monitorcount := k\<rparr>) (us @ (a, q) # ys)"
    using k by blast
  have eqs: "monitorcount s' = monitorcount s" "fs s' = fs s" "monitorfd s' = monitorfd s" "out s' = out s"
    "served_frame s s'"
    by (subst s'(2), simp add: served_frame_def)+
  then have "one_served io s us a p ys (False, s'\<lparr>monitorcount := k\<rparr>)"
    using s' fifo same by (auto simp: one_served_def fifo_ok_def served_frame_def)
  with s' eqs show ?thesis by blast
qed

text \<open>The outcome of serving a client: as described, or an error that the outside provoked.\<close>

definition served_or_unsafe :: "client_io \<Rightarrow> server \<Rightarrow> (addr \<times> port_t) list \<Rightarrow> addr \<Rightarrow> port_t \<Rightarrow>
    (addr \<times> port_t) list \<Rightarrow> (bool \<times> server) res \<Rightarrow> bool" where
  "served_or_unsafe io s us a p ys r \<longleftrightarrow>
     (case r of Inl _ \<Rightarrow> \<not> io_safe io p | Inr cs \<Rightarrow> one_served io s us a p ys cs)"

lemma served_or_unsafe_Inr [simp]:
  "served_or_unsafe io s us a p ys (Inr r) = one_served io s us a p ys r"
  by (simp add: served_or_unsafe_def)

lemma monitor_open_served:
  assumes ok: "clients_ok s' (us @ (a, q) # ys)" and one: "one_served io s us a p ys (False, s')"
    and same: "same_client p q" and mo: "mo = snd (io (fd p))"
  shows "served_or_unsafe io s us a p ys (rbind (monitor_open mo s') (\<lambda>s''. Inr (False, s'')))"
proof (cases "monitor_open mo s'")
  case (Inl e)
  then have "\<not> is_ok (monitor_open mo s')" by simp
  then have "\<not> io_safe io p" using monitor_open_succeeds [of mo s'] mo by (auto simp: io_safe_def)
  with Inl show ?thesis by (simp add: served_or_unsafe_def)
next
  case (Inr s'')
  have fifo: "fifo_ok s'" using one by (simp add: one_served_def)
  have "controls (out s'') = controls (out s') \<or>
      controls (out s'') = controls (out s') @ [''monitor '' @ fst mo @ [LF]]"
    and "recvs (out s'') = recvs (out s')"
    using Inr by (auto simp: monitor_open_def Let_def split: if_splits)
  moreover have "served_frame s s''"
    using one monitor_open_frame [OF Inr] by (simp add: one_served_def served_frame_def)
  ultimately have "one_served io s us a p ys (False, s'')"
    using one monitor_open_ok [OF Inr fifo ok] same mo
    by (fastforce simp: one_served_def control_ok_def)
  with Inr show ?thesis by simp
qed

lemma keep_served:
  assumes "clients_ok s (us @ (a, p) # ys)" and "fifo_ok s"
  shows "one_served io s us a p ys (False, s)"
  using assms by (auto simp: one_served_def served_frame_def intro: same_client_refl)

text \<open>\<open>parse_incoming\<close>, branch by branch.\<close>

lemma parse_monitor_off:
  assumes ok: "clients_ok s (us @ (a, p) # ys)" and fifo: "fifo_ok s" and off: "asks_monitor_off (cstr data)"
  shows "served_or_unsafe io s us a p ys (parse_incoming mo data a s)"
proof (cases "has_flag p FLAG_MONITOR")
  case True
  let ?q = "p\<lparr>flag := flag p AND NOT FLAG_MONITOR\<rparr>"
  have "monitorcount s - 1 = int (length (monitors (us @ (a, ?q) # ys)))"
    using ok True monitor_flag_off(2) [of p] by (simp add: clients_ok_def)
  from set_flag_served [OF ok fifo monitor_flag_off(1) this, of io] obtain s' where
    "set_port a ?q s = Inr s'" "monitorcount s' = monitorcount s"
    "one_served io s us a p ys (False, s'\<lparr>monitorcount := monitorcount s - 1\<rparr>)"
    by blast
  with off True show ?thesis
    by (auto simp: parse_incoming_def asks_monitor_off_def Let_def clients_ok_deref [OF ok])
next
  case False
  with off keep_served [OF ok fifo] show ?thesis
    by (auto simp: parse_incoming_def asks_monitor_off_def Let_def clients_ok_deref [OF ok])
qed

lemma parse_monitor_on:
  assumes ok: "clients_ok s (us @ (a, p) # ys)" and fifo: "fifo_ok s"
    and on: "\<not> asks_monitor_off (cstr data)" "strncasecmp (cstr data) ''monitor '' 8 = 0"
  shows "served_or_unsafe io s us a p ys (parse_incoming (snd (io (fd p))) data a s)"
proof (cases "has_flag p FLAG_MONITOR")
  case False
  let ?q = "p\<lparr>flag := flag p OR FLAG_MONITOR\<rparr>"
  have "monitorcount s + 1 = int (length (monitors (us @ (a, ?q) # ys)))"
    using ok False monitor_flag_on(2) [of p] by (simp add: clients_ok_def)
  from set_flag_served [OF ok fifo monitor_flag_on(1) this, of io] obtain s' where
    s': "set_port a ?q s = Inr s'" "monitorcount s' = monitorcount s" "fs s' = fs s"
      "one_served io s us a p ys (False, s'\<lparr>monitorcount := monitorcount s + 1\<rparr>)"
      "clients_ok (s'\<lparr>monitorcount := monitorcount s + 1\<rparr>) (us @ (a, ?q) # ys)"
    by blast
  note monitor_open_served [OF s'(5,4) monitor_flag_on(1) refl]
  with on False s' show ?thesis
    by (simp add: parse_incoming_def asks_monitor_off_def Let_def clients_ok_deref [OF ok])
next
  case True
  with on keep_served [OF ok fifo] show ?thesis
    by (simp add: parse_incoming_def asks_monitor_off_def Let_def clients_ok_deref [OF ok])
qed

lemma parse_other:
  assumes ok: "clients_ok s (us @ (a, p) # ys)" and fifo: "fifo_ok s" and data: "fst (io (fd p)) = Some data"
    and other: "\<not> asks_monitor_off (cstr data)" "strncasecmp (cstr data) ''monitor '' 8 \<noteq> 0"
  shows "served_or_unsafe io s us a p ys (parse_incoming mo data a s)"
proof -
  obtain s' where "close_port a s = Inr s'" "one_served io s us a p ys (True, s')"
    using close_port_served [OF ok fifo] by blast
  moreover have "one_served io s us a p ys (False, emit (ToControl data) s)" if "has_flag p FLAG_WRITE"
    using that data ok fifo
    by (auto simp: one_served_def served_frame_def control_ok_def fifo_ok_def intro: same_client_refl)
  moreover have "one_served io s us a p ys (False, emit (ToClient (fd p) m) s)" for m
    using ok fifo by (auto simp: one_served_def served_frame_def fifo_ok_def intro: same_client_refl)
  ultimately show ?thesis using other data
    by (auto simp: parse_incoming_def asks_monitor_off_def quoted_back_def Let_def fits_def io_safe_def
        clients_ok_deref [OF ok] length_no_access_reply served_or_unsafe_def)
qed

lemma parse_incoming_served:
  assumes "clients_ok s (us @ (a, p) # ys)" and "fifo_ok s" and "fst (io (fd p)) = Some data"
  shows "served_or_unsafe io s us a p ys (parse_incoming (snd (io (fd p))) data a s)"
  using parse_monitor_off [OF assms(1,2)] parse_monitor_on [OF assms(1,2)] parse_other [where io = io, OF assms] by blast

section \<open>A round\<close>

definition derived :: "(addr \<times> port_t) list \<Rightarrow> (addr \<times> port_t) list \<Rightarrow> bool" where
  "derived ys zs \<longleftrightarrow> (\<forall>(a, q) \<in> set zs. \<exists>p. (a, p) \<in> set ys \<and> same_client p q)"

definition round_done :: "client_io \<Rightarrow> server \<Rightarrow> (addr \<times> port_t) list \<Rightarrow> (addr \<times> port_t) list \<Rightarrow>
    int list \<Rightarrow> server \<Rightarrow> bool" where
  "round_done io s us ys fds s' \<longleftrightarrow>
     (\<exists>zs. clients_ok s' (us @ zs) \<and> derived ys zs) \<and> fifo_ok s' \<and> served_frame s s' \<and>
     recvs (out s') = recvs (out s) @ fds \<and>
     (\<exists>bs. controls (out s') = controls (out s) @ bs \<and> (\<forall>b \<in> set bs. control_ok io (map snd ys) b))"

lemma round_done_refl: "clients_ok s (us @ ys) \<Longrightarrow> fifo_ok s \<Longrightarrow> round_done io s us ys [] s"
  unfolding round_done_def by (auto simp: derived_def served_frame_def intro: same_client_refl)

text \<open>The first client of the rest is served or passed over, then the rest is.\<close>

lemma round_done_step:
  assumes one: "one_served io s us a p ys (closed, s1)"
    and rest: "round_done io s1 (if closed then us else us @ [(a, q)]) ys fds s'"
    and same: "same_client p q"
  shows "round_done io s us ((a, p) # ys) fds s'"
proof -
  obtain zs where zs: "clients_ok s' ((if closed then us else us @ [(a, q)]) @ zs)" "derived ys zs"
    using rest by (auto simp: round_done_def)
  let ?zs = "if closed then zs else (a, q) # zs"
  have "clients_ok s' (us @ ?zs)" using zs(1) by (simp split: if_splits)
  moreover have "derived ((a, p) # ys) ?zs" using zs(2) same by (auto simp: derived_def)
  moreover obtain bs bs' where "controls (out s1) = controls (out s) @ bs" "\<forall>b \<in> set bs. control_ok io [p] b"
      "controls (out s') = controls (out s1) @ bs'" "\<forall>b \<in> set bs'. control_ok io (map snd ys) b"
    using one rest by (auto simp: one_served_def round_done_def)
  then have "\<exists>bs. controls (out s') = controls (out s) @ bs \<and> (\<forall>b \<in> set bs. control_ok io (map snd ((a, p) # ys)) b)"
    by (intro exI [of _ "bs @ bs'"]) (auto simp: control_ok_def)
  ultimately show ?thesis
    using one rest by (auto simp: round_done_def one_served_def intro: served_frame_trans)
qed

lemma one_served_Recv:
  "one_served io (emit (Recv f) s) us a p ys (closed, s1) \<Longrightarrow>
   fifo_ok s1 \<and> served_frame s s1 \<and> recvs (out s1) = recvs (out s) @ [f]"
  by (auto simp: one_served_def served_frame_def)

text \<open>The step of the loop for a ready client: where the walk stands afterwards.\<close>

definition serve_one :: "client_io \<Rightarrow> addr \<Rightarrow> int \<Rightarrow> server \<Rightarrow> (bool \<times> server) res" where
  "serve_one io a f s =
     (case fst (io f) of Some data \<Rightarrow> parse_incoming (snd (io f)) data a s
      | None \<Rightarrow> rbind (close_port a s) (\<lambda>s'. Inr (True, s')))"

lemma serve_one_served:
  assumes "clients_ok s (us @ (a, p) # ys)" and "fifo_ok s"
  shows "served_or_unsafe io s us a p ys (serve_one io a (fd p) s)"
proof (cases "fst (io (fd p))")
  case None
  with close_port_served [OF assms, of io] show ?thesis by (auto simp: serve_one_def)
next
  case (Some data)
  with parse_incoming_served [where io = io, OF assms Some] show ?thesis by (simp add: serve_one_def)
qed

lemma serve_step:
  assumes ok: "clients_ok s (us @ (a, p) # ys)" and "i < cnt"
  shows "serve (Suc fuel) io cnt (Some a) prev i s =
    (if fd p \<in> sel (ps s) then
       rbind (serve_one io a (fd p) (emit (Recv (fd p)) s)) (\<lambda>(closed, s').
         rbind (next_node s' (if closed then prev else Some a))
           (\<lambda>c. serve fuel io cnt c (if closed then prev else Some a) (i + 1) s'))
     else serve fuel io cnt (head_addr ys) (Some a) i s)"
  using assms(2) next_node_kept [OF ok]
  by (simp add: clients_ok_deref [OF ok] serve_one_def Let_def rbind_assoc split: option.split prod.split
      cong: if_cong) (auto simp: rbind_assoc intro!: arg_cong2 [where f = rbind] split: prod.splits)

definition round_or_unsafe :: "client_io \<Rightarrow> server \<Rightarrow> (addr \<times> port_t) list \<Rightarrow> (addr \<times> port_t) list \<Rightarrow>
    int list \<Rightarrow> server res \<Rightarrow> bool" where
  "round_or_unsafe io s us ys fds r \<longleftrightarrow>
     (case r of Inl _ \<Rightarrow> \<not> (\<forall>p \<in> snd ` set ys. io_safe io p) | Inr s' \<Rightarrow> round_done io s us ys fds s')"

lemma round_or_unsafe_Inr [simp]: "round_or_unsafe io s us ys fds (Inr s') = round_done io s us ys fds s'"
  by (simp add: round_or_unsafe_def)

lemma round_or_unsafe_step:
  assumes "one_served io s us a p ys (closed, s1)" and "same_client p q"
    and "round_or_unsafe io s1 (if closed then us else us @ [(a, q)]) ys fds r"
  shows "round_or_unsafe io s us ((a, p) # ys) fds r"
  using assms round_done_step [of io s us a p ys closed s1 q fds]
  by (auto simp: round_or_unsafe_def split: sum.splits)

lemma round_or_unsafe_Recv:
  "round_or_unsafe io (emit (Recv f) s) us ys fds r = round_or_unsafe io s us ys (f # fds) r"
  by (simp add: round_or_unsafe_def round_done_def served_frame_def split: sum.splits)

lemma serve_refines:
  assumes "clients_ok s (us @ ys)" and "fifo_ok s" and "length ys < fuel"
  shows "round_or_unsafe io s us ys
    (take (nat (cnt - i)) (filter (\<lambda>f. f \<in> sel (ps s)) (map (\<lambda>x. fd (snd x)) ys)))
    (serve fuel io cnt (head_addr ys) (last_addr us) i s)"
  using assms
proof (induction ys arbitrary: us s fuel i)
  case Nil
  then obtain f where "fuel = Suc f" by (cases fuel) auto
  with Nil.prems show ?case using round_done_refl [of s us "[]"] by auto
next
  case (Cons y ys)
  obtain a p where y: "y = (a, p)" by force
  obtain f where fuel: "fuel = Suc f" "length ys < f" using Cons.prems by (cases fuel) auto
  have ok: "clients_ok s (us @ (a, p) # ys)" using Cons.prems y by simp
  have ok': "clients_ok s ((us @ [(a, p)]) @ ys)" using ok by simp
  consider (stop) "\<not> i < cnt" | (pass) "i < cnt" "fd p \<notin> sel (ps s)" | (ready) "i < cnt" "fd p \<in> sel (ps s)"
    by blast
  then show ?case
  proof cases
    case stop
    then show ?thesis using Cons.prems fuel y round_done_refl [of s us "y # ys" io] by auto
  next
    case pass
    note Cons.IH [OF ok' Cons.prems(2) fuel(2), of i]
    with pass fuel y show ?thesis
      by (auto simp: serve_step [OF ok pass(1)] simp del: serve.simps
          intro!: round_or_unsafe_step [OF keep_served [OF ok Cons.prems(2)] same_client_refl])
  next
    case ready
    let ?s = "emit (Recv (fd p)) s"
    have n: "nat (cnt - i) = Suc (nat (cnt - (i + 1)))" using ready by simp
    have oks: "clients_ok ?s (us @ (a, p) # ys)" "fifo_ok ?s" using Cons.prems(2) ok by (simp_all add: fifo_ok_def)
    show ?thesis
    proof (cases "serve_one io a (fd p) ?s")
      case (Inl e)
      with serve_one_served [OF oks, of io] have "\<not> io_safe io p" by (simp add: served_or_unsafe_def)
      with Inl ready fuel y show ?thesis
        by (simp add: serve_step [OF ok ready(1)] round_or_unsafe_def del: serve.simps)
    next
      case (Inr r)
      obtain closed s1 where r: "r = (closed, s1)" by force
      have one: "one_served io ?s us a p ys (closed, s1)"
        using serve_one_served [OF oks, of io] Inr r by simp
      then obtain q where q: "same_client p q" "clients_ok s1 ((if closed then us else us @ [(a, q)]) @ ys)"
        by (cases closed) (auto simp: one_served_def intro: same_client_refl)
      let ?us = "if closed then us else us @ [(a, q)]"
      note fr = one_served_Recv [OF one]
      have "round_or_unsafe io ?s us ((a, p) # ys)
          (take (nat (cnt - (i + 1))) (filter (\<lambda>f. f \<in> sel (ps s)) (map (\<lambda>x. fd (snd x)) ys)))
          (serve f io cnt (head_addr ys) (last_addr ?us) (i + 1) s1)"
        using Cons.IH [OF q(2) _ fuel(2), of "i + 1"] fr
        by (intro round_or_unsafe_step [OF one q(1)]) (simp add: served_frame_def)
      moreover have "serve fuel io cnt (head_addr (y # ys)) (last_addr us) i s =
          serve f io cnt (head_addr ys) (last_addr ?us) (i + 1) s1"
        using next_node_set_back [OF q(2)] Inr r ready fuel y
        by (simp add: serve_step [OF ok ready(1)] del: serve.simps split: if_splits)
      ultimately show ?thesis using ready y n by (simp add: round_or_unsafe_Recv)
    qed
  qed
qed

lemma port_server_refines:
  assumes ok: "clients_ok s xs" "fifo_ok s"
  shows "round_or_unsafe io s [] xs
    (take (nat (selcount (ps s))) (filter (\<lambda>f. f \<in> sel (ps s)) (map (\<lambda>x. fd (snd x)) xs))) (port_server io s)"
proof -
  have "length xs < QFUEL" using clients_ok_length [OF ok(1)] by (simp add: QFUEL_def)
  with serve_refines [of s "[]" xs QFUEL io "selcount (ps s)" 0] ok show ?thesis
    by (simp add: port_server_def cq.first_rep)
qed

lemma port_server_total:
  assumes "clients_ok s xs" "fifo_ok s" and "\<forall>p \<in> snd ` set xs. io_safe io p"
  shows "\<exists>s'. port_server io s = Inr s' \<and> round_done io s [] xs
    (take (nat (selcount (ps s))) (filter (\<lambda>f. f \<in> sel (ps s)) (map (\<lambda>x. fd (snd x)) xs))) s'"
  using port_server_refines [OF assms(1,2), of io] assms(3)
  by (auto simp: round_or_unsafe_def split: sum.splits)

text \<open>C5: a round of \<open>port_server\<close> reads every ready client exactly once, in the order of the
  queue, whether or not clients before it are closed in the same round, and ends with the
  bookkeeping of the queue and of the monitor FIFO intact.\<close>

theorem port_server_reads_ready:
  assumes ok: "clients_ok s xs" "fifo_ok s" and safe: "\<forall>p \<in> snd ` set xs. io_safe io p"
    and sel: "selcount (ps s) = int (card (sel (ps s) \<inter> full (ps s)))"
  shows "\<exists>s' zs. port_server io s = Inr s' \<and>
    recvs (out s') = recvs (out s) @ filter (\<lambda>f. f \<in> sel (ps s)) (map (\<lambda>x. fd (snd x)) xs) \<and>
    clients_ok s' zs \<and> derived xs zs \<and> fifo_ok s'"
proof -
  let ?fds = "filter (\<lambda>f. f \<in> sel (ps s)) (map (\<lambda>x. fd (snd x)) xs)"
  have "set ?fds = sel (ps s) \<inter> full (ps s)" using ok(1) by (auto simp: clients_ok_def)
  moreover have "distinct ?fds" using ok(1) by (simp add: clients_ok_def comp_def)
  ultimately have "length ?fds = card (sel (ps s) \<inter> full (ps s))" by (metis distinct_card)
  with sel have "take (nat (selcount (ps s))) ?fds = ?fds" by simp
  with port_server_total [OF ok safe] show ?thesis by (auto simp: round_done_def)
qed

text \<open>In the example, client 6 is ready and asks for something.\<close>

definition ex_io :: client_io where
  "ex_io f = (Some (''up'' @ [LF]), (''/tmp/g'', 9))"

lemma ex_io_safe: "\<forall>p \<in> snd ` set ex_clients. io_safe ex_io p"
  by (simp add: ex_clients_def io_safe_def ex_io_def FD_SETSIZE_def cstr_def clean_userid_def cut_line_def)

lemma ex_fifo_ok: "fifo_ok ex_server"
  by (simp add: ex_server_def fifo_ok_def fds_ok_def set_max_def FD_SETSIZE_def)

lemma port_server_reads_ready_witness:
  "\<exists>s' zs. port_server ex_io ex_server = Inr s' \<and> recvs (out s') = [6] \<and>
    clients_ok s' zs \<and> derived ex_clients zs \<and> fifo_ok s'"
proof -
  have "selcount (ps ex_server) = int (card (sel (ps ex_server) \<inter> full (ps ex_server)))"
    by (simp add: ex_server_def)
  from port_server_reads_ready [OF ex_clients_ok ex_fifo_ok ex_io_safe this] show ?thesis
    by (simp add: ex_server_def ex_clients_def)
qed

text \<open>In a round of \<open>port_server\<close> the control FIFO only gets the bytes of clients that have
  write access, and the server's own request to monitor a FIFO it has just made.\<close>

lemma port_server_control_access:
  assumes "clients_ok s xs" "fifo_ok s" and "\<forall>p \<in> snd ` set xs. io_safe io p"
  shows "\<exists>s' bs. port_server io s = Inr s' \<and> controls (out s') = controls (out s) @ bs \<and>
    (\<forall>b \<in> set bs. \<exists>p \<in> snd ` set xs. (has_flag p FLAG_WRITE \<and> fst (io (fd p)) = Some b) \<or>
       b = ''monitor '' @ fst (snd (io (fd p))) @ [LF])"
  using port_server_total [OF assms] by (fastforce simp: round_done_def control_ok_def)

lemma port_server_control_access_witness:
  "\<exists>s' bs. port_server ex_io ex_server = Inr s' \<and> controls (out s') = bs \<and>
    list_all (\<lambda>b. list_ex (\<lambda>p. (has_flag p FLAG_WRITE \<and> fst (ex_io (fd p)) = Some b) \<or>
       b = ''monitor '' @ fst (snd (ex_io (fd p))) @ [LF]) (map snd ex_clients)) bs"
  using port_server_control_access [OF ex_clients_ok ex_fifo_ok ex_io_safe]
  by (auto simp: list_all_iff list_ex_iff ex_server_def)

text \<open>C27: a client without write access gets its line quoted back, and the 1024 bytes of the reply
  buffer hold it only while the line has fewer than 969 characters.  Up to 1000 are read, so a
  longer line overflows the buffer.\<close>

theorem parse_incoming_quotes_or_overflows:
  assumes "clients_ok s (us @ (a, p) # ys)" and "\<not> has_flag p FLAG_WRITE" and "quoted_back (cstr data)"
  shows "parse_incoming mo data a s =
    (if length (clean_userid (cstr data)) < 969
     then Inr (False, emit (ToClient (fd p) (no_access_reply (clean_userid (cstr data)))) s)
     else Inl BufferOverflow)"
  using assms
  by (simp add: parse_incoming_def asks_monitor_off_def quoted_back_def Let_def fits_def
      clients_ok_deref length_no_access_reply)

lemma parse_incoming_quotes_or_overflows_witness:
  "parse_incoming (''/tmp/g'', 9) (replicate 1000 (CHR ''x'')) 2 ex_server = Inl BufferOverflow"
proof -
  let ?d = "replicate 1000 (CHR ''x'')"
  have s: "cstr ?d = ?d" "cut_line ?d = ?d" by simp_all
  moreover have "dropWhile (\<lambda>c. c = SP) ?d = ?d" by (rule dropWhile_eq_self_iff [THEN iffD2]) simp
  ultimately have c: "clean_userid (cstr ?d) = ?d" by (simp only: clean_userid_def)
  have "?d = CHR ''x'' # replicate 999 (CHR ''x'')" by (simp flip: replicate_Suc)
  then have "quoted_back ?d"
    by (simp add: quoted_back_def asks_monitor_off_def numeral_eq_Suc to_lower_def)
  then have q: "quoted_back (cstr ?d)" by (simp only: s)
  have "clients_ok ex_server ([(1, ex_port 5 7 (Some ''gavin''))] @
      (2, ex_port 6 5 (Some ''guest'')) # [(3, ex_port 7 5 None)])"
    using ex_clients_ok by (simp add: ex_clients_def)
  from parse_incoming_quotes_or_overflows [OF this _ q, of "(''/tmp/g'', 9)"] show ?thesis
    unfolding c by simp
qed

lemma parse_monitor_request:
  assumes ok: "clients_ok s (us @ (a, p) # ys)" and mon: "\<not> has_flag p FLAG_MONITOR"
    and fs: "fullcount (fs s) \<noteq> 0" and cmp: "cstr l = l" "strncasecmp l (''monitor off'' @ [CR]) 12 \<noteq> 0"
      "strncasecmp l (''monitor'' @ [CR]) 8 \<noteq> 0" "strncasecmp l ''monitor '' 8 = 0"
  shows "\<exists>s' q. parse_incoming mo l a s = Inr (False, s') \<and> clients_ok s' (us @ (a, q) # ys) \<and>
    has_flag q FLAG_MONITOR \<and> fd q = fd p \<and> monitorcount s' = monitorcount s + 1"
proof -
  let ?q = "p\<lparr>flag := flag p OR FLAG_MONITOR\<rparr>"
  have "monitorcount s + 1 = int (length (monitors (us @ (a, ?q) # ys)))"
    using ok mon monitor_flag_on(2) [of p] by (simp add: clients_ok_def)
  moreover have "fd ?q = fd p" by simp
  note set_port_refines [OF ok this]
  ultimately obtain s' where s': "set_port a ?q s = Inr s'" "s' = s\<lparr>qheap := qheap s'\<rparr>"
      "clients_ok (s'\<lparr>monitorcount := monitorcount s + 1\<rparr>) (us @ (a, ?q) # ys)"
    by auto
  have "monitorcount s' = monitorcount s" "fs s' = fs s" by (subst s'(2), simp)+
  with s' fs mon have "parse_incoming mo l a s = Inr (False, s'\<lparr>monitorcount := monitorcount s + 1\<rparr>)"
    unfolding parse_incoming_def cmp(1) using cmp(2-4)
    by (simp only: Let_def clients_ok_deref [OF ok] rbind.simps if_False if_True de_Morgan_disj
        simp_thms port_queue_t.simps) simp
  with s'(3) monitor_flag_on(2) [of p] show ?thesis
    by (intro exI [of _ "s'\<lparr>monitorcount := monitorcount s + 1\<rparr>"] exI [of _ ?q]) simp
qed

text \<open>C28: a request to stop monitoring is only understood with a carriage return at its end.  The
  line \<open>monitor off\<close> ended by a line feed, the way the client program ends its commands, is taken
  as a request to start: a client that does not monitor yet becomes a monitoring client.\<close>

theorem parse_incoming_monitor_off_LF:
  assumes ok: "clients_ok s (us @ (a, p) # ys)" and mon: "\<not> has_flag p FLAG_MONITOR"
    and fs: "fullcount (fs s) \<noteq> 0"
  shows "\<exists>s' q. parse_incoming mo (''monitor off'' @ [LF]) a s = Inr (False, s') \<and>
    clients_ok s' (us @ (a, q) # ys) \<and> has_flag q FLAG_MONITOR \<and> monitorcount s' = monitorcount s + 1"
proof -
  have "cstr (''monitor off'' @ [LF]) = ''monitor off'' @ [LF]"
    "strncasecmp (''monitor off'' @ [LF]) (''monitor off'' @ [CR]) 12 \<noteq> 0"
    "strncasecmp (''monitor off'' @ [LF]) (''monitor'' @ [CR]) 8 \<noteq> 0"
    "strncasecmp (''monitor off'' @ [LF]) ''monitor '' 8 = 0"
    by code_simp+
  from parse_monitor_request [OF ok mon fs this] show ?thesis by blast
qed

text \<open>In the example, client 6 stops monitoring and then asks, in the words of the client program,
  to stop again.\<close>

definition ex_quiet :: server where
  "ex_quiet = ex_server\<lparr>qheap := (qheap ex_server)(2 \<mapsto> \<lparr>qnext = Some 3, port = ex_port 6 1 (Some ''guest'')\<rparr>),
     monitorcount := 2\<rparr>"

lemma ex_quiet_ok:
  "clients_ok ex_quiet ([(1, ex_port 5 7 (Some ''gavin''))] @ (2, ex_port 6 1 (Some ''guest'')) #
     [(3, ex_port 7 5 None)])"
proof -
  let ?xs = "[(1, ex_port 5 7 (Some ''gavin''))] @ (2, ex_port 6 1 (Some ''guest'')) # [(3, ex_port 7 5 None)]"
  have "\<not> has_flag (ex_port 6 1 (Some ''guest'')) FLAG_MONITOR"
    by (simp add: has_flag_def ex_port_def flag_defs)
  then have "clients_ok (ex_server\<lparr>qheap := (qheap ex_server)(2 \<mapsto> \<lparr>qnext = Some 3, port = ex_port 6 1 (Some ''guest'')\<rparr>),
     monitorcount := 2\<rparr>) ?xs"
    using ex_clients_ok
    by (auto simp: clients_ok_def ex_clients_def ex_server_def)
  then show ?thesis by (simp only: ex_quiet_def)
qed

lemma parse_incoming_monitor_off_LF_witness:
  "\<exists>s'. parse_incoming (''/tmp/g'', 9) (''monitor off'' @ [LF]) 2 ex_quiet = Inr (False, s') \<and> monitorcount s' = 3"
proof -
  have "\<not> has_flag (ex_port 6 1 (Some ''guest'')) FLAG_MONITOR" "fullcount (fs ex_quiet) \<noteq> 0"
    "monitorcount ex_quiet = 2"
    by (simp_all add: has_flag_def ex_port_def flag_defs ex_quiet_def ex_server_def)
  with parse_incoming_monitor_off_LF [OF ex_quiet_ok, of "(''/tmp/g'', 9)"] show ?thesis by auto
qed

end
