(* ===== verification/PortDaemon.thy ===== *)
theory PortDaemon
  imports PortServer
begin

text \<open>
  Accepting a client (\<open>port_daemon\<close> of \<open>server/port-daemon.c\<close>): the server asks the client's
  host who is calling (the identification protocol, port 113), looks the answer up in the
  access list, tells the client what it may do and queues it.  The answers of the operating
  system and of the network are parameters; what the model keeps is what the code does with
  them, the fixed buffers included.
\<close>

text \<open>\<open>port_daemon_init\<close>, given the descriptor \<open>socket\<close> returned and whether \<open>bind\<close> succeeded: the
  listening socket is the only one the daemon ever watches.\<close>

definition port_daemon_init :: "int \<Rightarrow> bool \<Rightarrow> thread_fds_t res" where
  "port_daemon_init lfd bound =
     (if \<not> bound then Inl (Exit 1)
      else rbind (FD_SET lfd {}) (\<lambda>S.
        Inr \<lparr>fullcount = 1, full = S, maxfd = lfd, selcount = 0, sel = {}\<rparr>))"

definition ntohs :: "16 word \<Rightarrow> 16 word" where
  "ntohs x = push_bit 8 x OR drop_bit 8 x"

text \<open>
  What the outside returns: the descriptor and address from \<open>accept\<close> (-1 and nothing on failure),
  the descriptor of the second socket, whether \<open>connect\<close> succeeds, the bytes the other host sends
  (none when \<open>read\<close> fails), the uninitialised contents of the 257-byte buffer \<open>line\<close>, and the block
  from \<open>malloc\<close>.
\<close>

record daemon_env =
  acc_fd :: int
  acc_sa :: "sockaddr_in option"
  ident_fd :: int
  ident_up :: bool
  ident_reply :: string
  ident_junk :: "nat \<Rightarrow> char"
  ident_malloc :: "addr option"

definition ident_request :: "sockaddr_in \<Rightarrow> string" where
  "ident_request a = show_nat (unat (ntohs (sin_port a))) @ '', 1313'' @ [LF]"

text \<open>The buffer \<open>line\<close> after the request was printed into it and the reply read over it, up to its NUL.
  \<open>clean_userid\<close> looks at it first, to log it, and cuts it at the end of the line; without a NUL or a line
  end it runs off the end of the buffer.\<close>

definition ident_line :: "daemon_env \<Rightarrow> sockaddr_in \<Rightarrow> string res" where
  "ident_line e a =
     (let req = ident_request a;
          buf = req @ NUL # map (ident_junk e) [length req + 1..<257];
          reply = take 256 (ident_reply e);
          buf' = reply @ drop (length reply) buf
      in if NUL \<in> set buf' \<or> LF \<in> set buf' \<or> CR \<in> set buf' then Inr (cstr buf') else Inl Unterminated)"

definition no_ident_message :: string where
  "no_ident_message = ''MESSAGE'' @ [LF] @ ''Unauthorized Access -- Monitor only (no ident)'' @ [LF]"

definition welcome_msg :: "string \<Rightarrow> in_addr \<Rightarrow> bool \<Rightarrow> string" where
  "welcome_msg user ip full_access = ''MESSAGE'' @ [LF] @ ''User '' @ user @ ''@'' @ inet_ntoa ip @
     '' connected -- '' @ (if full_access then ''Full access'' else ''Monitor access'') @ [LF]"

text \<open>The middle of \<open>port_daemon\<close>: \<open>connect\<close>, the dialogue with the other host, the check, and
  the message to the client.  The socket of a failed \<open>connect\<close> is not closed.\<close>

definition identify :: "daemon_env \<Rightarrow> server \<Rightarrow> server res" where
  "identify e s0 =
     (let p0 = s_in s0 in
      if \<not> ident_up e then
        let p = p0\<lparr>flag := FLAG_READ, userid := None\<rparr>
        in Inr ((emit (ToClient (fd p) no_ident_message) s0)\<lparr>s_in := p\<rparr>)
      else
        let s1 = emit (ToClient (ident_fd e) (ident_request (sa p0))) s0 in
        rbind (ident_line e (sa p0)) (\<lambda>line.
          let s2 = emit (Close (ident_fd e)) s1;
              user = reap_userid (cut_line line);
              p1 = p0\<lparr>userid := Some user\<rparr>
          in rbind (auth_check (aq s2) (Some user) (ucast (sin_addr (sa p1)))) (\<lambda>full_access.
               rbind (fits 257 (welcome_msg user (sin_addr (sa p1)) full_access)) (\<lambda>msg.
                 let p = p1\<lparr>flag := (if full_access then FLAG_READ OR FLAG_WRITE else FLAG_READ)\<rparr>
                 in Inr ((emit (ToClient (fd p) msg) s2)\<lparr>s_in := p\<rparr>)))))"

definition port_daemon :: "daemon_env \<Rightarrow> server \<Rightarrow> server res" where
  "port_daemon e s =
     (let p0 = (s_in s)\<lparr>fd := acc_fd e, sa := (case acc_sa e of None \<Rightarrow> sa (s_in s) | Some a \<Rightarrow> a)\<rparr>;
          s0 = emit (Socket (ident_fd e)) (s\<lparr>s_in := p0\<rparr>)
      in rbind (identify e s0) (\<lambda>s3.
           rbind (port_enqueue (ident_malloc e) (s_in s3) s3)
             (\<lambda>(queued, s4). if queued then Inr s4 else Inr (emit (Close (fd (s_in s4))) s4))))"

section \<open>Who gets which access\<close>

text \<open>The access a client on address \<open>a\<close> is given by the outcome of the identification.\<close>

definition ident_user :: "daemon_env \<Rightarrow> sockaddr_in \<Rightarrow> string option" where
  "ident_user e a =
     (if ident_up e then (case ident_line e a of Inl _ \<Rightarrow> None | Inr line \<Rightarrow> Some (reap_userid (cut_line line)))
      else None)"

definition has_access :: "auth_data_t list \<Rightarrow> port_t \<Rightarrow> bool" where
  "has_access acl p \<longleftrightarrow>
     (case userid p of None \<Rightarrow> False | Some u \<Rightarrow> allowed acl u (ucast (sin_addr (sa p))))"

lemma ident_user_line:
  "ident_user e a = Some u \<Longrightarrow> \<exists>line. ident_line e a = Inr line \<and> reap_userid (cut_line line) = u"
  by (auto simp: ident_user_def split: if_splits sum.splits)

text \<open>What \<open>port_daemon\<close> needs from the outside to come through: a fresh descriptor \<open>select\<close> can
  handle, a fresh block of memory or none, and a reply that leaves a NUL or a line end in the buffer and holds a
  user name of at most 198 characters.\<close>

definition env_ok :: "daemon_env \<Rightarrow> server \<Rightarrow> bool" where
  "env_ok e s \<longleftrightarrow> 0 \<le> acc_fd e \<and> acc_fd e < FD_SETSIZE \<and> acc_fd e \<notin> full (ps s) \<and>
     (case ident_malloc e of None \<Rightarrow> True | Some np \<Rightarrow> np \<notin> dom (qheap s)) \<and>
     (\<exists>a. acc_sa e = Some a \<and> (ident_up e \<longrightarrow>
        (\<exists>line. ident_line e a = Inr line \<and> length (reap_userid (cut_line line)) \<le> 198)))"

lemma flag_values [simp]:
  "flag p = FLAG_READ \<Longrightarrow> \<not> has_flag p FLAG_MONITOR" "flag p = FLAG_READ \<Longrightarrow> \<not> has_flag p FLAG_WRITE"
  "flag p = FLAG_READ OR FLAG_WRITE \<Longrightarrow> \<not> has_flag p FLAG_MONITOR"
  "flag p = FLAG_READ OR FLAG_WRITE \<Longrightarrow> has_flag p FLAG_WRITE"
  unfolding has_flag_bits by (simp_all add: flag_defs bit_simps)

lemma length_welcome_msg: "length (welcome_msg u ip b) \<le> length u + 58"
  using length_inet_ntoa [of ip] by (simp add: welcome_msg_def)

lemma length_no_ident_message: "length no_ident_message = 55"
  by (simp add: no_ident_message_def)

text \<open>The client the daemon is about to queue.\<close>

definition new_client :: "daemon_env \<Rightarrow> server \<Rightarrow> port_t \<Rightarrow> bool" where
  "new_client e s p \<longleftrightarrow> fd p = acc_fd e \<and> acc_sa e = Some (sa p) \<and> userid p = ident_user e (sa p) \<and>
     \<not> has_flag p FLAG_MONITOR \<and> (has_flag p FLAG_WRITE \<longleftrightarrow> has_access (aq s) p)"

text \<open>The two ways in which the identification ends.\<close>

definition no_ident_client :: "port_t \<Rightarrow> port_t" where
  "no_ident_client p = p\<lparr>flag := FLAG_READ, userid := None\<rparr>"

definition ident_client :: "string \<Rightarrow> bool \<Rightarrow> port_t \<Rightarrow> port_t" where
  "ident_client user full_access p =
     p\<lparr>userid := Some user, flag := (if full_access then FLAG_READ OR FLAG_WRITE else FLAG_READ)\<rparr>"

lemma identify_cases:
  assumes "identify e s0 = Inr s3"
  obtains (no_ident) "\<not> ident_up e" "s3 = s0\<lparr>out := out s0 @ [ToClient (fd (s_in s0)) no_ident_message],
      s_in := no_ident_client (s_in s0)\<rparr>"
  | (ident) line msg where "ident_up e" "ident_line e (sa (s_in s0)) = Inr line"
      "s3 = s0\<lparr>out := out s0 @ [ToClient (ident_fd e) (ident_request (sa (s_in s0))), Close (ident_fd e),
          ToClient (fd (s_in s0)) msg],
        s_in := ident_client (reap_userid (cut_line line))
          (allowed (aq s0) (reap_userid (cut_line line)) (ucast (sin_addr (sa (s_in s0))))) (s_in s0)\<rparr>"
proof (cases "ident_up e")
  case False
  then show thesis using assms that(1) by (simp add: identify_def Let_def emit_def no_ident_client_def)
next
  case True
  then obtain line b where line: "ident_line e (sa (s_in s0)) = Inr line"
      "auth_check (aq s0) (Some (reap_userid (cut_line line))) (ucast (sin_addr (sa (s_in s0)))) = Inr b"
    using assms by (auto simp: identify_def Let_def simp del: port_t.simps server.simps)
  then have "b = allowed (aq s0) (reap_userid (cut_line line)) (ucast (sin_addr (sa (s_in s0))))"
    by (blast dest: auth_check_result)
  then have "s3 = s0\<lparr>out := out s0 @ [ToClient (ident_fd e) (ident_request (sa (s_in s0))), Close (ident_fd e),
      ToClient (fd (s_in s0)) (welcome_msg (reap_userid (cut_line line)) (sin_addr (sa (s_in s0))) b)],
    s_in := ident_client (reap_userid (cut_line line)) b (s_in s0)\<rparr>"
    using assms True line by (simp add: identify_def Let_def emit_def ident_client_def)
  with True line \<open>b = _\<close> show thesis using that(2) by blast
qed

lemma identify_frame:
  assumes "identify e s0 = Inr s3"
  shows "s3 = s0\<lparr>out := out s3, s_in := s_in s3\<rparr>" "controls (out s3) = controls (out s0)"
    "fd (s_in s3) = fd (s_in s0)"
  using assms by (cases rule: identify_cases; simp add: no_ident_client_def ident_client_def)+

lemma client_flags:
  "\<not> has_flag (no_ident_client p) FLAG_WRITE" "\<not> has_flag (no_ident_client p) FLAG_MONITOR"
  "has_flag (ident_client u b p) FLAG_WRITE = b" "\<not> has_flag (ident_client u b p) FLAG_MONITOR"
  by (simp_all add: no_ident_client_def ident_client_def)

lemma identify_new_client:
  assumes "identify e s0 = Inr s3" and "fd (s_in s0) = acc_fd e" and "acc_sa e = Some (sa (s_in s0))"
    and "aq s0 = aq s"
  shows "new_client e s (s_in s3)"
  using assms(1)
proof (cases rule: identify_cases)
  case no_ident
  with assms(2,3) client_flags show ?thesis
    by (simp add: new_client_def ident_user_def has_access_def) (simp add: no_ident_client_def)
next
  case (ident line)
  with assms(2-4) client_flags show ?thesis
    by (simp add: new_client_def ident_user_def has_access_def) (simp add: ident_client_def)
qed

lemma identify_total:
  assumes "ident_up e \<Longrightarrow> \<exists>line. ident_line e (sa (s_in s0)) = Inr line \<and> length (reap_userid (cut_line line)) \<le> 198"
  shows "\<exists>s3. identify e s0 = Inr s3"
proof (cases "ident_up e")
  case False
  then show ?thesis by (simp add: identify_def Let_def)
next
  case True
  with assms obtain line where line: "ident_line e (sa (s_in s0)) = Inr line"
    "length (reap_userid (cut_line line)) \<le> 198" by auto
  have "length (welcome_msg (reap_userid (cut_line line)) ip b) < 257" for ip b
    using length_welcome_msg [of "reap_userid (cut_line line)" ip b] line(2) by simp
  with True line show ?thesis by (simp add: identify_def Let_def auth_check_eq)
qed

text \<open>The state in which the identification starts.\<close>

definition accepted :: "daemon_env \<Rightarrow> server \<Rightarrow> server" where
  "accepted e s = emit (Socket (ident_fd e)) (s\<lparr>s_in := (s_in s)\<lparr>fd := acc_fd e,
     sa := (case acc_sa e of None \<Rightarrow> sa (s_in s) | Some a \<Rightarrow> a)\<rparr>\<rparr>)"

lemma accepted_simps [simp]:
  "qheap (accepted e s) = qheap s" "pq (accepted e s) = pq s" "ps (accepted e s) = ps s"
  "monitorcount (accepted e s) = monitorcount s" "aq (accepted e s) = aq s" "fs (accepted e s) = fs s"
  "pd (accepted e s) = pd s" "monitorfd (accepted e s) = monitorfd s" "fd (s_in (accepted e s)) = acc_fd e"
  "out (accepted e s) = out s @ [Socket (ident_fd e)]"
  by (simp_all add: accepted_def)

lemma port_daemon_accepted:
  "port_daemon e s = rbind (identify e (accepted e s)) (\<lambda>s3.
     rbind (port_enqueue (ident_malloc e) (s_in s3) s3)
       (\<lambda>(queued, s4). if queued then Inr s4 else Inr (emit (Close (fd (s_in s4))) s4)))"
  by (simp add: port_daemon_def accepted_def Let_def)

text \<open>What the operating system promises: a descriptor that is not in use, an address with every
  accepted connection, and memory that is not in use.\<close>

definition kernel_ok :: "daemon_env \<Rightarrow> server \<Rightarrow> bool" where
  "kernel_ok e s \<longleftrightarrow> acc_fd e \<notin> full (ps s) \<and> (0 \<le> acc_fd e \<longrightarrow> acc_sa e \<noteq> None) \<and>
     (case ident_malloc e of None \<Rightarrow> True | Some np \<Rightarrow> np \<notin> dom (qheap s))"

lemma env_ok_kernel_ok: "env_ok e s \<Longrightarrow> kernel_ok e s"
  by (auto simp: env_ok_def kernel_ok_def)

lemma port_daemon_result:
  assumes ok: "clients_ok s xs" and ker: "kernel_ok e s" and run: "port_daemon e s = Inr s'"
  shows "\<exists>p. (\<forall>np. ident_malloc e = Some np \<longrightarrow> new_client e s p) \<and>
    clients_ok s' (case ident_malloc e of None \<Rightarrow> xs | Some np \<Rightarrow> (np, p) # xs) \<and>
    aq s' = aq s \<and> fs s' = fs s \<and> pd s' = pd s \<and> monitorfd s' = monitorfd s \<and>
    selcount (ps s') = selcount (ps s) \<and> controls (out s') = controls (out s)"
proof -
  obtain s3 where s3: "identify e (accepted e s) = Inr s3"
    using run by (auto simp: port_daemon_accepted)
  note fr = identify_frame [OF s3]
  have frame: "qheap s3 = qheap s" "pq s3 = pq s" "ps s3 = ps s" "monitorcount s3 = monitorcount s"
    "aq s3 = aq s" "fs s3 = fs s" "pd s3 = pd s" "monitorfd s3 = monitorfd s"
    by (subst fr(1), simp)+
  then have ok3: "clients_ok s3 xs" using ok clients_ok_cong by blast
  show ?thesis
  proof (cases "ident_malloc e")
    case None
    then have "s' = emit (Close (fd (s_in s3))) s3"
      using run s3 by (simp add: port_daemon_accepted port_enqueue_def)
    with None fr frame ok3 show ?thesis by auto
  next
    case (Some np)
    have enq: "port_enqueue (Some np) (s_in s3) s3 = Inr (True, s')"
      using run s3 Some by (auto simp: port_daemon_accepted port_enqueue_def Let_def)
    then have fd: "0 \<le> acc_fd e" "acc_fd e < FD_SETSIZE"
      using fr(3) by (auto simp: port_enqueue_def Let_def)
    with ker obtain a where a: "acc_sa e = Some a" by (auto simp: kernel_ok_def)
    have new: "new_client e s (s_in s3)"
      using identify_new_client [OF s3] a by (simp add: accepted_def)
    have "np \<notin> dom (qheap s3)" "fd (s_in s3) \<notin> full (ps s3)" "\<not> has_flag (s_in s3) FLAG_MONITOR"
      using ker Some new frame by (auto simp: kernel_ok_def new_client_def)
    then obtain s4 where s4: "port_enqueue (Some np) (s_in s3) s3 = Inr (True, s4)"
        "clients_ok s4 ((np, s_in s3) # xs)" "same_rest s3 s4" "out s4 = out s3"
      using port_enqueue_refines [OF ok3, of np "s_in s3"] fd fr(3) by auto
    with enq have "s4 = s'" by simp
    with s4 frame fr new Some show ?thesis by (auto simp: same_rest_def intro!: exI [of _ "s_in s3"])
  qed
qed

lemma port_daemon_total:
  assumes env: "env_ok e s"
  shows "\<exists>s'. port_daemon e s = Inr s'"
proof -
  obtain a where a: "acc_sa e = Some a" using env by (auto simp: env_ok_def)
  then have "sa (s_in (accepted e s)) = a" by (simp add: accepted_def)
  then obtain s3 where s3: "identify e (accepted e s) = Inr s3"
    using identify_total [of e "accepted e s"] env a by (auto simp: env_ok_def)
  moreover have "fd (s_in s3) = acc_fd e" using identify_frame(3) [OF s3] by simp
  ultimately show ?thesis using env
    by (auto simp: port_daemon_accepted port_enqueue_def Let_def env_ok_def FD_SET_def split: option.splits)
qed

text \<open>C10: a client is queued with write access exactly when its host named a user and the access
  list allows that user from the client's address; everybody else is queued as a mere observer.
  Nobody starts out monitoring, and the clients already there are untouched.\<close>

theorem port_daemon_access:
  assumes "clients_ok s xs" and "env_ok e s" and "ident_malloc e = Some np"
  shows "\<exists>s' p. port_daemon e s = Inr s' \<and> clients_ok s' ((np, p) # xs) \<and>
    fd p = acc_fd e \<and> acc_sa e = Some (sa p) \<and> userid p = ident_user e (sa p) \<and>
    (has_flag p FLAG_WRITE \<longleftrightarrow>
       list_ex (\<lambda>u. allowed (aq s) u (ucast (sin_addr (sa p)))) (case ident_user e (sa p) of None \<Rightarrow> [] | Some u \<Rightarrow> [u])) \<and>
    \<not> has_flag p FLAG_MONITOR"
proof -
  obtain s' where s': "port_daemon e s = Inr s'" using port_daemon_total [OF assms(2)] by blast
  from port_daemon_result [OF assms(1) env_ok_kernel_ok [OF assms(2)] s'] assms(3)
  obtain p where "new_client e s p" "clients_ok s' ((np, p) # xs)" by auto
  with s' show ?thesis
    by (auto simp: new_client_def has_access_def list_ex_iff split: option.splits)
qed

text \<open>The example: user \<open>gavin\<close> calls from 127.0.0.1, port 4660.\<close>

definition ex_env :: "string \<Rightarrow> daemon_env" where
  "ex_env u = \<lparr>acc_fd = 9, acc_sa = Some \<lparr>sin_addr = 16777343, sin_port = 4660\<rparr>, ident_fd = 10, ident_up = True,
     ident_reply = ''4660, 1313 : USERID : UNIX : '' @ u @ [CR, LF, NUL], ident_junk = (\<lambda>_. CHR ''?''),
     ident_malloc = Some 4\<rparr>"

lemma ex_env_line:
  assumes "length u \<le> 224" and "NUL \<notin> set u"
  shows "ident_line (ex_env u) a = Inr (''4660, 1313 : USERID : UNIX : '' @ u @ [CR, LF])"
proof -
  let ?l = "''4660, 1313 : USERID : UNIX : '' @ u @ [CR, LF]"
  have "cstr (?l @ NUL # t) = ?l" for t using assms(2) by (intro cstr_append_NUL) simp
  then show ?thesis using assms(1) by (simp add: ident_line_def ex_env_def Let_def)
qed

lemma ex_env_user:
  assumes "length u \<le> 224" and "NUL \<notin> set u" "LF \<notin> set u" "CR \<notin> set u" "CHR '':'' \<notin> set u"
    "u = [] \<or> hd u \<noteq> SP"
  shows "ident_user (ex_env u) a = Some u"
proof -
  have "reap_userid (''4660, 1313 '' @ '':'' @ '' USERID '' @ '':'' @ '' UNIX '' @ '':'' @ replicate 1 SP @ u) = u"
    using reap_userid_field [of "''4660, 1313 ''" "'' USERID ''" "'' UNIX ''" u "replicate 1 SP @ u" 1] assms by simp
  moreover have "cut_line (''4660, 1313 : USERID : UNIX : '' @ u @ [CR, LF]) =
      ''4660, 1313 '' @ '':'' @ '' USERID '' @ '':'' @ '' UNIX '' @ '':'' @ replicate 1 SP @ u"
    using cut_line_eol(2) [of "''4660, 1313 : USERID : UNIX : '' @ u" "[LF]"] assms by simp
  ultimately show ?thesis using ex_env_line [OF assms(1,2)]
    by (simp only: ident_user_def sum.case) (simp add: ex_env_def)
qed

lemma ex_env_ok:
  assumes "length u \<le> 198" "NUL \<notin> set u" "LF \<notin> set u" "CR \<notin> set u" "CHR '':'' \<notin> set u" "u = [] \<or> hd u \<noteq> SP"
  shows "env_ok (ex_env u) ex_server"
proof -
  have "ident_user (ex_env u) a = Some u" for a using assms by (intro ex_env_user) auto
  then have "\<exists>line. ident_line (ex_env u) a = Inr line \<and> length (reap_userid (cut_line line)) \<le> 198" for a
    using assms(1) ident_user_line by blast
  then show ?thesis by (simp add: env_ok_def) (simp add: ex_env_def ex_server_def FD_SETSIZE_def)
qed

lemma port_daemon_access_witness:
  "\<exists>s' p. port_daemon (ex_env ''gavin'') ex_server = Inr s' \<and> clients_ok s' ((4, p) # ex_clients) \<and>
    userid p = Some ''gavin'' \<and> has_flag p FLAG_WRITE"
proof -
  have env: "env_ok (ex_env ''gavin'') ex_server" by (rule ex_env_ok) simp_all
  have u: "ident_user (ex_env ''gavin'') a = Some ''gavin''" for a by (rule ex_env_user) simp_all
  have ex: "ident_malloc (ex_env ''gavin'') = Some 4"
    "acc_sa (ex_env ''gavin'') = Some a \<longleftrightarrow> a = \<lparr>sin_addr = 16777343, sin_port = 4660\<rparr>" for a
    by (auto simp: ex_env_def)
  have acl: "allowed (aq ex_server) ''gavin'' (ucast (16777343 :: in_addr))"
    by (simp add: ex_server_def allowed_def entry_allows_def auth_entry_def)
  obtain s' p where "port_daemon (ex_env ''gavin'') ex_server = Inr s'" "clients_ok s' ((4, p) # ex_clients)"
      "sa p = \<lparr>sin_addr = 16777343, sin_port = 4660\<rparr>" "userid p = Some ''gavin''"
      "has_flag p FLAG_WRITE \<longleftrightarrow> allowed (aq ex_server) ''gavin'' (ucast (sin_addr (sa p)))"
    using port_daemon_access [OF ex_clients_ok env ex(1)] by (auto simp: u ex(2))
  with acl show ?thesis by (intro exI [of _ s'] exI [of _ p]) simp
qed

section \<open>What goes wrong\<close>

text \<open>The socket made to ask the other host is closed only when that host answers: every client
  whose host runs no identification service costs the server a descriptor.\<close>

lemma port_daemon_ident_socket:
  assumes run: "port_daemon e s = Inr s'" and "acc_fd e \<noteq> ident_fd e"
  shows "\<exists>es. out s' = out s @ Socket (ident_fd e) # es \<and> (Close (ident_fd e) \<in> set es \<longleftrightarrow> ident_up e)"
proof -
  obtain s3 where s3: "identify e (accepted e s) = Inr s3" using run by (auto simp: port_daemon_accepted)
  then obtain es where es: "out s3 = out s @ Socket (ident_fd e) # es" "Close (ident_fd e) \<in> set es \<longleftrightarrow> ident_up e"
    by (cases rule: identify_cases) auto
  have "out s' = out s3 @ (if ident_malloc e = None then [Close (acc_fd e)] else [])"
    using run s3 identify_frame(3) [OF s3]
    by (auto simp: port_daemon_accepted port_enqueue_def Let_def split: option.splits)
  with es assms(2) show ?thesis by auto
qed

lemma port_daemon_ident_socket_witness:
  "\<exists>s' es. port_daemon ((ex_env [])\<lparr>ident_up := False\<rparr>) ex_server = Inr s' \<and>
    out s' = Socket 10 # es \<and> Close 10 \<notin> set es"
proof -
  have "env_ok ((ex_env [])\<lparr>ident_up := False\<rparr>) ex_server"
    by (simp add: env_ok_def ex_env_def ex_server_def FD_SETSIZE_def)
  then obtain s' where "port_daemon ((ex_env [])\<lparr>ident_up := False\<rparr>) ex_server = Inr s'"
    using port_daemon_total by blast
  with port_daemon_ident_socket [OF this] show ?thesis by (auto simp: ex_env_def ex_server_def)
qed

text \<open>A user name of 210 or more characters in the reply, of which 256 bytes are read, overflows
  one of the fixed buffers on the way to the message for the client.\<close>

lemma port_daemon_long_user:
  assumes "ident_up e" and "acc_sa e = Some a" and "ident_line e a = Inr line"
    and "210 \<le> length (reap_userid (cut_line line))"
  shows "port_daemon e s = Inl BufferOverflow"
proof -
  let ?u = "reap_userid (cut_line line)"
  let ?ip = "sin_addr (sa (s_in (accepted e s)))"
  have sa: "sa (s_in (accepted e s)) = a" using assms(2) by (simp add: accepted_def)
  have "257 \<le> length (welcome_msg ?u ?ip b)" for b
    using assms(4) length_inet_ntoa_ge [of ?ip] by (simp add: welcome_msg_def)
  moreover have "auth_check (aq s) (Some ?u) i = Inl BufferOverflow \<or> (\<exists>b. auth_check (aq s) (Some ?u) i = Inr b)" for i
    by (auto simp: auth_check_def auth_scan_eq fits_def)
  ultimately have "identify e (accepted e s) = Inl BufferOverflow"
    using assms(1,3) sa by (auto simp: identify_def Let_def rbind_eq_Inl)
  then show ?thesis by (simp add: port_daemon_accepted)
qed

lemma port_daemon_long_user_witness:
  "port_daemon (ex_env (replicate 220 (CHR ''x''))) ex_server = Inl BufferOverflow"
proof -
  let ?e = "ex_env (replicate 220 (CHR ''x''))"
  have sa: "acc_sa ?e = Some \<lparr>sin_addr = 16777343, sin_port = 4660\<rparr>" "ident_up ?e" by (simp_all add: ex_env_def)
  have "ident_user ?e a = Some (replicate 220 (CHR ''x''))" for a by (rule ex_env_user) simp_all
  then obtain line where "ident_line ?e \<lparr>sin_addr = 16777343, sin_port = 4660\<rparr> = Inr line"
      "reap_userid (cut_line line) = replicate 220 (CHR ''x'')"
    using ident_user_line by blast
  then show ?thesis using port_daemon_long_user [OF sa(2,1)] by simp
qed

text \<open>A failed \<open>accept\<close> is only logged.  The descriptor -1 is queued like any other, which writes
  outside the descriptor set.\<close>

lemma port_daemon_accept_failure:
  assumes "acc_fd e < 0" and "ident_malloc e \<noteq> None"
  shows "\<not> is_ok (port_daemon e s)"
proof -
  have "\<not> is_ok (port_enqueue (ident_malloc e) (s_in s3) s3)" if "identify e (accepted e s) = Inr s3" for s3
    using assms identify_frame(3) [OF that] by (auto simp: port_enqueue_def Let_def is_ok_iff)
  then show ?thesis by (auto simp: port_daemon_accepted is_ok_iff)
qed

lemma port_daemon_accept_failure_witness:
  "\<not> is_ok (port_daemon ((ex_env ''gavin'')\<lparr>acc_fd := -1, acc_sa := None\<rparr>) ex_server)"
  by (rule port_daemon_accept_failure) (simp_all add: ex_env_def)

lemma port_daemon_init_ok: "port_daemon_init lfd b = Inr t \<Longrightarrow> fds_ok t \<and> full t = {lfd}"
  by (auto simp: port_daemon_init_def fds_ok_def set_max_def split: if_splits)

end
