(* ===== verification/Scanner.thy ===== *)
theory Scanner
  imports Inet
begin

text \<open>
  What the two scanners of the program share (\<open>server/conffile.l\<close>, \<open>client/monitor.l\<close>): the pattern \<open>IP\<close>
  of a dotted address, and how the longest match of a run of characters ends.
\<close>

text \<open>The longest match of \<open>IP\<close>, with \<open>k\<close> more dots to come, and what follows it: an octet before
  a dot takes all digits there are, at most three; the last one takes at most three.\<close>

fun match_ip :: "nat \<Rightarrow> string \<Rightarrow> (string \<times> string) option" where
  "match_ip 0 s =
     (let ds = take 3 (takeWhile is_digit s) in
      if ds = [] then None else Some (ds, drop (length ds) s))"
| "match_ip (Suc k) s =
     (let ds = takeWhile is_digit s in
      if ds = [] \<or> 3 < length ds then None
      else (case drop (length ds) s of [] \<Rightarrow> None
            | c # s' \<Rightarrow>
                if c = CHR ''.'' then
                  (case match_ip k s' of None \<Rightarrow> None | Some (t, r) \<Rightarrow> Some (ds @ c # t, r))
                else None))"

lemma match_ip_suffix: "match_ip k s = Some (t, r) \<Longrightarrow> t \<noteq> [] \<and> s = t @ r"
proof (induction k arbitrary: s t r)
  case 0
  then have "t = take 3 (takeWhile is_digit s)" "r = drop (length t) s" "t \<noteq> []"
    by (auto simp: Let_def split: if_splits)
  moreover have "s = t @ drop 3 (takeWhile is_digit s) @ dropWhile is_digit s"
    unfolding calculation(1) append_assoc [symmetric] append_take_drop_id takeWhile_dropWhile_id ..
  ultimately show ?case by (metis append_eq_conv_conj)
next
  case (Suc k)
  let ?ds = "takeWhile is_digit s"
  from Suc.prems obtain s' t' where m: "drop (length ?ds) s = CHR ''.'' # s'" "match_ip k s' = Some (t', r)"
      "t = ?ds @ CHR ''.'' # t'"
    by (simp only: match_ip.simps Let_def split: if_split_asm list.split_asm option.split_asm) auto
  have "s = ?ds @ drop (length ?ds) s" by (metis dropWhile_eq_drop takeWhile_dropWhile_id)
  with m Suc.IH [OF m(2)] show ?case by simp
qed

text \<open>Four groups of one to three digits.\<close>

definition digits :: "string \<Rightarrow> bool" where
  "digits d \<longleftrightarrow> d \<noteq> [] \<and> length d \<le> 3 \<and> list_all is_digit d"

fun dotted :: "string list \<Rightarrow> string" where
  "dotted [] = []"
| "dotted [d] = d"
| "dotted (d # ds) = d @ CHR ''.'' # dotted ds"

lemma takeWhile_digits:
  "list_all P d \<Longrightarrow> \<not> P c \<Longrightarrow> takeWhile P (d @ c # r) = d"
  by (induction d) auto

lemma dropWhile_digits: "list_all P d \<Longrightarrow> \<not> P c \<Longrightarrow> dropWhile P (d @ c # r) = c # r"
  by (induction d) auto

lemma match_ip_dotted:
  assumes "length ds = Suc k" and "list_all digits ds" and "\<not> is_digit c"
  shows "match_ip k (dotted ds @ c # r) = Some (dotted ds, c # r)"
  using assms
proof (induction k arbitrary: ds)
  case 0
  then obtain d where "ds = [d]" by (cases ds) auto
  with 0 show ?case by (simp add: takeWhile_digits digits_def)
next
  case (Suc k)
  then obtain d d' es where ds: "ds = d # d' # es" by (cases ds; cases "tl ds") auto
  from Suc.IH [of "d' # es"] Suc.prems ds show ?case
    by (simp add: takeWhile_digits digits_def)
qed

lemma inet_ntoa_dotted:
  "inet_ntoa a = dotted (map (\<lambda>k. show_nat (unat (octet a k))) [0, 1, 2, 3])"
  by (simp add: inet_ntoa_def)

lemma digits_octet: "digits (show_nat (unat (octet a k)))"
proof -
  have "unat (octet a k) < 1000" using octet_less [of a k] by linarith
  then show ?thesis
    by (auto simp: digits_def list_all_iff dest: show_nat_digits intro: length_show_nat_less_1000)
qed

end
