(* ===== verification/ConfFile.thy ===== *)
theory ConfFile
  imports Auth Scanner
begin

text \<open>
  The configuration file: its lexer (\<open>server/conffile.l\<close>), its grammar (\<open>server/conffile.y\<close>) and
  \<open>read_conf\<close> of \<open>server/authenticate.c\<close>.  The lemmas show that a printed configuration is read
  back as the access policy it lists, and what happens to files that are not of that form.
\<close>

datatype conf_token = USERID string | IP string | NEWLINE

section \<open>conffile.l\<close>

text \<open>The class \<open>[a-zA-z]\<close>: from A to the lower-case z, the six characters in between included.\<close>

definition userid_start :: "char \<Rightarrow> bool" where
  "userid_start c = (let n = (of_char c :: nat) in 65 \<le> n \<and> n \<le> 122)"

definition userid_char :: "char \<Rightarrow> bool" where
  "userid_char c \<longleftrightarrow> userid_start c \<or> is_digit c"

text \<open>
  \<open>yylex\<close> over the rest of the file.  A comment needs the end of its line, as its pattern ends in
  \<open>$\<close>.  White space is skipped, and so is a character no pattern matches, which is copied to
  the standard output.
\<close>

function conf_lex :: "string \<Rightarrow> conf_token list" where
  "conf_lex [] = []"
| "conf_lex (c # cs) =
     (if userid_start c then
        USERID (takeWhile userid_char (c # cs)) # conf_lex (dropWhile userid_char cs)
      else if is_digit c then
        (case match_ip 3 (c # cs) of None \<Rightarrow> conf_lex cs | Some (t, r) \<Rightarrow> IP t # conf_lex r)
      else if c = CHR ''#'' then
        (if LF \<in> set cs then conf_lex (dropWhile (\<lambda>x. x \<noteq> LF) cs) else conf_lex cs)
      else if c = LF then NEWLINE # conf_lex cs
      else conf_lex cs)"
  by pat_completeness auto

termination
proof (relation "measure length", goal_cases)
  case (4 c cs _ t r)
  then have "match_ip 3 (c # cs) = Some (t, r)" by simp
  from match_ip_suffix [OF this] have "t \<noteq> []" "length (c # cs) = length t + length r" by auto
  then show ?case by (cases t) auto
qed (auto intro: le_imp_less_Suc length_dropWhile_le)

section \<open>conffile.y\<close>

text \<open>
  The action of \<open>ip\<close>.  The result of \<open>inet_pton\<close> is ignored, so after a failure the address is
  whatever the stack held: \<open>junk\<close>, given the place in the file by the tokens still to come.
\<close>

definition conf_addr :: "(conf_token list \<Rightarrow> in_addr) \<Rightarrow> string \<Rightarrow> conf_token list \<Rightarrow> 64 word" where
  "conf_addr junk t ts = ucast (case inet_pton t of None \<Rightarrow> junk ts | Some a \<Rightarrow> a)"

text \<open>The rules of \<open>newline\<close>, the start symbol, which needs at least one line; \<open>yyerror\<close> ends the
  process.\<close>

fun conf_lines :: "(conf_token list \<Rightarrow> in_addr) \<Rightarrow> bool \<Rightarrow> conf_token list \<Rightarrow> auth_data_t list \<Rightarrow>
    auth_data_t list res" where
  "conf_lines junk some [] aq = (if some then Inr aq else Inl (Exit 1))"
| "conf_lines junk some (NEWLINE # ts) aq = conf_lines junk True ts aq"
| "conf_lines junk some (USERID u # IP i # IP m # NEWLINE # ts) aq =
     rbind (auth_add u (conf_addr junk i (IP m # NEWLINE # ts)) (conf_addr junk m (NEWLINE # ts)) aq)
       (conf_lines junk True ts)"
| "conf_lines junk some _ aq = Inl (Exit 1)"

definition yyparse :: "(conf_token list \<Rightarrow> in_addr) \<Rightarrow> string \<Rightarrow> auth_data_t list \<Rightarrow> auth_data_t list res" where
  "yyparse junk text aq = conf_lines junk False (conf_lex text) aq"

text \<open>\<open>read_conf\<close>; \<open>None\<close> is a file that cannot be opened.\<close>

definition read_conf :: "(conf_token list \<Rightarrow> in_addr) \<Rightarrow> string option \<Rightarrow> auth_data_t list \<Rightarrow> auth_data_t list res" where
  "read_conf junk file aq = (case file of None \<Rightarrow> Inr aq | Some text \<Rightarrow> yyparse junk text aq)"

section \<open>Writing a configuration\<close>

definition conf_line :: "string \<Rightarrow> string \<Rightarrow> string \<Rightarrow> string" where
  "conf_line u i m = u @ SP # i @ SP # m @ [LF]"

definition conf_text :: "(string \<times> in_addr \<times> in_addr) list \<Rightarrow> string" where
  "conf_text cfg = concat (map (\<lambda>(u, i, m). conf_line u (inet_ntoa i) (inet_ntoa m)) cfg)"

definition is_userid :: "string \<Rightarrow> bool" where
  "is_userid u \<longleftrightarrow> u \<noteq> [] \<and> userid_start (hd u) \<and> list_all userid_char u"

lemma start_classes:
  "is_digit c \<Longrightarrow> \<not> userid_start c" "\<not> userid_start LF" "\<not> userid_start SP" "\<not> is_digit LF" "\<not> is_digit SP"
  "\<not> userid_start (CHR ''#'')" "\<not> is_digit (CHR ''#'')"
  by (auto simp: is_digit_def userid_start_def Let_def)

lemma conf_lex_ip:
  assumes "length ds = 4" and "list_all digits ds" and "\<not> is_digit c"
  shows "conf_lex (dotted ds @ c # r) = IP (dotted ds) # conf_lex (c # r)"
proof -
  obtain d es where ds: "ds = d # es" "es \<noteq> []" using assms(1) by (cases ds; cases "tl ds") auto
  then obtain x xs where x: "dotted ds = x # xs" "is_digit x"
    using assms(2) by (cases d; cases es) (auto simp: digits_def)
  have "match_ip 3 (dotted ds @ c # r) = Some (dotted ds, c # r)"
    using assms by (intro match_ip_dotted) simp_all
  with x start_classes show ?thesis by simp
qed

lemma conf_lex_line:
  assumes "is_userid u" and "length is = 4" "list_all digits is" and "length ms = 4" "list_all digits ms"
  shows "conf_lex (conf_line u (dotted is) (dotted ms) @ r) =
    USERID u # IP (dotted is) # IP (dotted ms) # NEWLINE # conf_lex r"
proof -
  obtain x xs where u: "u = x # xs" "userid_start x" "list_all userid_char xs"
    using assms(1) by (cases u) (auto simp: is_userid_def)
  have sp: "\<not> userid_char SP" "userid_char x" using start_classes u by (auto simp: userid_char_def)
  have "conf_lex (u @ SP # t) = USERID u # conf_lex (SP # t)" for t
    using u sp takeWhile_digits [of userid_char xs SP t] dropWhile_digits [of userid_char xs SP t] by simp
  then show ?thesis
    using start_classes by (simp add: conf_line_def conf_lex_ip assms)
qed

lemma conf_lex_text:
  assumes "list_all (\<lambda>(u, i, m). is_userid u) cfg"
  shows "conf_lex (conf_text cfg) =
    concat (map (\<lambda>(u, i, m). [USERID u, IP (inet_ntoa i), IP (inet_ntoa m), NEWLINE]) cfg)"
  using assms
proof (induction cfg)
  case (Cons x cfg)
  obtain u i m where x: "x = (u, i, m)" by (cases x) auto
  let ?o = "\<lambda>a. map (\<lambda>k. show_nat (unat (octet a k))) [0, 1, 2, 3]"
  have "conf_lex (conf_line u (dotted (?o i)) (dotted (?o m)) @ conf_text cfg) =
      USERID u # IP (dotted (?o i)) # IP (dotted (?o m)) # NEWLINE # conf_lex (conf_text cfg)"
    using Cons.prems x by (intro conf_lex_line) (simp_all add: digits_octet)
  with Cons x show ?case by (simp add: conf_text_def inet_ntoa_dotted)
qed (simp add: conf_text_def)

lemma conf_lines_print:
  assumes "list_all (\<lambda>(u, i, m). length u \<le> 211) cfg" and "some \<or> cfg \<noteq> []"
  shows "conf_lines junk some
      (concat (map (\<lambda>(u, i, m). [USERID u, IP (inet_ntoa i), IP (inet_ntoa m), NEWLINE]) cfg)) aq =
    Inr (fold (\<lambda>(u, i, m) aq. auth_entry u i m # aq) (map (\<lambda>(u, i, m). (u, ucast i, ucast m)) cfg) aq)"
  using assms
  by (induction cfg arbitrary: some aq) (auto simp: auth_add_eq conf_addr_def)

lemma read_conf_print:
  assumes "cfg \<noteq> []" and "list_all (\<lambda>(u, i, m). is_userid u \<and> length u \<le> 211) cfg"
  shows "\<exists>acl. read_conf junk (Some (conf_text cfg)) [] = Inr acl \<and>
    (\<forall>v j. allowed acl v j \<longleftrightarrow>
       list_ex (\<lambda>(u, i, m). strcasecmp u v = 0 \<and> j AND ucast m = ucast i AND ucast m) cfg)"
proof -
  let ?cfg = "map (\<lambda>(u, i :: in_addr, m :: in_addr). (u, ucast i :: 64 word, ucast m :: 64 word)) cfg"
  let ?acl = "fold (\<lambda>(u, i, m) aq. auth_entry u i m # aq) ?cfg []"
  have "list_all (\<lambda>(u, i, m). is_userid u) cfg" "list_all (\<lambda>(u, i, m). length u \<le> 211) cfg"
    using assms(2) by (auto simp: list_all_iff)
  with assms(1) have "read_conf junk (Some (conf_text cfg)) [] = Inr ?acl"
    by (simp add: read_conf_def yyparse_def conf_lex_text conf_lines_print)
  moreover have "allowed ?acl v j \<longleftrightarrow>
      list_ex (\<lambda>(u, i, m). strcasecmp u v = 0 \<and> j AND ucast m = ucast i AND ucast m) cfg" for v j
    using acl.check_fold [of ?cfg "[]" v j] acl.check_empty by (fastforce simp: list_ex_iff)
  ultimately show ?thesis by blast
qed

text \<open>C12: reading back a configuration that lists at least one user grants control to exactly the
  users it lists, each from its network, whatever the order of the lines.\<close>

theorem read_conf_policy:
  assumes "cfg \<noteq> []" and "list_all (\<lambda>(u, i, m). is_userid u \<and> length u \<le> 211) cfg"
  shows "\<exists>acl. read_conf junk (Some (conf_text cfg)) [] = Inr acl \<and>
    (\<forall>v j. allowed acl v j \<longleftrightarrow>
       list_ex (\<lambda>(u, i, m). strcasecmp u v = 0 \<and> j AND ucast m = ucast i AND ucast m) cfg)"
  by (rule read_conf_print [OF assms])

lemma read_conf_policy_witness:
  "\<exists>acl. read_conf (\<lambda>_. 0) (Some (''gavin 127.0.0.1 255.255.255.255'' @ [LF])) [] = Inr acl \<and>
    allowed acl ''Gavin'' 16777343 \<and> \<not> allowed acl ''gavin'' 16777344"
proof -
  have "conf_text [(''gavin'', 16777343, 4294967295)] = ''gavin 127.0.0.1 255.255.255.255'' @ [LF]"
    by code_simp
  moreover have "list_all (\<lambda>(u, i, m). is_userid u \<and> length u \<le> 211) [(''gavin'', 16777343 :: in_addr, 4294967295 :: in_addr)]"
    by code_simp
  moreover have "strcasecmp ''gavin'' ''Gavin'' = 0" by code_simp
  ultimately show ?thesis
    using read_conf_policy [of "[(''gavin'', 16777343, 4294967295)]" "\<lambda>_. 0"] by auto
qed

section \<open>Files that are not of that form\<close>

lemma conf_lex_no_newline: "LF \<notin> set inp \<Longrightarrow> NEWLINE \<notin> set (conf_lex inp)"
proof (induction inp rule: conf_lex.induct)
  case (2 c cs)
  have "LF \<notin> set (dropWhile userid_char cs)" using 2 by (auto dest: set_dropWhileD)
  moreover have "NEWLINE \<notin> set (conf_lex r)"
    if "\<not> userid_start c" "is_digit c" "match_ip 3 (c # cs) = Some (t, r)" for t r
    using "2.IH"(3) [OF that(1,2,3) refl] match_ip_suffix [OF that(3)] "2.prems" by auto
  ultimately show ?case
    using "2.IH"(1,2) "2.IH"(4-7) "2.prems" by (cases "match_ip 3 (c # cs)") (auto simp: start_classes)
qed simp

text \<open>A configuration file without any line end, the empty file among them, ends the server.\<close>

lemma read_conf_unterminated:
  assumes "LF \<notin> set text"
  shows "read_conf junk (Some text) aq = Inl (Exit 1)"
proof -
  have "conf_lines junk False ts aq = Inl (Exit 1)" if "NEWLINE \<notin> set ts" for ts
    using that by (induction junk False ts aq rule: conf_lines.induct) auto
  with conf_lex_no_newline [OF assms] show ?thesis by (simp add: read_conf_def yyparse_def)
qed

lemma read_conf_unterminated_witness: "read_conf (\<lambda>_. 0) (Some []) [] = Inl (Exit 1)"
  by (rule read_conf_unterminated) simp

text \<open>An address with an octet above 255 is not refused.  The user is entered with whatever
  address happened to be in memory, and gets control from there.\<close>

lemma read_conf_bad_address:
  assumes "is_userid u" "length u \<le> 211" and "length is = 4" "list_all digits is"
    and "inet_pton (dotted is) = None"
  shows "\<exists>acl. read_conf junk (Some (conf_line u (dotted is) (inet_ntoa m))) [] = Inr acl \<and>
    allowed acl u (ucast (junk [IP (inet_ntoa m), NEWLINE]))"
proof -
  let ?o = "map (\<lambda>k. show_nat (unat (octet m k))) [0, 1, 2, 3]"
  have "conf_lex (conf_line u (dotted is) (dotted ?o) @ []) = USERID u # IP (dotted is) # IP (dotted ?o) # NEWLINE # conf_lex []"
    using assms by (intro conf_lex_line) (simp_all add: digits_octet)
  then have "conf_lex (conf_line u (dotted is) (inet_ntoa m)) = [USERID u, IP (dotted is), IP (inet_ntoa m), NEWLINE]"
    by (simp only: inet_ntoa_dotted append_Nil2 conf_lex.simps)
  with assms show ?thesis
    by (simp add: read_conf_def yyparse_def auth_add_eq conf_addr_def allowed_def entry_allows_def auth_entry_def)
qed

lemma read_conf_bad_address_witness:
  "\<exists>acl. read_conf (\<lambda>_. 16777343) (Some (''gavin 300.0.0.1 255.255.255.255'' @ [LF])) [] = Inr acl \<and>
    allowed acl ''gavin'' 16777343"
proof -
  have "is_userid ''gavin''" by code_simp
  moreover have "list_all digits [''300'', ''0'', ''0'', ''1'']" by code_simp
  moreover have "inet_pton (dotted [''300'', ''0'', ''0'', ''1'']) = None" by code_simp
  moreover have "conf_line ''gavin'' (dotted [''300'', ''0'', ''0'', ''1'']) (inet_ntoa 4294967295) =
      ''gavin 300.0.0.1 255.255.255.255'' @ [LF]" by code_simp
  ultimately show ?thesis
    using read_conf_bad_address [of "''gavin''" "[''300'', ''0'', ''0'', ''1'']" "\<lambda>_. 16777343" 4294967295]
    by simp
qed

end
