(* ===== verification/ServerMain.thy ===== *)
theory ServerMain
  imports PortDaemon ConfFile
begin

text \<open>
  The server as a whole: its start and main loop (\<open>main\<close> of \<open>server/diald-top-server.c\<close>) and the
  reload of the configuration on SIGHUP (\<open>reread_conf\<close> and \<open>reauthenticate_users\<close> of
  \<open>server/authenticate.c\<close>).  A step of the server is a round of the main loop or a reload; the
  signal is taken between two rounds, where the server waits in \<open>select\<close>.  The invariant of the
  reachable states ties the write flag of every client to the access list in force.
\<close>

section \<open>Reloading the configuration\<close>

definition full_message :: string where
  "full_message = ''MESSAGE'' @ [LF] @ ''Server configuration reloaded - full access granted'' @ [LF]"

definition ro_message :: string where
  "ro_message = ''MESSAGE'' @ [LF] @ ''Server configuration reloaded - read-only access granted'' @ [LF]"

fun reauth_loop :: "nat \<Rightarrow> addr option \<Rightarrow> server \<Rightarrow> server res" where
  "reauth_loop 0 cur s = Inl Diverges"
| "reauth_loop (Suc fuel) cur s =
     (case cur of None \<Rightarrow> Inr s
      | Some a \<Rightarrow> rbind (deref s a) (\<lambda>n.
          let p = (port n)\<lparr>flag := flag (port n) AND NOT (FLAG_READ OR FLAG_WRITE)\<rparr> in
          rbind (set_port a p s) (\<lambda>s1.
            rbind (auth_check (aq s1) (userid p) (ucast (sin_addr (sa p)))) (\<lambda>ok.
              let s2 = emit (ToClient (fd p) (if ok then full_message else ro_message)) s1;
                  p' = p\<lparr>flag := flag p OR (if ok then FLAG_READ OR FLAG_WRITE else FLAG_READ)\<rparr>
              in rbind (set_port a p' s2) (\<lambda>s3. reauth_loop fuel (qnext n) s3)))))"

definition reauthenticate_users :: "server \<Rightarrow> server res" where
  "reauthenticate_users s = reauth_loop QFUEL (pq s) s"

definition reread_conf :: "(conf_token list \<Rightarrow> in_addr) \<Rightarrow> string option \<Rightarrow> server \<Rightarrow> server res" where
  "reread_conf junk file s =
     rbind (read_conf junk file []) (\<lambda>acl. reauthenticate_users (s\<lparr>aq := acl\<rparr>))"

section \<open>Starting and running\<close>

text \<open>\<open>fifo_server_init\<close>, given what \<open>open\<close> returned for the control FIFO.\<close>

definition fifo_server_init :: "int \<Rightarrow> server \<Rightarrow> server" where
  "fifo_server_init ctl s = s\<lparr>controlfd := ctl,
     fs := \<lparr>fullcount = 0, full = {}, maxfd = -1, selcount = 0, sel = {}\<rparr>\<rparr>"

text \<open>The global variables before \<open>main\<close> runs.\<close>

definition zero_fds :: thread_fds_t where
  "zero_fds = \<lparr>fullcount = 0, full = {}, maxfd = 0, selcount = 0, sel = {}\<rparr>"

definition globals :: server where
  "globals = \<lparr>qheap = Map.empty, pq = None, aq = [], pd = zero_fds, ps = zero_fds, fs = zero_fds,
     muxedfds = zero_fds, monitorcount = 0, controlfd = -1, monitorfd = -1, monitor = [],
     s_in = \<lparr>fd = 0, sa = \<lparr>sin_addr = 0, sin_port = 0\<rparr>, flag = 0, userid = None\<rparr>, out = []\<rparr>"

text \<open>What the start of the server meets: the listening socket and whether it could be bound, the
  control FIFO, and the configuration file.\<close>

record start_env =
  listen_fd :: int
  listen_bound :: bool
  control_fifo :: int
  conf_junk :: "conf_token list \<Rightarrow> in_addr"
  conf_file :: "string option"

definition server_start :: "start_env \<Rightarrow> server res" where
  "server_start e =
     rbind (port_daemon_init (listen_fd e) (listen_bound e)) (\<lambda>d.
       let s = fifo_server_init (control_fifo e) (globals\<lparr>pd := d, ps := port_server_init\<rparr>)
       in rbind (read_conf (conf_junk e) (conf_file e) (aq s)) (\<lambda>acl. Inr (s\<lparr>aq := acl\<rparr>)))"

text \<open>What a round meets: the system call \<open>select\<close>, the initial value of the counter in
  \<open>demux_fds\<close>, and what the three handlers get from the outside.\<close>

record round_env =
  r_select :: "int \<Rightarrow> int set \<Rightarrow> int \<times> int set"
  r_count0 :: int
  r_daemon :: daemon_env
  r_clients :: client_io
  r_chunks :: "chunk list"

definition select_round :: "round_env \<Rightarrow> server \<Rightarrow> server" where
  "select_round e s =
     (case do_select (r_select e) (r_count0 e) (muxedfds s) (pd s, ps s, fs s) of
        (m, d, p, f) \<Rightarrow> s\<lparr>muxedfds := m, pd := d, ps := p, fs := f\<rparr>)"

definition server_round :: "round_env \<Rightarrow> server \<Rightarrow> server res" where
  "server_round e s =
     (let s1 = select_round e s in
      rbind (if selcount (pd s1) \<noteq> 0 then port_daemon (r_daemon e) s1 else Inr s1) (\<lambda>s2.
        rbind (if selcount (ps s2) \<noteq> 0 then port_server (r_clients e) s2 else Inr s2) (\<lambda>s3.
          if selcount (fs s3) \<noteq> 0 then fifo_server (r_chunks e) s3 else Inr s3)))"

inductive server_step :: "server \<Rightarrow> server \<Rightarrow> bool" where
  round: "kernel_ok (r_daemon e) s \<Longrightarrow> server_round e s = Inr s' \<Longrightarrow> server_step s s'"
| hangup: "reread_conf junk file s = Inr s' \<Longrightarrow> server_step s s'"

inductive reachable :: "server \<Rightarrow> bool" where
  start: "server_start e = Inr s \<Longrightarrow> reachable s"
| step: "reachable s \<Longrightarrow> server_step s s' \<Longrightarrow> reachable s'"

section \<open>A reload\<close>

text \<open>What a reload makes of a client.\<close>

definition reauth_port :: "auth_data_t list \<Rightarrow> port_t \<Rightarrow> port_t" where
  "reauth_port acl p = p\<lparr>flag := (flag p AND NOT (FLAG_READ OR FLAG_WRITE)) OR
     (if has_access acl p then FLAG_READ OR FLAG_WRITE else FLAG_READ)\<rparr>"

lemma reauth_port_same [simp]:
  "fd (reauth_port acl p) = fd p" "sa (reauth_port acl p) = sa p" "userid (reauth_port acl p) = userid p"
  by (simp_all add: reauth_port_def)

lemma has_access_reauth_port [simp]: "has_access acl' (reauth_port acl p) = has_access acl' p"
  unfolding has_access_def by (simp split: option.split)

lemma reauth_port_flags [simp]:
  "has_flag (reauth_port acl p) FLAG_WRITE = has_access acl p" "has_flag (reauth_port acl p) FLAG_READ"
  "has_flag (reauth_port acl p) FLAG_MONITOR = has_flag p FLAG_MONITOR"
  unfolding has_flag_bits reauth_port_def by (simp_all add: bit_simps flag_defs)

lemma cleared_flags:
  "has_flag (p\<lparr>flag := flag p AND NOT (FLAG_READ OR FLAG_WRITE)\<rparr>) FLAG_MONITOR = has_flag p FLAG_MONITOR"
  unfolding has_flag_bits by (simp add: bit_simps flag_defs)

text \<open>A client whose check comes through: it has a user name, and not a long one, or there is
  nothing to compare it with.\<close>

definition auth_safe :: "auth_data_t list \<Rightarrow> port_t \<Rightarrow> bool" where
  "auth_safe acl p \<longleftrightarrow> (case userid p of None \<Rightarrow> acl = [] | Some u \<Rightarrow> length u \<le> 204)"

lemma auth_check_client:
  assumes "auth_check acl (userid p) (ucast (sin_addr (sa p))) = Inr b"
  shows "b = has_access acl p"
  using assms
  by (auto simp: has_access_def auth_check_null dest!: auth_check_result split: option.splits if_splits)

lemma auth_check_unsafe:
  assumes "auth_check acl (userid p) (ucast (sin_addr (sa p))) = Inl e"
  shows "\<not> auth_safe acl p \<and> (userid p = None \<longrightarrow> e = NullDeref)"
  using assms by (auto simp: auth_safe_def auth_check_null auth_check_eq split: option.splits if_splits)

definition reauthed :: "auth_data_t list \<Rightarrow> (addr \<times> port_t) list \<Rightarrow> (addr \<times> port_t) list" where
  "reauthed acl xs = map (\<lambda>(a, p). (a, reauth_port acl p)) xs"

lemma reauthed_simps [simp]:
  "reauthed acl [] = []" "reauthed acl ((a, p) # xs) = (a, reauth_port acl p) # reauthed acl xs"
  by (simp_all add: reauthed_def)

text \<open>Giving a client other access flags, as \<open>set_port\<close> does it.\<close>

lemma set_access_refines:
  assumes ok: "clients_ok s (us @ (a, p) # ys)" and "fd q = fd p"
    and "has_flag q FLAG_MONITOR = has_flag p FLAG_MONITOR"
  shows "\<exists>s'. set_port a q s = Inr s' \<and> s' = s\<lparr>qheap := qheap s'\<rparr> \<and> clients_ok s' (us @ (a, q) # ys)"
proof -
  obtain s' where s': "set_port a q s = Inr s'" "s' = s\<lparr>qheap := qheap s'\<rparr>"
      "clients_ok (s'\<lparr>monitorcount := int (length (monitors (us @ (a, q) # ys)))\<rparr>) (us @ (a, q) # ys)"
    using set_port_refines [OF ok assms(2)] by blast
  have "monitorcount s' = monitorcount s" by (subst s'(2)) simp
  also have "\<dots> = int (length (monitors (us @ (a, q) # ys)))"
    using ok assms(3) by (simp add: clients_ok_def)
  finally have "clients_ok s' (us @ (a, q) # ys)"
    using s'(3) by (metis server.surjective server.update_convs(8))
  with s' show ?thesis by blast
qed

text \<open>The parts of the state a reload never touches.\<close>

definition reload_frame :: "server \<Rightarrow> server \<Rightarrow> bool" where
  "reload_frame s s' \<longleftrightarrow> aq s' = aq s \<and> pd s' = pd s \<and> ps s' = ps s \<and> fs s' = fs s \<and>
     monitorfd s' = monitorfd s \<and> controls (out s') = controls (out s)"

lemma reauth_one:
  assumes ok: "clients_ok s (us @ (a, p) # ys)"
    and chk: "auth_check (aq s) (userid p) (ucast (sin_addr (sa p))) = Inr b"
  shows "\<exists>s'. reauth_loop (Suc fuel) (Some a) s = reauth_loop fuel (head_addr ys) s' \<and>
    clients_ok s' ((us @ [(a, reauth_port (aq s) p)]) @ ys) \<and> reload_frame s s'"
proof -
  let ?p = "p\<lparr>flag := flag p AND NOT (FLAG_READ OR FLAG_WRITE)\<rparr>"
  let ?q = "?p\<lparr>flag := flag ?p OR (if b then FLAG_READ OR FLAG_WRITE else FLAG_READ)\<rparr>"
  have q: "?q = reauth_port (aq s) p" using auth_check_client [OF chk] by (simp add: reauth_port_def)
  obtain s1 where s1: "set_port a ?p s = Inr s1" "s1 = s\<lparr>qheap := qheap s1\<rparr>" "clients_ok s1 (us @ (a, ?p) # ys)"
    using set_access_refines [OF ok, of ?p] cleared_flags by auto
  let ?s = "emit (ToClient (fd p) (if b then full_message else ro_message)) s1"
  have "clients_ok ?s (us @ (a, ?p) # ys)" using s1(3) by simp
  moreover have "fd ?q = fd ?p" by simp
  moreover have "has_flag ?q FLAG_MONITOR = has_flag ?p FLAG_MONITOR"
    unfolding q cleared_flags by simp
  ultimately obtain s2 where s2: "set_port a ?q ?s = Inr s2" "s2 = ?s\<lparr>qheap := qheap s2\<rparr>"
      "clients_ok s2 (us @ (a, ?q) # ys)"
    using set_access_refines [of ?s us a ?p ys ?q] by blast
  have f1: "reload_frame s s1" by (subst s1(2)) (simp add: reload_frame_def)
  moreover have "reload_frame ?s s2" by (subst s2(2)) (simp add: reload_frame_def)
  ultimately have "reload_frame s s2" by (simp add: reload_frame_def)
  moreover have "aq s1 = aq s" using f1 by (simp add: reload_frame_def)
  then have "reauth_loop (Suc fuel) (Some a) s = reauth_loop fuel (head_addr ys) s2"
    using chk s1(1) s2(1) by (simp add: clients_ok_deref [OF ok] Let_def)
  ultimately show ?thesis using s2(3) unfolding q by (intro exI [of _ s2]) simp
qed

lemma reauth_loop_refines:
  assumes "clients_ok s (us @ ys)" and "length ys < fuel"
  shows "case reauth_loop fuel (head_addr ys) s of
      Inl e \<Rightarrow> \<exists>p \<in> snd ` set ys. \<not> auth_safe (aq s) p \<and> (userid p = None \<longrightarrow> e = NullDeref)
    | Inr s' \<Rightarrow> clients_ok s' (us @ reauthed (aq s) ys) \<and> reload_frame s s' \<and>
        (\<forall>p \<in> snd ` set ys. userid p = None \<longrightarrow> aq s = [])"
  using assms
proof (induction ys arbitrary: us s fuel)
  case Nil
  then obtain f where "fuel = Suc f" by (cases fuel) auto
  with Nil show ?case by (simp add: reload_frame_def)
next
  case (Cons y ys)
  obtain a p where y: "y = (a, p)" by force
  obtain f where fuel: "fuel = Suc f" "length ys < f" using Cons.prems by (cases fuel) auto
  have ok: "clients_ok s (us @ (a, p) # ys)" using Cons.prems y by simp
  show ?case
  proof (cases "auth_check (aq s) (userid p) (ucast (sin_addr (sa p)))")
    case (Inl e)
    let ?p = "p\<lparr>flag := flag p AND NOT (FLAG_READ OR FLAG_WRITE)\<rparr>"
    obtain s1 where s1: "set_port a ?p s = Inr s1" "s1 = s\<lparr>qheap := qheap s1\<rparr>"
      using set_access_refines [OF ok, of ?p] cleared_flags by auto
    have "aq s1 = aq s" by (subst s1(2)) simp
    with Inl s1(1) fuel y have "reauth_loop fuel (head_addr (y # ys)) s = Inl e"
      by (simp add: clients_ok_deref [OF ok] Let_def)
    with auth_check_unsafe [OF Inl] y show ?thesis by simp
  next
    case (Inr b)
    from reauth_one [OF ok Inr, of f] obtain s1 where
      s1: "reauth_loop (Suc f) (Some a) s = reauth_loop f (head_addr ys) s1"
        "clients_ok s1 ((us @ [(a, reauth_port (aq s) p)]) @ ys)" "reload_frame s s1"
      by blast
    then have "aq s1 = aq s" by (simp add: reload_frame_def)
    moreover have "userid p = None \<longrightarrow> aq s = []" using Inr by (auto simp: auth_check_null split: if_splits)
    ultimately show ?thesis using Cons.IH [OF s1(2) fuel(2)] s1(1,3) fuel(1) y
      by (auto simp: reload_frame_def simp del: reauth_loop.simps split: sum.splits)
  qed
qed

lemma reauthenticate_users_refines:
  assumes ok: "clients_ok s xs"
  shows "case reauthenticate_users s of
      Inl e \<Rightarrow> \<exists>p \<in> snd ` set xs. \<not> auth_safe (aq s) p \<and> (userid p = None \<longrightarrow> e = NullDeref)
    | Inr s' \<Rightarrow> clients_ok s' (reauthed (aq s) xs) \<and> reload_frame s s' \<and>
        (\<forall>p \<in> snd ` set xs. userid p = None \<longrightarrow> aq s = [])"
proof -
  have "length xs < QFUEL" using clients_ok_length [OF ok] by (simp add: QFUEL_def)
  with reauth_loop_refines [of s "[]" xs QFUEL] ok show ?thesis
    by (simp add: reauthenticate_users_def cq.first_rep split: sum.splits)
qed

lemma reauthenticate_users_error:
  assumes "clients_ok s xs" and "reauthenticate_users s = Inl e"
  shows "\<exists>p \<in> snd ` set xs. \<not> auth_safe (aq s) p \<and> (userid p = None \<longrightarrow> e = NullDeref)"
  using reauthenticate_users_refines [OF assms(1)] unfolding assms(2) sum.case .

section \<open>The invariant\<close>

text \<open>The bookkeeping of the queue and of the descriptor sets, and: a client has the write flag
  exactly when the access list in force gives its user control from its address.\<close>

definition server_ok :: "server \<Rightarrow> (addr \<times> port_t) list \<Rightarrow> bool" where
  "server_ok s xs \<longleftrightarrow> clients_ok s xs \<and> fifo_ok s \<and> fds_ok (pd s) \<and>
     (\<forall>p \<in> snd ` set xs. has_flag p FLAG_WRITE \<longleftrightarrow> has_access (aq s) p)"

lemma server_ok_access:
  "server_ok s xs \<Longrightarrow> \<forall>p \<in> snd ` set xs. has_flag p FLAG_WRITE \<longleftrightarrow> has_access (aq s) p"
  unfolding server_ok_def by blast

text \<open>The clients connected, as the nodes in memory.\<close>

definition connected :: "server \<Rightarrow> port_t set" where
  "connected s = port ` ran (qheap s)"

lemma clients_ok_connected:
  assumes "clients_ok s xs"
  shows "connected s = snd ` set xs"
proof -
  have q: "queue s xs" and d: "dom (qheap s) = fst ` set xs" using assms by (simp_all add: clients_ok_def)
  show ?thesis
  proof (intro subset_antisym subsetI)
    fix p assume "p \<in> connected s"
    then obtain a n where n: "qheap s a = Some n" "port n = p" by (auto simp: connected_def ran_def)
    then have "a \<in> dom (qheap s)" by blast
    with d obtain v where "(a, v) \<in> set xs" by auto
    with chain_lookup [OF q this] n show "p \<in> snd ` set xs" by force
  next
    fix p assume "p \<in> snd ` set xs"
    with chain_lookup [OF q] show "p \<in> connected s" by (fastforce simp: connected_def ran_def)
  qed
qed

lemma select_round_frame [simp]:
  "aq (select_round e s) = aq s" "qheap (select_round e s) = qheap s" "pq (select_round e s) = pq s"
  "monitorcount (select_round e s) = monitorcount s" "monitorfd (select_round e s) = monitorfd s"
  "out (select_round e s) = out s"
  by (simp_all add: select_round_def split: prod.split)

lemma select_round_watch:
  "same_watch (pd s) (pd (select_round e s))" "same_watch (ps s) (ps (select_round e s))"
  "same_watch (fs s) (fs (select_round e s))"
  unfolding select_round_def by (auto split: prod.split dest: do_select_same_watch)

lemma select_round_ok:
  assumes "server_ok s xs"
  shows "server_ok (select_round e s) xs"
proof -
  note w = select_round_watch [of s e]
  have "full (ps (select_round e s)) = full (ps s)" "full (fs (select_round e s)) = full (fs s)"
    using w by (simp_all add: same_watch_def)
  with assms w show ?thesis
    by (simp add: server_ok_def clients_ok_def fifo_ok_def fds_ok_same_watch)
qed

lemma select_round_kernel_ok: "kernel_ok e (select_round r s) = kernel_ok e s"
  using select_round_watch(2) [of s r] by (simp add: kernel_ok_def same_watch_def split: option.split)

lemma server_start_ok:
  assumes "server_start e = Inr s"
  shows "server_ok s []"
proof -
  obtain d where d: "port_daemon_init (listen_fd e) (listen_bound e) = Inr d"
    using assms by (auto simp: server_start_def)
  have "fds_ok \<lparr>fullcount = 0, full = {}, maxfd = -1, selcount = 0, sel = {}\<rparr>"
    using fds_ok_init by (simp add: port_server_init_def)
  with assms d port_daemon_init_ok [OF d] show ?thesis
    by (auto simp: server_start_def server_ok_def clients_ok_def fifo_ok_def globals_def
        fifo_server_init_def Let_def) (simp add: port_server_init_def)
qed

lemma port_daemon_server_ok:
  assumes ok: "server_ok s xs" and ker: "kernel_ok e s" and run: "port_daemon e s = Inr s'"
  shows "\<exists>zs. server_ok s' zs \<and> aq s' = aq s \<and> controls (out s') = controls (out s) \<and>
    (\<forall>p \<in> snd ` set zs. p \<in> snd ` set xs \<or> new_client e s p)"
proof -
  have "clients_ok s xs" using ok by (simp add: server_ok_def)
  from port_daemon_result [OF this ker run] obtain p where
    p: "\<forall>np. ident_malloc e = Some np \<longrightarrow> new_client e s p"
      "clients_ok s' (case ident_malloc e of None \<Rightarrow> xs | Some np \<Rightarrow> (np, p) # xs)"
      "aq s' = aq s" "fs s' = fs s" "pd s' = pd s" "monitorfd s' = monitorfd s"
      "controls (out s') = controls (out s)"
    by blast
  have "fifo_ok s'" using ok p by (simp add: server_ok_def fifo_ok_def)
  moreover define zs where "zs = (case ident_malloc e of None \<Rightarrow> xs | Some np \<Rightarrow> (np, p) # xs)"
  moreover have new: "\<forall>q \<in> snd ` set zs. q \<in> snd ` set xs \<or> new_client e s q"
    using p(1) by (auto simp: zs_def split: option.splits)
  moreover have "\<forall>q \<in> snd ` set zs. has_flag q FLAG_WRITE \<longleftrightarrow> has_access (aq s) q"
    using new server_ok_access [OF ok] unfolding new_client_def by blast
  ultimately have "server_ok s' zs" using p ok by (simp add: server_ok_def)
  with new p show ?thesis by blast
qed

lemma derived_access:
  assumes "derived xs zs" and "\<forall>p \<in> snd ` set xs. has_flag p FLAG_WRITE \<longleftrightarrow> has_access acl p"
  shows "\<forall>p \<in> snd ` set zs. has_flag p FLAG_WRITE \<longleftrightarrow> has_access acl p"
proof
  fix q assume "q \<in> snd ` set zs"
  with assms(1) obtain p where "p \<in> snd ` set xs" "same_client p q" by (force simp: derived_def)
  moreover from this have "has_access acl q = has_access acl p"
    by (simp add: same_client_def has_access_def split: option.split)
  ultimately show "has_flag q FLAG_WRITE \<longleftrightarrow> has_access acl q"
    using assms(2) by (simp add: same_client_def)
qed

lemma derived_refl: "derived xs xs"
  by (auto simp: derived_def intro: same_client_refl)

lemma port_server_server_ok:
  assumes ok: "server_ok s xs" and run: "port_server io s = Inr s'"
  shows "\<exists>zs bs. server_ok s' zs \<and> derived xs zs \<and> aq s' = aq s \<and> controls (out s') = controls (out s) @ bs \<and>
    (\<forall>b \<in> set bs. control_ok io (map snd xs) b)"
proof -
  have "clients_ok s xs" "fifo_ok s" using ok by (simp_all add: server_ok_def)
  from port_server_refines [OF this, of io] run obtain zs bs where
    "clients_ok s' zs" "derived xs zs" "fifo_ok s'" "served_frame s s'"
    "controls (out s') = controls (out s) @ bs" "\<forall>b \<in> set bs. control_ok io (map snd xs) b"
    by (auto simp: round_done_def)
  moreover from this derived_access [OF _ server_ok_access [OF ok]] ok have "server_ok s' zs" "aq s' = aq s"
    by (simp_all add: server_ok_def served_frame_def)
  ultimately show ?thesis by blast
qed

lemma fifo_server_server_ok:
  assumes "server_ok s xs"
  shows "\<exists>s' zs. fifo_server cs s = Inr s' \<and> server_ok s' zs \<and> set zs \<subseteq> set xs \<and> aq s' = aq s \<and> controls (out s') = controls (out s)"
proof -
  obtain s' zs where "fifo_server cs s = Inr s'" "clients_ok s' zs" "set zs \<subseteq> set xs" "fifo_ok s'"
      "aq s' = aq s" "pd s' = pd s" "controls (out s') = controls (out s)"
    using fifo_server_total [of s xs cs] assms by (auto simp: server_ok_def)
  with assms show ?thesis by (auto simp: server_ok_def)
qed

lemma reread_conf_refines:
  assumes ok: "server_ok s xs" and run: "reread_conf junk file s = Inr s'"
  shows "\<exists>acl. read_conf junk file [] = Inr acl \<and> aq s' = acl \<and> server_ok s' (reauthed acl xs) \<and>
    controls (out s') = controls (out s)"
proof -
  obtain acl where acl: "read_conf junk file [] = Inr acl" "reauthenticate_users (s\<lparr>aq := acl\<rparr>) = Inr s'"
    using run by (auto simp: reread_conf_def)
  have "clients_ok (s\<lparr>aq := acl\<rparr>) xs" using ok by (simp add: server_ok_def clients_ok_def)
  from reauthenticate_users_refines [OF this] acl(2) have
    s': "clients_ok s' (reauthed acl xs)" "reload_frame (s\<lparr>aq := acl\<rparr>) s'" by simp_all
  moreover have "\<forall>p \<in> snd ` set (reauthed acl xs). has_flag p FLAG_WRITE \<longleftrightarrow> has_access acl p"
    by (auto simp: reauthed_def)
  ultimately have "server_ok s' (reauthed acl xs)"
    using ok by (simp add: server_ok_def reload_frame_def fifo_ok_def)
  with acl(1) s'(2) show ?thesis by (simp add: reload_frame_def)
qed

lemma server_round_ok:
  assumes ok: "server_ok s xs" and ker: "kernel_ok (r_daemon e) s" and run: "server_round e s = Inr s'"
  shows "\<exists>zs bs. server_ok s' zs \<and> aq s' = aq s \<and> controls (out s') = controls (out s) @ bs \<and>
    (\<forall>b \<in> set bs. \<exists>p. (p \<in> snd ` set xs \<or> new_client (r_daemon e) s p) \<and>
       (has_access (aq s) p \<and> fst (r_clients e (fd p)) = Some b \<or>
        b = ''monitor '' @ fst (snd (r_clients e (fd p))) @ [LF])) \<and>
    (\<forall>q \<in> snd ` set zs. \<exists>p. (p \<in> snd ` set xs \<or> new_client (r_daemon e) s p) \<and> same_client p q)"
proof -
  let ?s = "select_round e s"
  obtain s2 s3 where s2: "(if selcount (pd ?s) \<noteq> 0 then port_daemon (r_daemon e) ?s else Inr ?s) = Inr s2"
    and s3: "(if selcount (ps s2) \<noteq> 0 then port_server (r_clients e) s2 else Inr s2) = Inr s3"
    and s': "(if selcount (fs s3) \<noteq> 0 then fifo_server (r_chunks e) s3 else Inr s3) = Inr s'"
    using run by (auto simp: server_round_def Let_def)
  have ok1: "server_ok ?s xs" by (rule select_round_ok [OF ok])
  have "new_client (r_daemon e) ?s p = new_client (r_daemon e) s p" for p by (simp add: new_client_def)
  then obtain ys where ys: "server_ok s2 ys" "aq s2 = aq s" "controls (out s2) = controls (out s)"
      "\<forall>p \<in> snd ` set ys. p \<in> snd ` set xs \<or> new_client (r_daemon e) s p"
    using s2 ok1 port_daemon_server_ok [OF ok1, of "r_daemon e" s2] ker
    by (cases "selcount (pd ?s) = 0") (auto simp: select_round_kernel_ok)
  obtain ws bs where ws: "server_ok s3 ws" "aq s3 = aq s" "controls (out s3) = controls (out s) @ bs"
      "\<forall>b \<in> set bs. control_ok (r_clients e) (map snd ys) b" "derived ys ws"
    using s3 ys port_server_server_ok [OF ys(1), of "r_clients e" s3]
    by (cases "selcount (ps s2) = 0") (auto simp: derived_refl)
  obtain zs where zs: "server_ok s' zs" "set zs \<subseteq> set ws" "aq s' = aq s3" "controls (out s') = controls (out s3)"
    using s' ws(1) fifo_server_server_ok [OF ws(1), of "r_chunks e"]
    by (cases "selcount (fs s3) = 0") auto
  have "\<exists>p. (p \<in> snd ` set xs \<or> new_client (r_daemon e) s p) \<and> same_client p q" if "q \<in> snd ` set zs" for q
  proof -
    obtain a where "(a, q) \<in> set ws" using \<open>q \<in> snd ` set zs\<close> zs(2) by auto
    then obtain p where "(a, p) \<in> set ys" "same_client p q" using ws(5) by (auto simp: derived_def)
    moreover from this have "p \<in> snd ` set ys" by force
    ultimately show ?thesis using ys(4) by blast
  qed
  moreover have "\<exists>p. (p \<in> snd ` set xs \<or> new_client (r_daemon e) s p) \<and>
       (has_access (aq s) p \<and> fst (r_clients e (fd p)) = Some b \<or>
        b = ''monitor '' @ fst (snd (r_clients e (fd p))) @ [LF])" if "b \<in> set bs" for b
  proof -
    from ws(4) that obtain p where "p \<in> snd ` set ys" "has_flag p FLAG_WRITE \<and> fst (r_clients e (fd p)) = Some b \<or>
        b = ''monitor '' @ fst (snd (r_clients e (fd p))) @ [LF]"
      unfolding control_ok_def set_map by blast
    with ys(4) server_ok_access [OF ys(1)] ys(2) show ?thesis by (intro exI [of _ p]) auto
  qed
  ultimately show ?thesis using zs ws(2,3) by (intro exI [of _ zs] exI [of _ bs]) simp
qed

inductive_cases server_stepE: "server_step s s'"

lemma reachable_ok: "reachable s \<Longrightarrow> \<exists>xs. server_ok s xs"
proof (induction rule: reachable.induct)
  case (start e s)
  then show ?case by (blast dest: server_start_ok)
next
  case (step s s')
  then obtain xs where xs: "server_ok s xs" by blast
  with step(2) server_round_ok [OF xs] reread_conf_refines [OF xs] show ?case
    by (elim server_stepE) blast+
qed

section \<open>What holds in every state the server reaches\<close>

text \<open>An example: the server starts with one user in its configuration, and in its first round
  that user connects.\<close>

definition ex_start :: start_env where
  "ex_start = \<lparr>listen_fd = 3, listen_bound = True, control_fifo = 4, conf_junk = (\<lambda>_. 0),
     conf_file = Some (conf_text [(''gavin'', 16777343, 4294967295)])\<rparr>"

definition ex_started :: server where
  "ex_started = (fifo_server_init 4 (globals\<lparr>ps := port_server_init,
     pd := \<lparr>fullcount = 1, full = {3}, maxfd = 3, selcount = 0, sel = {}\<rparr>\<rparr>))
     \<lparr>aq := [auth_entry ''gavin'' 16777343 4294967295]\<rparr>"

definition ex_round :: round_env where
  "ex_round = \<lparr>r_select = (\<lambda>k S. (1, {3})), r_count0 = 0, r_daemon = ex_env ''gavin'',
     r_clients = ex_io, r_chunks = []\<rparr>"

lemma ex_server_start: "server_start ex_start = Inr ex_started"
proof -
  have "list_all (\<lambda>(u, i, m). is_userid u) [(''gavin'', 16777343 :: in_addr, 4294967295 :: in_addr)]" by code_simp
  from conf_lex_text [OF this]
  have "read_conf junk (Some (conf_text [(''gavin'', 16777343, 4294967295)])) [] =
      Inr [auth_entry ''gavin'' 16777343 4294967295]" for junk
    by (simp add: read_conf_def yyparse_def auth_add_eq conf_addr_def)
  then show ?thesis
    by (simp add: server_start_def ex_start_def ex_started_def port_daemon_init_def FD_SET_def FD_SETSIZE_def
        Let_def globals_def fifo_server_init_def)
qed

lemma ex_round_selects:
  "selcount (pd (select_round ex_round ex_started)) = 1" "selcount (ps (select_round ex_round ex_started)) = 0"
  "selcount (fs (select_round ex_round ex_started)) = 0" "fs (select_round ex_round ex_started) = port_server_init"
  by code_simp+

lemma ex_connects_as:
  assumes env: "env_ok d ex_started" and "ident_malloc d = Some np"
  shows "\<exists>s p. reachable s \<and> connected s = {p} \<and> new_client d ex_started p \<and> aq s = aq ex_started"
proof -
  let ?e = "ex_round\<lparr>r_daemon := d\<rparr>"
  let ?s = "select_round ?e ex_started"
  have sel: "?s = select_round ex_round ex_started" by (simp add: select_round_def)
  have ok: "server_ok ?s []" by (rule select_round_ok [OF server_start_ok [OF ex_server_start]])
  have env': "env_ok d ?s"
    using env select_round_watch(2) [of ex_started ?e] by (simp add: env_ok_def same_watch_def split: option.splits)
  obtain s2 where s2: "port_daemon d ?s = Inr s2" using port_daemon_total [OF env'] by blast
  have "clients_ok ?s []" using ok by (simp add: server_ok_def)
  from port_daemon_result [OF this env_ok_kernel_ok [OF env'] s2] assms(2)
  obtain p where p: "new_client d ?s p" "clients_ok s2 [(np, p)]" "aq s2 = aq ?s" "fs s2 = fs ?s"
      "selcount (ps s2) = selcount (ps ?s)"
    by auto
  then have "server_round ?e ex_started = Inr s2"
    using s2 ex_round_selects unfolding sel by (simp add: server_round_def Let_def select_round_def)
  moreover have "kernel_ok (r_daemon ?e) ex_started" using env_ok_kernel_ok [OF env] by simp
  ultimately have "reachable s2" using ex_server_start by (meson reachable.intros server_step.round)
  moreover have "new_client d ex_started p" using p(1) by (simp add: new_client_def)
  moreover have "connected s2 = {p}" using clients_ok_connected [OF p(2)] by simp
  ultimately show ?thesis using p(3) by auto
qed

lemma ex_env_ok_start: "env_ok (r_daemon ex_round) ex_started"
proof -
  have "env_ok (ex_env ''gavin'') ex_server" by (rule ex_env_ok) simp_all
  moreover have "full (ps ex_started) = {}" "qheap ex_started = Map.empty"
    by (simp_all add: ex_started_def fifo_server_init_def port_server_init_def globals_def)
  ultimately show ?thesis by (simp add: env_ok_def ex_round_def split: option.splits)
qed

lemma ex_connects:
  "\<exists>s p. reachable s \<and> connected s = {p} \<and> userid p = Some ''gavin'' \<and>
    sa p = \<lparr>sin_addr = 16777343, sin_port = 4660\<rparr> \<and> aq s = [auth_entry ''gavin'' 16777343 4294967295]"
proof -
  have d: "r_daemon ex_round = ex_env ''gavin''" "ident_malloc (ex_env ''gavin'') = Some 4"
    "acc_sa (ex_env ''gavin'') = Some \<lparr>sin_addr = 16777343, sin_port = 4660\<rparr>"
    by (simp_all add: ex_round_def ex_env_def)
  then obtain s p where "reachable s" "connected s = {p}" "new_client (ex_env ''gavin'') ex_started p"
      "aq s = aq ex_started"
    using ex_connects_as [of "ex_env ''gavin''" 4] ex_env_ok_start by auto
  moreover have "ident_user (ex_env ''gavin'') a = Some ''gavin''" for a by (rule ex_env_user) simp_all
  ultimately show ?thesis using d(3) by (auto simp: new_client_def ex_started_def)
qed

text \<open>C1: in every state the server reaches, whatever its clients, the network and the configuration
  files did, a connected client has the write flag exactly when the access list in force lets its
  user control diald from its address.\<close>

theorem server_write_access:
  assumes "reachable s" and "p \<in> connected s"
  shows "has_flag p FLAG_WRITE \<longleftrightarrow>
    (case userid p of None \<Rightarrow> False | Some u \<Rightarrow> allowed (aq s) u (ucast (sin_addr (sa p))))"
proof -
  obtain xs where xs: "server_ok s xs" using reachable_ok [OF assms(1)] by blast
  then have "connected s = snd ` set xs" by (simp add: clients_ok_connected server_ok_def)
  with assms(2) server_ok_access [OF xs] show ?thesis unfolding has_access_def by blast
qed

lemma server_write_access_witness:
  "\<exists>s p. reachable s \<and> p \<in> connected s \<and> userid p = Some ''gavin'' \<and> has_flag p FLAG_WRITE"
proof -
  obtain s p where s: "reachable s" "connected s = {p}" "userid p = Some ''gavin''"
      "sa p = \<lparr>sin_addr = 16777343, sin_port = 4660\<rparr>" "aq s = [auth_entry ''gavin'' 16777343 4294967295]"
    using ex_connects by blast
  then have "has_flag p FLAG_WRITE"
    using server_write_access [of s p] by (simp add: allowed_def entry_allows_def auth_entry_def)
  with s show ?thesis by blast
qed

text \<open>C2: diald only hears from authorised users.  In a round from any reachable state, whatever is
  written into the control FIFO was sent by a client, connected or just accepted, whose user the
  access list allows from its address, or is the server's own request to monitor.\<close>

theorem server_control_authorised:
  assumes "reachable s" and "kernel_ok (r_daemon e) s" and "server_round e s = Inr s'"
  shows "\<exists>bs. controls (out s') = controls (out s) @ bs \<and>
    (\<forall>b \<in> set bs. \<exists>p. (p \<in> connected s \<or> new_client (r_daemon e) s p) \<and>
       (has_access (aq s) p \<and> fst (r_clients e (fd p)) = Some b \<or>
        b = ''monitor '' @ fst (snd (r_clients e (fd p))) @ [LF]))"
proof -
  obtain xs where xs: "server_ok s xs" using reachable_ok [OF assms(1)] by blast
  then have "connected s = snd ` set xs" by (simp add: clients_ok_connected server_ok_def)
  with server_round_ok [OF xs assms(2,3)] show ?thesis by auto
qed

lemma server_round_total_ok:
  assumes ok: "server_ok s xs" and env: "env_ok (r_daemon e) s" and safe: "\<And>p. io_safe (r_clients e) p"
  shows "\<exists>s'. server_round e s = Inr s'"
proof -
  let ?s = "select_round e s"
  have ok1: "server_ok ?s xs" by (rule select_round_ok [OF ok])
  have env1: "env_ok (r_daemon e) ?s"
    using env select_round_watch(2) [of s e] by (simp add: env_ok_def same_watch_def split: option.splits)
  obtain s2 where s2: "(if selcount (pd ?s) \<noteq> 0 then port_daemon (r_daemon e) ?s else Inr ?s) = Inr s2"
    using port_daemon_total [OF env1] by (cases "selcount (pd ?s) = 0") auto
  obtain ys where ys: "server_ok s2 ys"
    using s2 ok1 port_daemon_server_ok [OF ok1 env_ok_kernel_ok [OF env1]]
    by (cases "selcount (pd ?s) = 0") auto
  then have "clients_ok s2 ys" "fifo_ok s2" by (simp_all add: server_ok_def)
  from port_server_total [OF this] safe
  obtain s3 where s3: "(if selcount (ps s2) \<noteq> 0 then port_server (r_clients e) s2 else Inr s2) = Inr s3"
    by (cases "selcount (ps s2) = 0") auto
  obtain zs where "server_ok s3 zs"
    using s3 ys port_server_server_ok [OF ys, of "r_clients e" s3] by (cases "selcount (ps s2) = 0") auto
  from fifo_server_server_ok [OF this, of "r_chunks e"] s2 s3 show ?thesis
    by (cases "selcount (fs s3) = 0") (auto simp: server_round_def Let_def)
qed

text \<open>The main loop goes on.  From every reachable state a round comes to its end, without
  an overflow, a null pointer or a removed node, and without exiting, when \<open>accept\<close> delivers a connection, no user
  name has more than 198 characters, no line sent by a client without write access more than 968,
  and the system calls return descriptors \<open>select\<close> can handle.\<close>

lemma server_round_total:
  assumes "reachable s" and "env_ok (r_daemon e) s" and "\<And>p. io_safe (r_clients e) p"
  shows "\<exists>s'. server_round e s = Inr s' \<and> reachable s'"
proof -
  obtain xs where "server_ok s xs" using reachable_ok [OF assms(1)] by blast
  then obtain s' where "server_round e s = Inr s'" using server_round_total_ok [OF _ assms(2,3)] by blast
  with assms(1,2) show ?thesis by (meson env_ok_kernel_ok reachable.step server_step.round)
qed

lemma ex_io_safe_all: "io_safe ex_io p"
  by (simp add: io_safe_def ex_io_def FD_SETSIZE_def cstr_def clean_userid_def cut_line_def)

lemma server_round_total_witness: "\<exists>s'. server_round ex_round ex_started = Inr s' \<and> reachable s'"
proof (rule server_round_total)
  show "reachable ex_started" using ex_server_start by (rule reachable.start)
  show "env_ok (r_daemon ex_round) ex_started" by (rule ex_env_ok_start)
  show "io_safe (r_clients ex_round) p" for p by (simp add: ex_round_def ex_io_safe_all)
qed

lemma server_control_authorised_witness:
  "\<exists>s' bs. server_round ex_round ex_started = Inr s' \<and> controls (out s') = bs \<and>
    list_all (\<lambda>b. b = ''up'' @ [LF] \<or> b = ''monitor /tmp/g'' @ [LF]) bs"
proof -
  have r: "reachable ex_started" using ex_server_start by (rule reachable.start)
  obtain s' where s': "server_round ex_round ex_started = Inr s'"
    using server_round_total_ok [OF server_start_ok [OF ex_server_start] ex_env_ok_start]
    by (auto simp: ex_round_def ex_io_safe_all)
  have "out ex_started = []" "r_clients ex_round = ex_io"
    by (simp_all add: ex_started_def fifo_server_init_def globals_def ex_round_def)
  moreover have "fst (ex_io f) = Some (''up'' @ [LF])" "fst (snd (ex_io f)) = ''/tmp/g''" for f
    by (simp_all add: ex_io_def)
  ultimately obtain bs where "controls (out s') = bs" "\<forall>b \<in> set bs. Some (''up'' @ [LF]) = Some b \<or>
      b = ''monitor '' @ ''/tmp/g'' @ [LF]"
    using server_control_authorised [OF r env_ok_kernel_ok [OF ex_env_ok_start] s']
    by (simp only: controls.simps append_Nil) blast
  with s' show ?thesis by (intro exI [of _ s'] exI [of _ bs]) (simp add: list_all_iff eq_commute)
qed

section \<open>What a reload does\<close>

lemma reread_conf_connected:
  assumes ok: "server_ok s xs" and run: "reread_conf junk file s = Inr s'"
  shows "connected s' = reauth_port (aq s') ` connected s"
proof -
  from reread_conf_refines [OF ok run] have "clients_ok s' (reauthed (aq s') xs)" by (auto simp: server_ok_def)
  moreover have "clients_ok s xs" using ok by (simp add: server_ok_def)
  ultimately show ?thesis by (force simp: clients_ok_connected reauthed_def image_iff)
qed

text \<open>C4: after SIGHUP with a well-formed configuration, the same clients are connected, a client
  monitors if it did before, and it may control diald exactly when the new file lists its user with a
  network its address lies in: access is granted and taken away.\<close>

theorem reread_conf_access:
  assumes "reachable s" and "reread_conf junk (Some (conf_text cfg)) s = Inr s'"
    and "cfg \<noteq> []" and "list_all (\<lambda>(u, i, m). is_userid u \<and> length u \<le> 211) cfg"
  shows "\<exists>f. connected s' = f ` connected s \<and>
    (\<forall>p \<in> connected s. fd (f p) = fd p \<and> sa (f p) = sa p \<and> userid (f p) = userid p \<and>
       has_flag (f p) FLAG_MONITOR = has_flag p FLAG_MONITOR \<and>
       (has_flag (f p) FLAG_WRITE \<longleftrightarrow> (case userid p of None \<Rightarrow> False | Some v \<Rightarrow>
          list_ex (\<lambda>(u, i, m). strcasecmp u v = 0 \<and>
            (ucast (sin_addr (sa p)) :: 64 word) AND ucast m = ucast i AND ucast m) cfg)))"
proof -
  obtain xs where xs: "server_ok s xs" using reachable_ok [OF assms(1)] by blast
  obtain acl where acl: "read_conf junk (Some (conf_text cfg)) [] = Inr acl" "aq s' = acl"
    using reread_conf_refines [OF xs assms(2)] by blast
  have "allowed acl v j \<longleftrightarrow>
      list_ex (\<lambda>(u, i, m). strcasecmp u v = 0 \<and> j AND ucast m = ucast i AND ucast m) cfg" for v j
    using read_conf_print [OF assms(3,4), of junk] acl(1) by auto
  then have "has_access acl p \<longleftrightarrow> (case userid p of None \<Rightarrow> False | Some v \<Rightarrow>
      list_ex (\<lambda>(u, i, m). strcasecmp u v = 0 \<and>
        (ucast (sin_addr (sa p)) :: 64 word) AND ucast m = ucast i AND ucast m) cfg)" for p
    by (simp add: has_access_def split: option.split)
  with reread_conf_connected [OF xs assms(2)] acl(2) show ?thesis
    by (intro exI [of _ "reauth_port acl"]) simp
qed

lemma ex_conf_ok:
  "list_all (\<lambda>(u, i, m). is_userid u \<and> length u \<le> 211) [(''root'', 16777343 :: in_addr, 4294967295 :: in_addr)]"
  by code_simp

lemma ex_reread:
  assumes s: "reachable s" "connected s = {p}" "userid p = Some ''gavin''"
  shows "\<exists>s'. reread_conf junk (Some (conf_text [(''root'', 16777343, 4294967295)])) s = Inr s'"
proof -
  obtain xs where xs: "server_ok s xs" using reachable_ok [OF s(1)] by blast
  obtain acl where acl: "read_conf junk (Some (conf_text [(''root'', 16777343, 4294967295)])) [] = Inr acl"
    using read_conf_print [OF _ ex_conf_ok, of junk] by auto
  have ok: "clients_ok s xs" "clients_ok (s\<lparr>aq := acl\<rparr>) xs" using xs by (simp_all add: server_ok_def clients_ok_def)
  have "\<forall>q \<in> snd ` set xs. auth_safe acl q"
    unfolding clients_ok_connected [OF ok(1), symmetric] s(2) using s(3) by (simp add: auth_safe_def)
  with reauthenticate_users_refines [OF ok(2)] acl show ?thesis
    by (cases "reauthenticate_users (s\<lparr>aq := acl\<rparr>)") (auto simp: reread_conf_def)
qed

lemma reread_conf_access_witness:
  "\<exists>s s' p. reachable s \<and> reread_conf (\<lambda>_. 0) (Some (conf_text [(''root'', 16777343, 4294967295)])) s = Inr s' \<and>
    userid p = Some ''gavin'' \<and> connected s' = {p} \<and> \<not> has_flag p FLAG_WRITE"
proof -
  obtain s p where s: "reachable s" "connected s = {p}" "userid p = Some ''gavin''" using ex_connects by blast
  obtain s' where s': "reread_conf (\<lambda>_. 0) (Some (conf_text [(''root'', 16777343, 4294967295)])) s = Inr s'"
    using ex_reread [OF s] by blast
  have "strcasecmp ''root'' ''gavin'' \<noteq> 0" by code_simp
  then show ?thesis using reread_conf_access [OF s(1) s' _ ex_conf_ok] s s' by auto
qed

text \<open>C30: a client whose host runs no identification service has no user name, and the reload of a
  configuration that has an entry compares the null pointer with it: one such client and a SIGHUP end the
  server with a null dereference, whatever else is connected.  (A client whose name has more than 204
  characters could end the loop before it comes to the null pointer, by overrunning the line that
  \<open>auth_check\<close> prints; the hypothesis on the names leaves that failure aside.)\<close>

theorem reread_conf_null_user:
  assumes "reachable s" and "p \<in> connected s" and "userid p = None"
    and names: "\<And>q u. q \<in> connected s \<Longrightarrow> userid q = Some u \<Longrightarrow> length u \<le> 204"
    and "read_conf junk file [] = Inr acl" and "acl \<noteq> []"
  shows "reread_conf junk file s = Inl NullDeref"
proof -
  obtain xs where xs: "server_ok s xs" using reachable_ok [OF assms(1)] by blast
  then have conn: "connected s = snd ` set xs" by (simp add: server_ok_def clients_ok_connected)
  have ok: "clients_ok (s\<lparr>aq := acl\<rparr>) xs" using xs by (simp add: server_ok_def clients_ok_def)
  obtain e where e: "reauthenticate_users (s\<lparr>aq := acl\<rparr>) = Inl e"
    using reauthenticate_users_refines [OF ok] assms(2,3,6) conn
    by (cases "reauthenticate_users (s\<lparr>aq := acl\<rparr>)") auto
  have aq: "aq (s\<lparr>aq := acl\<rparr>) = acl" by simp
  from reauthenticate_users_error [OF ok e]
  have "\<exists>q \<in> connected s. \<not> auth_safe acl q \<and> (userid q = None \<longrightarrow> e = NullDeref)"
    unfolding aq conn .
  then obtain q where q: "q \<in> connected s" "\<not> auth_safe acl q" "userid q = None \<longrightarrow> e = NullDeref"
    by (elim bexE conjE)
  have "userid q = None"
  proof (cases "userid q")
    case (Some u)
    with names [OF q(1) Some] have "auth_safe acl q" by (simp add: auth_safe_def)
    with q(2) show ?thesis ..
  qed
  with q(3) have "e = NullDeref" by simp
  then show ?thesis using e assms(5) by (simp add: reread_conf_def)
qed

text \<open>In the example the first client's host does not answer.\<close>

lemma ex_silent_env_ok: "env_ok ((ex_env [])\<lparr>ident_up := False\<rparr>) ex_started"
  by (simp add: env_ok_def ex_env_def ex_started_def fifo_server_init_def globals_def
      port_server_init_def FD_SETSIZE_def)

lemma reread_conf_null_user_witness:
  "\<exists>s. reachable s \<and> reread_conf (\<lambda>_. 0) (Some (conf_text [(''root'', 16777343, 4294967295)])) s = Inl NullDeref"
proof -
  let ?d = "(ex_env [])\<lparr>ident_up := False\<rparr>"
  obtain s p where s: "reachable s" "connected s = {p}" "new_client ?d ex_started p"
    using ex_connects_as [OF ex_silent_env_ok, of 4] by (auto simp: ex_env_def)
  then have "p \<in> connected s" "userid p = None" by (simp_all add: new_client_def ident_user_def)
  moreover obtain acl where acl: "read_conf (\<lambda>_. 0) (Some (conf_text [(''root'', 16777343, 4294967295)])) [] = Inr acl"
      "allowed acl ''root'' (ucast (16777343 :: in_addr))"
    using read_conf_print [OF _ ex_conf_ok, of "\<lambda>_. 0"] by auto
  moreover have "acl \<noteq> []" using acl(2) by (auto simp: allowed_def)
  ultimately show ?thesis using reread_conf_null_user [OF s(1), where p = p and acl = acl] s(1,2) by auto
qed

end
