(* ===== verification/ServerProgram.thy ===== *)
theory ServerProgram
  imports ServerMain
begin

text \<open>
  The whole run of the server (\<open>main\<close>, \<open>detach_process\<close> and \<open>sigint\<close> of \<open>server/diald-top-server.c\<close>): going
  into the background, the signals, and the endless loop, as a function of what the outside does.  The
  states such a run passes through are exactly the reachable states of the step relation.  With what each
  component shows of itself, no run fails as long as the outside is \<open>benign\<close>.
\<close>

section \<open>Background and signals\<close>

text \<open>\<open>pid\<close> is what \<open>fork\<close> returns, \<open>sid\<close> what \<open>setsid\<close> returns in the child.\<close>

definition detach_process :: "int \<Rightarrow> int \<Rightarrow> unit res" where
  "detach_process pid sid =
     (if pid > 0 then Inl (Exit 0) else if pid = -1 then Inl (Exit 1)
      else if sid = -1 then Inl (Exit 1) else Inr ())"

datatype signal = SIGINT | SIGTERM | SIGPIPE | SIGHUP

datatype disposition = Terminates | Ignored | Rereads

text \<open>The handlers \<open>main\<close> installs: SIGHUP is ignored until the configuration has been read.\<close>

definition disposition :: "bool \<Rightarrow> signal \<Rightarrow> disposition" where
  "disposition configured sig =
     (case sig of SIGINT \<Rightarrow> Terminates | SIGTERM \<Rightarrow> Terminates | SIGPIPE \<Rightarrow> Ignored
      | SIGHUP \<Rightarrow> if configured then Rereads else Ignored)"

definition sigint :: "server res" where
  "sigint = Inl (Exit 2)"

definition deliver :: "bool \<Rightarrow> signal \<Rightarrow> (conf_token list \<Rightarrow> in_addr) \<Rightarrow> string option \<Rightarrow> server \<Rightarrow> server res" where
  "deliver configured sig junk file s =
     (case disposition configured sig of Terminates \<Rightarrow> sigint | Ignored \<Rightarrow> Inr s | Rereads \<Rightarrow> reread_conf junk file s)"

section \<open>main\<close>

text \<open>What happens: a round of the loop, or a signal, with the configuration file there is then.\<close>

datatype main_event = Round round_env | Signal signal "conf_token list \<Rightarrow> in_addr" "string option"

fun server_event :: "main_event \<Rightarrow> server \<Rightarrow> server res" where
  "server_event (Round e) s = server_round e s"
| "server_event (Signal sig junk file) s = deliver True sig junk file s"

fun server_run :: "main_event list \<Rightarrow> server \<Rightarrow> server res" where
  "server_run [] s = Inr s"
| "server_run (ev # evs) s = rbind (server_event ev s) (server_run evs)"

text \<open>\<open>early\<close> are the signals that come while the server starts.\<close>

fun early_signals :: "signal list \<Rightarrow> server \<Rightarrow> server res" where
  "early_signals [] s = Inr s"
| "early_signals (sig # sigs) s = rbind (deliver False sig (\<lambda>_. 0) None s) (early_signals sigs)"

definition server_main :: "int \<Rightarrow> int \<Rightarrow> signal list \<Rightarrow> start_env \<Rightarrow> main_event list \<Rightarrow> server res" where
  "server_main pid sid early e evs =
     rbind (detach_process pid sid) (\<lambda>_.
       rbind (early_signals early globals) (\<lambda>_. rbind (server_start e) (server_run evs)))"

section \<open>Runs and reachable states\<close>

text \<open>A condition on every event of a run, in the state where it happens.\<close>

fun along :: "(main_event \<Rightarrow> server \<Rightarrow> bool) \<Rightarrow> main_event list \<Rightarrow> server \<Rightarrow> bool" where
  "along ok [] s \<longleftrightarrow> True"
| "along ok (ev # evs) s \<longleftrightarrow> ok ev s \<and> (case server_event ev s of Inl _ \<Rightarrow> True | Inr s' \<Rightarrow> along ok evs s')"

text \<open>The kernel gives new descriptors and memory in every round of the run.\<close>

definition kernel_event :: "main_event \<Rightarrow> server \<Rightarrow> bool" where
  "kernel_event ev s \<longleftrightarrow> (case ev of Round e \<Rightarrow> kernel_ok (r_daemon e) s | Signal _ _ _ \<Rightarrow> True)"

abbreviation kernel_run :: "main_event list \<Rightarrow> server \<Rightarrow> bool" where
  "kernel_run \<equiv> along kernel_event"

lemma along_snoc: "server_run evs s = Inr s' \<Longrightarrow> along ok (evs @ [ev]) s \<longleftrightarrow> along ok evs s \<and> ok ev s'"
proof (induction evs arbitrary: s)
  case (Cons e evs)
  then show ?case by (auto split: sum.splits)
qed (auto split: sum.splits)

lemma early_signals_result: "early_signals sigs s = Inr s' \<Longrightarrow> s' = s"
  by (induction sigs) (auto simp: deliver_def disposition_def sigint_def split: signal.splits if_splits)

lemma server_run_snoc: "server_run (evs @ [ev]) s = rbind (server_run evs s) (server_event ev)"
proof (induction evs arbitrary: s)
  case Nil
  show ?case by (cases "server_event ev s") simp_all
next
  case (Cons e evs)
  then show ?case by (cases "server_event e s") simp_all
qed

lemma server_event_step:
  assumes "server_event ev s = Inr s'" and "kernel_event ev s"
  shows "s' = s \<or> server_step s s'"
  using assms by (cases ev)
    (auto simp: kernel_event_def deliver_def disposition_def sigint_def intro: server_step.intros split: signal.splits)

lemma server_run_reachable: "reachable s \<Longrightarrow> kernel_run evs s \<Longrightarrow> server_run evs s = Inr s' \<Longrightarrow> reachable s'"
proof (induction evs arbitrary: s)
  case (Cons ev evs)
  from Cons.prems(3) obtain s1 where s1: "server_event ev s = Inr s1" "server_run evs s1 = Inr s'" by auto
  have "s1 = s \<or> server_step s s1" using Cons.prems(2) by (intro server_event_step [OF s1(1)]) simp
  then have "reachable s1" using Cons.prems(1) by (auto intro: reachable.step)
  then show ?case using Cons.IH [OF _ _ s1(2)] Cons.prems(2) s1(1) by simp
qed simp

lemma server_step_event:
  assumes "server_step s s'"
  shows "\<exists>ev. server_event ev s = Inr s' \<and> kernel_event ev s"
  using assms
proof cases
  case (round e)
  then show ?thesis by (intro exI [of _ "Round e"]) (simp add: kernel_event_def)
next
  case (hangup j fl)
  then show ?thesis by (intro exI [of _ "Signal SIGHUP j fl"]) (simp add: kernel_event_def deliver_def disposition_def)
qed

lemma reachable_run:
  assumes "reachable s"
  shows "\<exists>e s0 evs. server_start e = Inr s0 \<and> kernel_run evs s0 \<and> server_run evs s0 = Inr s"
  using assms
proof induction
  case (start e s)
  then show ?case by (intro exI [of _ e] exI [of _ s] exI [of _ "[]"]) simp
next
  case (step s s')
  then obtain e s0 evs where r: "server_start e = Inr s0" "kernel_run evs s0" "server_run evs s0 = Inr s" by blast
  obtain ev where "server_event ev s = Inr s'" "kernel_event ev s"
    using server_step_event [OF step.hyps(2)] by blast
  with r show ?case
    by (intro exI [of _ e] exI [of _ s0] exI [of _ "evs @ [ev]"]) (simp add: server_run_snoc along_snoc)
qed

text \<open>The states in which the server program can be are exactly the states that the step relation of
  the server reaches: a state is reachable if and only if the program, started in the background, is in
  it after some sequence of rounds and signals.  So what holds of all reachable states holds throughout
  every run of the program.\<close>

lemma server_main_reachable:
  "reachable s \<longleftrightarrow> (\<exists>pid sid early e s0 evs. server_start e = Inr s0 \<and> kernel_run evs s0 \<and>
     server_main pid sid early e evs = Inr s)"
proof
  assume "reachable s"
  then obtain e s0 evs where "server_start e = Inr s0" "kernel_run evs s0" "server_run evs s0 = Inr s"
    using reachable_run by blast
  then have "server_start e = Inr s0 \<and> kernel_run evs s0 \<and> server_main 0 1 [] e evs = Inr s"
    by (simp add: server_main_def detach_process_def)
  then show "\<exists>pid sid early e s0 evs. server_start e = Inr s0 \<and> kernel_run evs s0 \<and>
     server_main pid sid early e evs = Inr s" by blast
next
  assume "\<exists>pid sid early e s0 evs. server_start e = Inr s0 \<and> kernel_run evs s0 \<and>
     server_main pid sid early e evs = Inr s"
  then obtain pid sid early e s0 evs where r: "server_start e = Inr s0" "kernel_run evs s0"
      "server_main pid sid early e evs = Inr s" by blast
  then have "server_run evs s0 = Inr s" by (auto simp: server_main_def dest: early_signals_result)
  with r(1,2) show "reachable s" by (auto intro: server_run_reachable reachable.start)
qed

text \<open>A SIGTERM ends the server with status 2, whatever it has done before.\<close>

lemma sigterm_ends:
  "server_run evs s = Inr s' \<Longrightarrow> server_run (evs @ [Signal SIGTERM junk file]) s = Inl (Exit 2)"
  by (simp add: server_run_snoc deliver_def disposition_def sigint_def)

section \<open>Runs that never fail\<close>

text \<open>A configuration file, of whatever form, in which no name is so long that its log line overflows.\<close>

definition conf_short :: "string option \<Rightarrow> bool" where
  "conf_short file \<longleftrightarrow> (case file of None \<Rightarrow> True
     | Some text \<Rightarrow> list_all (\<lambda>t. case t of USERID u \<Rightarrow> length u \<le> 211 | _ \<Rightarrow> True) (conf_lex text))"

lemma conf_lines_exits:
  "list_all (\<lambda>t. case t of USERID u \<Rightarrow> length u \<le> 211 | _ \<Rightarrow> True) ts \<Longrightarrow> conf_lines junk some ts acl = Inl err \<Longrightarrow> err = Exit 1"
  by (induction junk some ts acl rule: conf_lines.induct) (auto simp: auth_add_eq split: if_splits)

lemma read_conf_exits: "conf_short file \<Longrightarrow> read_conf junk file acl = Inl err \<Longrightarrow> err = Exit 1"
  by (auto simp: conf_short_def read_conf_def yyparse_def split: option.splits dest: conf_lines_exits)

text \<open>Nothing the outside does is too long, and the host of every client that connects names its user.\<close>

definition benign :: "main_event \<Rightarrow> server \<Rightarrow> bool" where
  "benign ev s \<longleftrightarrow> (case ev of
     Round e \<Rightarrow> env_ok (r_daemon e) s \<and> ident_up (r_daemon e) \<and> (\<forall>p. io_safe (r_clients e) p)
   | Signal sig junk file \<Rightarrow> conf_short file)"

text \<open>The users of all clients are known and their names are short.\<close>

definition all_named :: "(addr \<times> port_t) list \<Rightarrow> bool" where
  "all_named xs \<longleftrightarrow> (\<forall>p \<in> snd ` set xs. case userid p of None \<Rightarrow> False | Some u \<Rightarrow> length u \<le> 198)"

lemma all_named_round:
  assumes ok: "server_ok s xs" "all_named xs" and ev: "benign (Round e) s"
  shows "\<exists>s' zs. server_round e s = Inr s' \<and> server_ok s' zs \<and> all_named zs"
proof -
  have env: "env_ok (r_daemon e) s" "ident_up (r_daemon e)" "\<And>p. io_safe (r_clients e) p" using ev by (simp_all add: benign_def)
  obtain s' where s': "server_round e s = Inr s'" using server_round_total_ok [OF ok(1) env(1,3)] by blast
  obtain zs where zs: "server_ok s' zs"
      "\<forall>q \<in> snd ` set zs. \<exists>p. (p \<in> snd ` set xs \<or> new_client (r_daemon e) s p) \<and> same_client p q"
    using server_round_ok [OF ok(1) env_ok_kernel_ok [OF env(1)] s'] by blast
  have "\<exists>u. userid p = Some u \<and> length u \<le> 198" if "new_client (r_daemon e) s p" for p
    using that env(1,2) by (auto simp: new_client_def env_ok_def ident_user_def)
  then have "all_named zs"
    using zs(2) ok(2) unfolding all_named_def by (fastforce simp: same_client_def split: option.splits)
  with s' zs(1) show ?thesis by blast
qed

lemma all_named_reload:
  assumes ok: "server_ok s xs" "all_named xs" and short: "conf_short file"
  shows "case reread_conf junk file s of Inl err \<Rightarrow> err = Exit 1 | Inr s' \<Rightarrow> \<exists>zs. server_ok s' zs \<and> all_named zs"
proof (cases "reread_conf junk file s")
  case (Inl err)
  show ?thesis
  proof (cases "read_conf junk file []")
    case (Inr acl)
    have "clients_ok (s\<lparr>aq := acl\<rparr>) xs" using ok by (simp add: server_ok_def clients_ok_def)
    from reauthenticate_users_refines [OF this] Inl Inr obtain p where "p \<in> snd ` set xs" "\<not> auth_safe acl p"
      by (auto simp: reread_conf_def)
    then show ?thesis using ok(2) by (fastforce simp: all_named_def auth_safe_def split: option.splits)
  qed (use Inl read_conf_exits [OF short] in \<open>auto simp: reread_conf_def\<close>)
next
  case (Inr s')
  obtain acl where "server_ok s' (reauthed acl xs)" using reread_conf_refines [OF ok(1) Inr] by blast
  moreover have "all_named (reauthed acl xs)" using ok(2) by (fastforce simp: all_named_def reauthed_def)
  ultimately show ?thesis using Inr by auto
qed

lemma benign_event:
  assumes "server_ok s xs" "all_named xs" and "benign ev s"
  shows "case server_event ev s of Inl err \<Rightarrow> \<exists>n. err = Exit n | Inr s' \<Rightarrow> \<exists>zs. server_ok s' zs \<and> all_named zs"
proof (cases ev)
  case (Round e)
  with all_named_round [of s xs e] assms show ?thesis by auto
next
  case (Signal sig junk conf)
  then have "conf_short conf" using assms(3) by (simp add: benign_def)
  from all_named_reload [OF assms(1,2) this, of junk] assms(1,2) Signal show ?thesis
    by (auto simp: deliver_def disposition_def sigint_def split: signal.split sum.splits)
qed

lemma benign_run:
  "server_ok s xs \<Longrightarrow> all_named xs \<Longrightarrow> along benign evs s \<Longrightarrow>
   case server_run evs s of Inl err \<Rightarrow> \<exists>n. err = Exit n | Inr s' \<Rightarrow> \<exists>zs. server_ok s' zs"
proof (induction evs arbitrary: s xs)
  case (Cons ev evs)
  from benign_event [OF Cons.prems(1,2), of ev] Cons.prems(3) Cons.IH show ?case
    by (cases "server_event ev s") auto
qed auto

lemma server_start_exits:
  assumes "0 \<le> listen_fd e" "listen_fd e < FD_SETSIZE" and "conf_short (conf_file e)" and "server_start e = Inl err"
  shows "err = Exit 1"
  using assms read_conf_exits [OF assms(3)]
  by (auto simp: server_start_def port_daemon_init_def FD_SET_def rbind_eq_Inl Let_def split: if_splits)

text \<open>C3: the server never fails.  When descriptors are small enough for \<open>select\<close>, the hosts of clients name
  their users, and no name or line is too long for its buffer, then whatever the clients, diald, the
  signals and the configuration files do, however often the configuration is reloaded, a run of the server
  goes on, or ends by an \<open>exit\<close>: no buffer overflows, no null pointer or removed node is used, and every
  walk over the clients ends.  The one access the model leaves out is the read of \<open>curr->next\<close> in the loop
  header of \<open>close_port\<close> after the node is freed, whose value is not used.\<close>

theorem server_never_fails:
  assumes "0 \<le> listen_fd e" "listen_fd e < FD_SETSIZE" and "conf_short (conf_file e)"
    and "\<And>s. server_start e = Inr s \<Longrightarrow> along benign evs s"
  shows "case server_main pid sid early e evs of Inl err \<Rightarrow> \<exists>n. err = Exit n | Inr s \<Rightarrow> \<exists>xs. server_ok s xs"
proof -
  have "\<exists>n. err = Exit n" if "early_signals early globals = Inl err" for err
    using that by (induction early) (auto simp: deliver_def disposition_def sigint_def split: signal.splits)
  moreover have "\<exists>n. err = Exit n" if "detach_process pid sid = Inl err" for err
    using that by (auto simp: detach_process_def split: if_splits)
  moreover have "all_named []" by (simp add: all_named_def)
  from benign_run [OF server_start_ok this assms(4)]
  have "case server_run evs s of Inl err \<Rightarrow> \<exists>n. err = Exit n | Inr s' \<Rightarrow> \<exists>zs. server_ok s' zs" if "server_start e = Inr s" for s
    using that by blast
  ultimately show ?thesis using server_start_exits [OF assms(1-3)]
    by (cases "detach_process pid sid"; cases "early_signals early globals"; cases "server_start e")
      (auto simp: server_main_def)
qed

text \<open>A user connects, then the configuration is reloaded without him.\<close>

definition ex_events :: "main_event list" where
  "ex_events = [Round ex_round, Signal SIGHUP (\<lambda>_. 0) (Some (conf_text [(''root'', 16777343, 4294967295)]))]"

lemma server_never_fails_witness:
  "along benign ex_events ex_started \<and>
   (case server_main 0 1 [SIGHUP] ex_start ex_events of Inl err \<Rightarrow> \<exists>n. err = Exit n | Inr s \<Rightarrow> \<exists>xs. server_ok s xs)"
proof -
  have short: "conf_short (conf_file ex_start)" "conf_short (Some (conf_text [(''root'', 16777343, 4294967295)]))"
    by code_simp+
  have "benign (Round ex_round) ex_started"
    using ex_env_ok_start ex_io_safe_all by (simp add: benign_def) (auto simp: ex_round_def ex_env_def)
  with short(2) have b: "along benign ex_events ex_started"
    by (auto simp: ex_events_def benign_def split: sum.split)
  have "case server_main 0 1 [SIGHUP] ex_start ex_events of Inl err \<Rightarrow> \<exists>n. err = Exit n | Inr s \<Rightarrow> \<exists>xs. server_ok s xs"
    by (rule server_never_fails) (use short(1) b ex_server_start in \<open>simp_all add: ex_start_def FD_SETSIZE_def\<close>)
  with b show ?thesis by blast
qed

end
