(* ===== verification/MonitorLex.thy ===== *)
theory MonitorLex
  imports Scanner
begin

text \<open>
  The scanner of the reports diald writes (\<open>client/monitor.l\<close>): its patterns as regular expressions, a
  matcher for each, the start conditions, and the choice of the longest match, of the earliest rule
  among equals.  The lemmas show that each matcher finds the longest match of its pattern, that
  scanning comes to an end unless a message is empty, and what a printed report is scanned as.
\<close>

section \<open>Tokens and rules\<close>

datatype token =
    T_STATE | T_INTERFACE | T_STATUS | T_LOAD | T_MESSAGE | T_QUEUE | T_ENDQUEUE
  | T_TIME string | T_NUM int | T_IP string | T_PORT int | T_STRING string | T_NEWLINE | T_WOULDBLOCK

datatype start_cond = INITIAL | Pre_message | In_message

text \<open>One constructor for each rule, in the order of the file.\<close>

datatype lex_rule = Key token | Time | Num | Ip | Port | Blank | Str | Line | Pre_newline | In_newline | Newline

definition lex_rules :: "lex_rule list" where
  "lex_rules = map Key [T_STATE, T_INTERFACE, T_STATUS, T_LOAD, T_QUEUE, T_ENDQUEUE, T_MESSAGE] @
     [Time, Num, Ip, Port, Blank, Str, Line, Pre_newline, In_newline, Newline]"

fun keyword :: "token \<Rightarrow> string" where
  "keyword T_STATE = ''STATE''"
| "keyword T_INTERFACE = ''INTERFACE''"
| "keyword T_STATUS = ''STATUS''"
| "keyword T_LOAD = ''LOAD''"
| "keyword T_QUEUE = ''QUEUE''"
| "keyword T_ENDQUEUE = ''END QUEUE''"
| "keyword T_MESSAGE = ''MESSAGE''"
| "keyword _ = []"

text \<open>The condition \<open>pre_message\<close> is inclusive, \<open>in_message\<close> is exclusive; \<open>^\<close> asks for the begin of a line.\<close>

fun rule_active :: "start_cond \<Rightarrow> bool \<Rightarrow> lex_rule \<Rightarrow> bool" where
  "rule_active q bol (Key _) \<longleftrightarrow> q \<noteq> In_message \<and> bol"
| "rule_active q bol Line \<longleftrightarrow> q = In_message \<and> bol"
| "rule_active q bol Pre_newline \<longleftrightarrow> q = Pre_message"
| "rule_active q bol In_newline \<longleftrightarrow> q = In_message"
| "rule_active q bol _ \<longleftrightarrow> q \<noteq> In_message"

section \<open>Patterns\<close>

datatype rexp = Chars "char \<Rightarrow> bool" | Eps | Seq rexp rexp | Alt rexp rexp | Star rexp

inductive_set star :: "string set \<Rightarrow> string set" for L where
  star_Nil: "[] \<in> star L"
| star_App: "xs \<in> L \<Longrightarrow> ys \<in> star L \<Longrightarrow> xs @ ys \<in> star L"

primrec lang :: "rexp \<Rightarrow> string set" where
  "lang (Chars P) = {[c] |c. P c}"
| "lang Eps = {[]}"
| "lang (Seq r s) = {xs @ ys |xs ys. xs \<in> lang r \<and> ys \<in> lang s}"
| "lang (Alt r s) = lang r \<union> lang s"
| "lang (Star r) = star (lang r)"

definition Lit :: "string \<Rightarrow> rexp" where
  "Lit w = foldr (\<lambda>c. Seq (Chars (\<lambda>d. d = c))) w Eps"

definition nondigit :: "char \<Rightarrow> bool" where
  "nondigit c \<longleftrightarrow> \<not> is_digit c \<and> c \<noteq> SP \<and> c \<noteq> LF"

definition noslash :: "char \<Rightarrow> bool" where
  "noslash c \<longleftrightarrow> c \<noteq> CHR ''/'' \<and> c \<noteq> SP \<and> c \<noteq> LF"

definition Digit :: rexp where "Digit = Chars is_digit"
definition OneToThree :: rexp where "OneToThree = Seq Digit (Alt Eps (Seq Digit (Alt Eps Digit)))"
definition Dot :: rexp where "Dot = Chars (\<lambda>c. c = CHR ''.'')"
definition Colon :: rexp where "Colon = Chars (\<lambda>c. c = CHR '':'')"
definition Slash :: rexp where "Slash = Chars (\<lambda>c. c = CHR ''/'')"
definition Word :: rexp where "Word = Seq (Chars nondigit) (Star (Chars noslash))"

fun pattern :: "lex_rule \<Rightarrow> rexp" where
  "pattern (Key t) = Lit (keyword t)"
| "pattern Time = Seq Digit (Seq Digit (Seq Colon (Seq Digit (Seq Digit (Seq Colon (Seq Digit Digit))))))"
| "pattern Num = Seq Digit (Star Digit)"
| "pattern Ip = Seq OneToThree (Seq Dot (Seq OneToThree (Seq Dot (Seq OneToThree (Seq Dot OneToThree)))))"
| "pattern Port = Seq Slash (Seq (Chars (\<lambda>c. is_digit c \<and> c \<noteq> CHR ''0'')) (Star Digit))"
| "pattern Blank = Chars (\<lambda>c. c = SP)"
| "pattern Str = Seq Word (Star (Seq Slash (Alt Eps Word)))"
| "pattern Line = Seq (Star (Chars (\<lambda>c. c \<noteq> LF))) (Chars (\<lambda>c. c = LF))"
| "pattern _ = Chars (\<lambda>c. c = LF)"

section \<open>Matching\<close>

text \<open>The rest of a match of \<open>Str\<close>.  \<open>InRun\<close>: inside a run of characters other than a slash; \<open>AtSlash\<close>:
  behind a slash that opened a group; \<open>Either\<close>: behind a slash that may have been both.\<close>

datatype str_mode = InRun | AtSlash | Either

fun str_len :: "str_mode \<Rightarrow> string \<Rightarrow> nat" where
  "str_len m [] = 0"
| "str_len m (c # cs) =
     (if c = SP \<or> c = LF \<or> m = AtSlash \<and> is_digit c then 0
      else if c = CHR ''/'' then Suc (str_len (if m = InRun then AtSlash else Either) cs)
      else Suc (str_len InRun cs))"

definition is_time :: "string \<Rightarrow> bool" where
  "is_time w \<longleftrightarrow> length w = 8 \<and> list_all (\<lambda>i. is_digit (w ! i)) [0, 1, 3, 4, 6, 7] \<and>
     w ! 2 = CHR '':'' \<and> w ! 5 = CHR '':''"

fun rule_match :: "lex_rule \<Rightarrow> string \<Rightarrow> nat option" where
  "rule_match (Key t) s = (if take (length (keyword t)) s = keyword t then Some (length (keyword t)) else None)"
| "rule_match Time s = (if is_time (take 8 s) then Some 8 else None)"
| "rule_match Num s = (case length (takeWhile is_digit s) of 0 \<Rightarrow> None | Suc n \<Rightarrow> Some (Suc n))"
| "rule_match Ip s = map_option (\<lambda>(t, r). length t) (match_ip 3 s)"
| "rule_match Port s =
     (case s of a # b # cs \<Rightarrow>
        if a = CHR ''/'' \<and> is_digit b \<and> b \<noteq> CHR ''0'' then Some (2 + length (takeWhile is_digit cs)) else None
      | _ \<Rightarrow> None)"
| "rule_match Blank s = (case s of [] \<Rightarrow> None | c # cs \<Rightarrow> if c = SP then Some 1 else None)"
| "rule_match Str s = (case s of [] \<Rightarrow> None | c # cs \<Rightarrow> if nondigit c then Some (Suc (str_len InRun cs)) else None)"
| "rule_match Line s = (if LF \<in> set s then Some (Suc (length (takeWhile (\<lambda>c. c \<noteq> LF) s))) else None)"
| "rule_match _ s = (case s of [] \<Rightarrow> None | c # cs \<Rightarrow> if c = LF then Some 1 else None)"

section \<open>yylex\<close>

text \<open>The longest match, the earliest among equals.\<close>

fun pick :: "(nat \<times> lex_rule) list \<Rightarrow> (nat \<times> lex_rule) option" where
  "pick [] = None"
| "pick ((n, r) # xs) =
     (case pick xs of None \<Rightarrow> Some (n, r) | Some (m, q) \<Rightarrow> if n < m then Some (m, q) else Some (n, r))"

definition candidates :: "start_cond \<Rightarrow> bool \<Rightarrow> string \<Rightarrow> (nat \<times> lex_rule) list" where
  "candidates q bol s =
     List.map_filter (\<lambda>r. if rule_active q bol r then map_option (\<lambda>n. (n, r)) (rule_match r s) else None) lex_rules"

text \<open>\<open>atoi\<close> of the C library: \<open>strtol\<close> stops at the largest \<open>long\<close>, whose low 32 bits are the result.\<close>

definition atoi :: "string \<Rightarrow> int" where
  "atoi ds = signed_take_bit 31 (min (int (read_nat ds)) (2 ^ 63 - 1))"

record lexer =
  lx_start :: start_cond
  lx_bol :: bool
  lx_rest :: string

text \<open>The action of a rule on the characters it matched: the token, if it returns one, and the new start
  condition.\<close>

fun rule_action :: "lex_rule \<Rightarrow> string \<Rightarrow> start_cond \<Rightarrow> token option \<times> start_cond" where
  "rule_action (Key t) w q = (Some t, if t = T_MESSAGE then Pre_message else q)"
| "rule_action Time w q = (Some (T_TIME w), q)"
| "rule_action Num w q = (Some (T_NUM (atoi w)), q)"
| "rule_action Ip w q = (Some (T_IP w), q)"
| "rule_action Port w q = (Some (T_PORT (atoi (drop 1 w))), q)"
| "rule_action Blank w q = (None, q)"
| "rule_action Str w q = (Some (T_STRING w), q)"
| "rule_action Line w q = (Some (T_STRING w), q)"
| "rule_action Pre_newline w q = (Some T_NEWLINE, In_message)"
| "rule_action In_newline w q = (Some T_NEWLINE, INITIAL)"
| "rule_action Newline w q = (Some T_NEWLINE, q)"

text \<open>One match.  The line end that ends a message is looked at but not taken, and a match of no
  characters leaves the begin-of-line flag alone.  A character no rule matches is echoed.  \<open>None\<close> is
  the end of the characters that are there.\<close>

definition lex_step :: "lexer \<Rightarrow> (token option \<times> lexer) option" where
  "lex_step l =
     (case lx_rest l of [] \<Rightarrow> None
      | c # cs \<Rightarrow>
          (case pick (candidates (lx_start l) (lx_bol l) (c # cs)) of
             None \<Rightarrow> Some (None, l\<lparr>lx_bol := (c = LF), lx_rest := cs\<rparr>)
           | Some (n, r) \<Rightarrow>
               let yyleng = (if r = Line then n - 1 else n);
                   w = take yyleng (c # cs);
                   (t, q) = rule_action r w (lx_start l)
               in Some (t, \<lparr>lx_start = q, lx_bol = (if w = [] then lx_bol l else last w = LF),
                            lx_rest = drop yyleng (c # cs)\<rparr>)))"

text \<open>All tokens up to the end of the characters, and the start condition there; \<open>None\<close> when that end is
  never reached.\<close>

partial_function (option) lex_all :: "lexer \<Rightarrow> (token list \<times> start_cond) option" where
  "lex_all l =
     (case lex_step l of None \<Rightarrow> Some ([], lx_start l)
      | Some (t, l') \<Rightarrow>
          Option.bind (lex_all l') (\<lambda>(ts, q). Some ((case t of None \<Rightarrow> ts | Some t' \<Rightarrow> t' # ts), q)))"

declare lex_all.simps [code]

text \<open>What the FIFO delivers is cut where no more characters came within half a second: there
  the scanner returns \<open>_WOULDBLOCK\<close> and starts again at the begin of a line.\<close>

fun lex_pieces :: "start_cond \<Rightarrow> string list \<Rightarrow> token list option" where
  "lex_pieces q [] = Some []"
| "lex_pieces q (s # ss) =
     (case lex_all \<lparr>lx_start = q, lx_bol = True, lx_rest = s\<rparr> of None \<Rightarrow> None
      | Some (ts, q') \<Rightarrow>
          if ss = [] then Some ts else map_option (\<lambda>us. ts @ T_WOULDBLOCK # us) (lex_pieces q' ss))"

text \<open>\<open>yy_nolog_input\<close>, given the results of \<open>select\<close> and \<open>read\<close>: \<open>yacc_block\<close> and the number of characters.\<close>

definition yy_nolog_input :: "int \<Rightarrow> int \<Rightarrow> int \<times> int" where
  "yy_nolog_input sl c =
     (if sl = 0 then (1, 0) else (if c < 0 then 1 else 0, if c > 0 then c else 0))"

text \<open>\<open>yy_log_input\<close>, which \<open>-L\<close> puts in its place: \<open>ticks\<close> is the time since the first call, \<open>buf\<close> is what the
  buffer holds after \<open>read\<close>, to its end.  Beside the result there is the line for the log file: the
  buffer is printed as a string, whatever \<open>read\<close> has put into it.\<close>

definition yy_log_input :: "int \<Rightarrow> int \<Rightarrow> int \<Rightarrow> string \<Rightarrow> (int \<times> int) \<times> string res" where
  "yy_log_input sl c ticks buf =
     (if sl = 0 then ((1, 0), Inr [])
      else ((if c < 0 then 1 else 0, if c > 0 then c else 0),
            if NUL \<in> set buf then Inr (show_int ticks @ ''> '' @ cstr buf) else Inl Unterminated))"

text \<open>Logging changes nothing for the scanner.  But what is logged goes on behind the characters that were
  read, with what an earlier and longer piece of input has left in the buffer.\<close>

lemma yy_log_input_same: "fst (yy_log_input sl c ticks buf) = yy_nolog_input sl c"
  by (simp add: yy_log_input_def yy_nolog_input_def)

lemma yy_log_input_stale:
  assumes "sl \<noteq> 0" and "NUL \<notin> set w" "NUL \<notin> set stale"
  shows "snd (yy_log_input sl (int (length w)) ticks (w @ stale @ NUL # z)) = Inr (show_int ticks @ ''> '' @ w @ stale)"
proof -
  have "takeWhile (\<lambda>c. c \<noteq> NUL) ((w @ stale) @ NUL # z) = w @ stale"
    using assms(2,3) by (subst takeWhile_append2) auto
  then show ?thesis using assms(1) by (simp add: yy_log_input_def cstr_def)
qed

text \<open>Calls of the input function: what \<open>select\<close> and \<open>read\<close> return, and the buffer.  A call that brings nothing
  ends a piece, or the file.\<close>

type_synonym input = "int \<times> int \<times> string"

fun pieces :: "string \<Rightarrow> input list \<Rightarrow> string list" where
  "pieces w [] = [w]"
| "pieces w ((sl, c, buf) # ins) =
     (case yy_nolog_input sl c of (yacc_block, n) \<Rightarrow>
        if n > 0 then pieces (w @ take (nat n) buf) ins
        else if yacc_block \<noteq> 0 then w # pieces [] ins else [w])"

definition lex_input :: "start_cond \<Rightarrow> input list \<Rightarrow> token list option" where
  "lex_input q ins = lex_pieces q (pieces [] ins)"

text \<open>Characters that arrive in chunks, and a pause.\<close>

definition arrive :: "string list \<Rightarrow> input list" where
  "arrive ws = map (\<lambda>w. (1, int (length w), w)) ws"

definition pause :: input where
  "pause = (0, 0, [])"

lemma pieces_arrive: "[] \<notin> set ws \<Longrightarrow> pieces w (arrive ws @ ins) = pieces (w @ concat ws) ins"
  by (induction ws arbitrary: w) (auto simp: arrive_def yy_nolog_input_def)

lemma pieces_nonempty [simp]: "pieces w ins \<noteq> []"
  by (induction w ins rule: pieces.induct) (auto split: prod.split)

lemma lex_input_arrive:
  assumes "[] \<notin> set ws"
  shows "lex_input q (arrive ws) = lex_pieces q [concat ws]"
    and "lex_input q (arrive ws @ pause # ins) = lex_pieces q (concat ws # pieces [] ins)"
  using pieces_arrive [OF assms, of "[]" "[]"] pieces_arrive [OF assms, of "[]" "pause # ins"]
  by (simp_all add: lex_input_def pause_def yy_nolog_input_def)


section \<open>The matchers find the longest match\<close>

locale longest_match =
  fixes match :: "string \<Rightarrow> nat option" and L :: "string set"
  assumes found: "match s = Some n \<Longrightarrow> \<exists>w u. s = w @ u \<and> length w = n \<and> w \<in> L"
    and most: "w \<in> L \<Longrightarrow> \<exists>n. match (w @ u) = Some n \<and> length w \<le> n"
begin

lemma match_take: "match s = Some n \<Longrightarrow> n \<le> length s \<and> take n s \<in> L"
  using found [of s n] by auto

lemma match_iff: "match s = Some n \<longleftrightarrow> n \<le> length s \<and> take n s \<in> L \<and> (\<forall>m \<le> length s. take m s \<in> L \<longrightarrow> m \<le> n)"
proof
  assume m: "match s = Some n"
  then have "m \<le> n" if "take m s \<in> L" "m \<le> length s" for m
    using most [OF that(1), of "drop m s"] that(2) by auto
  with match_take [OF m] show "n \<le> length s \<and> take n s \<in> L \<and> (\<forall>m \<le> length s. take m s \<in> L \<longrightarrow> m \<le> n)" by blast
next
  assume r: "n \<le> length s \<and> take n s \<in> L \<and> (\<forall>m \<le> length s. take m s \<in> L \<longrightarrow> m \<le> n)"
  then obtain k where k: "match s = Some k" "n \<le> k" using most [of "take n s" "drop n s"] by auto
  with match_take [OF k(1)] r show "match s = Some n" by auto
qed

end

lemma star_chars: "w \<in> star {[c] |c. P c} \<longleftrightarrow> list_all P w"
proof
  show "w \<in> star {[c] |c. P c} \<Longrightarrow> list_all P w" by (induction rule: star.induct) auto
  show "list_all P w \<Longrightarrow> w \<in> star {[c] |c. P c}"
  proof (induction w)
    case (Cons c w)
    with star_App [of "[c]" "{[c] |c. P c}" w] show ?case by auto
  qed (simp add: star_Nil)
qed

lemma lang_Seq: "w \<in> lang (Seq r s) \<longleftrightarrow> (\<exists>xs ys. w = xs @ ys \<and> xs \<in> lang r \<and> ys \<in> lang s)"
  by auto

declare lang.simps(3) [simp del]

lemma lang_SeqI: "xs \<in> lang r \<Longrightarrow> ys \<in> lang s \<Longrightarrow> xs @ ys \<in> lang (Seq r s)"
  by (auto simp: lang_Seq)

lemma lang_Seq_Chars [simp]:
  "[] \<notin> lang (Seq (Chars P) r)" "c # w \<in> lang (Seq (Chars P) r) \<longleftrightarrow> P c \<and> w \<in> lang r"
  using lang_SeqI [of "[c]" "Chars P" w r] by (auto simp: lang_Seq)

lemma lang_Seq_Chars_iff: "w \<in> lang (Seq (Chars P) r) \<longleftrightarrow> (\<exists>c v. w = c # v \<and> P c \<and> v \<in> lang r)"
  by (cases w) auto

lemma lang_Lit [simp]: "w \<in> lang (Lit v) \<longleftrightarrow> w = v"
proof (induction v arbitrary: w)
  case (Cons c v)
  then show ?case by (cases w) (auto simp: Lit_def)
qed (simp add: Lit_def)

lemma takeWhile_all: "list_all P d \<Longrightarrow> takeWhile P (d @ u) = d @ takeWhile P u"
  by (induction d) auto

lemma lang_OneToThree: "w \<in> lang OneToThree \<longleftrightarrow> digits w"
  by (cases w; cases "tl w"; cases "tl (tl w)"; cases "tl (tl (tl w))")
    (auto simp: digits_def OneToThree_def Digit_def)

lemmas pattern_parts = Digit_def Dot_def Colon_def Slash_def Word_def star_chars

fun ip_pattern :: "nat \<Rightarrow> rexp" where
  "ip_pattern 0 = OneToThree"
| "ip_pattern (Suc k) = Seq OneToThree (Seq Dot (ip_pattern k))"

lemma pattern_Ip: "pattern Ip = ip_pattern 3"
  by (simp add: numeral_3_eq_3)

lemma match_ip_found: "match_ip k s = Some (t, r) \<Longrightarrow> t \<in> lang (ip_pattern k)"
proof (induction k arbitrary: s t)
  case 0
  then show ?case
    by (auto simp: lang_OneToThree digits_def Let_def list_all_iff split: if_splits dest!: in_set_takeD set_takeWhileD)
next
  case (Suc k)
  let ?ds = "takeWhile is_digit s"
  from Suc.prems obtain s' t' where m: "match_ip k s' = Some (t', r)" "t = ?ds @ CHR ''.'' # t'" "digits ?ds"
    by (simp only: match_ip.simps Let_def split: if_split_asm list.split_asm option.split_asm)
      (auto simp: digits_def list_all_iff dest: set_takeWhileD)
  from Suc.IH [OF m(1)] m(2,3) lang_SeqI [of ?ds OneToThree "CHR ''.'' # t'"] show ?case
    by (simp add: lang_OneToThree Dot_def)
qed

lemma match_ip_most:
  "t \<in> lang (ip_pattern k) \<Longrightarrow> \<exists>t' r. match_ip k (t @ u) = Some (t', r) \<and> length t \<le> length t'"
proof (induction k arbitrary: t)
  case 0
  then show ?case by (auto simp: lang_OneToThree digits_def takeWhile_all Let_def)
next
  case (Suc k)
  then obtain ds t1 where t: "t = ds @ CHR ''.'' # t1" "digits ds" "t1 \<in> lang (ip_pattern k)"
    by (auto simp: lang_Seq lang_OneToThree Dot_def)
  with Suc.IH [OF t(3)] show ?case
    by (auto simp: digits_def takeWhile_digits Let_def)
qed


text \<open>The pattern \<open>Str\<close>.\<close>

abbreviation groups :: "string set" where
  "groups \<equiv> star (lang (Seq Slash (Alt Eps Word)))"

lemma group_iff:
  "g \<in> lang (Seq Slash (Alt Eps Word)) \<longleftrightarrow>
     g = ''/'' \<or> (\<exists>c ds. g = CHR ''/'' # c # ds \<and> nondigit c \<and> list_all noslash ds)"
  by (cases g; cases "tl g") (auto simp: pattern_parts)

lemma groups_slash: "v \<in> groups \<Longrightarrow> CHR ''/'' # v \<in> groups"
  using star_App [of "''/''" _ v] by (simp add: group_iff)

lemma groups_word: "nondigit c \<Longrightarrow> list_all noslash ds \<Longrightarrow> v \<in> groups \<Longrightarrow> CHR ''/'' # c # ds @ v \<in> groups"
  using star_App [of "CHR ''/'' # c # ds" _ v] by (simp add: group_iff)

lemma str_len_run:
  assumes "list_all noslash ds" and "m \<noteq> AtSlash"
  shows "\<exists>m'. str_len m (ds @ x) = length ds + str_len m' x"
  using assms
proof (induction ds arbitrary: m)
  case (Cons d ds)
  then obtain m' where "str_len InRun (ds @ x) = length ds + str_len m' x" by fastforce
  with Cons.prems have "str_len m ((d # ds) @ x) = length (d # ds) + str_len m' x"
    by (auto simp: noslash_def)
  then show ?case by blast
qed auto

lemma str_len_groups: "v \<in> groups \<Longrightarrow> length v \<le> str_len m (v @ u)"
proof (induction arbitrary: m rule: star.induct)
  case (star_App g v)
  from star_App(1) consider "g = ''/''" |
    c ds where "g = CHR ''/'' # c # ds" "nondigit c" "list_all noslash ds" by (auto simp: group_iff)
  then show ?case
  proof cases
    case 1
    with star_App.IH show ?thesis by (simp add: is_digit_def)
  next
    case 2
    let ?m = "if c = CHR ''/'' then Either else InRun"
    obtain m' where "str_len ?m (ds @ v @ u) = length ds + str_len m' (v @ u)"
      using str_len_run [OF 2(3), of ?m "v @ u"] by (metis str_mode.distinct(1,5))
    with 2 star_App.IH [of m'] show ?thesis
      by (auto simp: nondigit_def is_digit_def split: if_splits)
  qed
qed simp

lemma str_len_found:
  "\<exists>ds v. take (str_len InRun cs) cs = ds @ v \<and> list_all noslash ds \<and> v \<in> groups"
  "CHR ''/'' # take (str_len AtSlash cs) cs \<in> groups"
  "CHR ''/'' # CHR ''/'' # take (str_len Either cs) cs \<in> groups"
proof (induction cs)
  case Nil
  { case 1 then show ?case by (auto intro: star_Nil) }
  { case 2 then show ?case by (simp add: groups_slash star_Nil) }
  { case 3 then show ?case by (simp add: groups_slash star_Nil) }
next
  case (Cons c cs)
  have slash: "nondigit (CHR ''/'')" by (simp add: nondigit_def is_digit_def)
  obtain ds v where r: "take (str_len InRun cs) cs = ds @ v" "list_all noslash ds" "v \<in> groups" using Cons.IH(1) by blast
  { case 1
    consider "c = CHR ''/''" | "c = SP \<or> c = LF" | "noslash c" by (auto simp: noslash_def)
    then show ?case
    proof cases
      case 1
      with Cons.IH(2) show ?thesis
        by (intro exI [of _ "[]"] exI [of _ "CHR ''/'' # take (str_len AtSlash cs) cs"]) simp
    next
      case 2
      then show ?thesis by (intro exI [of _ "[]"]) (auto intro: star_Nil)
    next
      case 3
      then have "take (str_len InRun (c # cs)) (c # cs) = (c # ds) @ v" using r(1) by (simp add: noslash_def)
      with 3 r(2,3) show ?thesis by (intro exI [of _ "c # ds"] exI [of _ v]) simp
    qed }
  { case 2
    have "CHR ''/'' # c # ds @ v \<in> groups" if "nondigit c" using groups_word [OF that r(2,3)] .
    then show ?case using Cons.IH(3) r(1) by (auto simp: nondigit_def groups_slash star_Nil) }
  { case 3
    have "CHR ''/'' # CHR ''/'' # c # ds @ v \<in> groups" if "noslash c"
      using groups_word [OF slash, of "c # ds" v] that r(2,3) by simp
    then show ?case using Cons.IH(3) r(1) by (auto simp: noslash_def groups_slash star_Nil) }
qed


lemma lang_Str: "w \<in> lang (pattern Str) \<longleftrightarrow> (\<exists>c ds v. w = c # ds @ v \<and> nondigit c \<and> list_all noslash ds \<and> v \<in> groups)"
proof
  assume "w \<in> lang (pattern Str)"
  then obtain x v where "w = x @ v" "x \<in> lang Word" "v \<in> groups" by (auto simp: lang_Seq)
  then show "\<exists>c ds v. w = c # ds @ v \<and> nondigit c \<and> list_all noslash ds \<and> v \<in> groups"
    by (cases x) (auto simp: pattern_parts)
next
  assume "\<exists>c ds v. w = c # ds @ v \<and> nondigit c \<and> list_all noslash ds \<and> v \<in> groups"
  then obtain c ds v where w: "w = c # ds @ v" "nondigit c" "list_all noslash ds" "v \<in> groups" by blast
  then show "w \<in> lang (pattern Str)"
    using lang_SeqI [of "c # ds" Word v "Star (Seq Slash (Alt Eps Word))"] by (simp add: pattern_parts)
qed

lemma str_longest: "longest_match (rule_match Str) (lang (pattern Str))"
proof
  fix s n assume "rule_match Str s = Some n"
  then obtain c cs where s: "s = c # cs" "nondigit c" "n = Suc (str_len InRun cs)"
    by (auto split: list.splits if_splits)
  obtain ds v where "take (str_len InRun cs) cs = ds @ v" "list_all noslash ds" "v \<in> groups"
    using str_len_found(1) by blast
  moreover have "str_len m cs \<le> length cs" for m
    by (induction m cs rule: str_len.induct) (simp_all del: One_nat_def)
  ultimately show "\<exists>w u. s = w @ u \<and> length w = n \<and> w \<in> lang (pattern Str)"
  proof -
    assume r: "take (str_len InRun cs) cs = ds @ v" "list_all noslash ds" "v \<in> groups"
      and len: "\<And>m. str_len m cs \<le> length cs"
    from r s have "take n s \<in> lang (pattern Str)" unfolding lang_Str by auto
    moreover from len [of InRun] s have "length (take n s) = n" by simp
    ultimately show ?thesis by (metis append_take_drop_id)
  qed
next
  fix w u assume "w \<in> lang (pattern Str)"
  then obtain c ds v where w: "w = c # ds @ v" "nondigit c" "list_all noslash ds" "v \<in> groups"
    by (auto simp: lang_Str simp del: pattern.simps)
  obtain m where "str_len InRun (ds @ v @ u) = length ds + str_len m (v @ u)"
    using str_len_run [OF w(3), of InRun] by blast
  with w str_len_groups [OF w(4), of m u] show "\<exists>n. rule_match Str (w @ u) = Some n \<and> length w \<le> n" by simp
qed

lemma ip_longest: "longest_match (rule_match Ip) (lang (pattern Ip))"
proof
  fix s n assume "rule_match Ip s = Some n"
  then obtain t r where t: "match_ip 3 s = Some (t, r)" "n = length t" by (simp only: rule_match.simps map_option_eq_Some) auto
  have "s = t @ r" using match_ip_suffix [OF t(1)] by blast
  moreover have "t \<in> lang (pattern Ip)" unfolding pattern_Ip by (rule match_ip_found [OF t(1)])
  ultimately show "\<exists>w u. s = w @ u \<and> length w = n \<and> w \<in> lang (pattern Ip)" using t(2) by blast
next
  fix w u assume "w \<in> lang (pattern Ip)"
  then obtain t r where "match_ip 3 (w @ u) = Some (t, r)" "length w \<le> length t"
    unfolding pattern_Ip using match_ip_most by blast
  then show "\<exists>n. rule_match Ip (w @ u) = Some n \<and> length w \<le> n" by (simp only: rule_match.simps) simp
qed

text \<open>The rules that match \<open>k\<close> characters and then a run of others, and those that match \<open>k\<close> characters.\<close>

lemma run_longest:
  assumes "\<And>w. w \<in> L \<longleftrightarrow> k \<le> length w \<and> pre (take k w) \<and> list_all P (drop k w)"
    and "\<And>s. f s = (if k \<le> length s \<and> pre (take k s) then Some (k + length (takeWhile P (drop k s))) else None)"
  shows "longest_match f L"
proof
  fix s n assume "f s = Some n"
  then have n: "k \<le> length s" "pre (take k s)" "n = k + length (takeWhile P (drop k s))"
    by (auto simp: assms(2) split: if_splits)
  let ?w = "take k s @ takeWhile P (drop k s)"
  have "?w \<in> L" using n by (auto simp: assms(1) list_all_iff dest: set_takeWhileD)
  moreover have "s = ?w @ dropWhile P (drop k s)" by simp
  ultimately show "\<exists>w u. s = w @ u \<and> length w = n \<and> w \<in> L" using n by (metis length_append length_take min_absorb2)
next
  fix w u assume "w \<in> L"
  then have w: "k \<le> length w" "pre (take k w)" "list_all P (drop k w)" using assms(1) by blast+
  then have "f (w @ u) = Some (k + length (drop k w @ takeWhile P u))"
    by (simp add: assms(2) takeWhile_all)
  with w show "\<exists>n. f (w @ u) = Some n \<and> length w \<le> n" by simp
qed

lemma fixed_longest:
  assumes "\<And>w. w \<in> L \<longleftrightarrow> length w = k \<and> pre w"
    and "\<And>s. f s = (if k \<le> length s \<and> pre (take k s) then Some k else None)"
  shows "longest_match f L"
proof (rule run_longest [where P = "\<lambda>_. False" and pre = pre and k = k])
  have "takeWhile (\<lambda>_. False) u = []" for u :: string by (cases u) simp_all
  with assms(2) show "f s = (if k \<le> length s \<and> pre (take k s)
      then Some (k + length (takeWhile (\<lambda>_. False) (drop k s))) else None)" for s by simp
qed (auto simp: assms(1) list_all_iff)

lemma char_longest:
  assumes "\<And>s. f s = (case s of [] \<Rightarrow> None | d # ds \<Rightarrow> if d = c then Some 1 else None)"
  shows "longest_match f (lang (Chars (\<lambda>d. d = c)))"
proof (rule fixed_longest [where pre = "\<lambda>p. p = [c]" and k = 1])
  show "f s = (if 1 \<le> length s \<and> take 1 s = [c] then Some 1 else None)" for s by (cases s) (auto simp: assms)
qed auto

lemma key_longest: "longest_match (rule_match (Key t)) (lang (pattern (Key t)))"
  by (rule fixed_longest [where pre = "\<lambda>p. p = keyword t" and k = "length (keyword t)"])
    (auto, metis length_take min.cobounded1)

lemma lang_Time: "w \<in> lang (pattern Time) \<longleftrightarrow> length w = 8 \<and> is_time w"
proof
  assume "w \<in> lang (pattern Time)"
  then show "length w = 8 \<and> is_time w" by (auto simp: pattern_parts lang_Seq_Chars_iff is_time_def)
next
  assume t: "length w = 8 \<and> is_time w"
  then obtain a b c d e f g h where "w = [a, b, c, d, e, f, g, h]"
    by (auto simp: length_Suc_conv numeral_eq_Suc)
  with t show "w \<in> lang (pattern Time)" by (simp add: pattern_parts is_time_def)
qed

lemma time_longest: "longest_match (rule_match Time) (lang (pattern Time))"
  by (rule fixed_longest [where pre = is_time and k = 8, OF lang_Time]) (auto simp: is_time_def)

lemma num_longest: "longest_match (rule_match Num) (lang (pattern Num))"
proof (rule run_longest [where P = is_digit and k = 1 and pre = "\<lambda>p. is_digit (hd p)"])
  show "w \<in> lang (pattern Num) \<longleftrightarrow> 1 \<le> length w \<and> is_digit (hd (take 1 w)) \<and> list_all is_digit (drop 1 w)" for w
    by (cases w) (auto simp: pattern_parts)
  show "rule_match Num s = (if 1 \<le> length s \<and> is_digit (hd (take 1 s))
      then Some (1 + length (takeWhile is_digit (drop 1 s))) else None)" for s
    by (cases s) auto
qed

lemma port_longest: "longest_match (rule_match Port) (lang (pattern Port))"
proof (rule run_longest [where P = is_digit and k = 2 and
      pre = "\<lambda>p. p ! 0 = CHR ''/'' \<and> is_digit (p ! 1) \<and> p ! 1 \<noteq> CHR ''0''"])
  show "w \<in> lang (pattern Port) \<longleftrightarrow> 2 \<le> length w \<and> (take 2 w ! 0 = CHR ''/'' \<and> is_digit (take 2 w ! 1) \<and>
      take 2 w ! 1 \<noteq> CHR ''0'') \<and> list_all is_digit (drop 2 w)" for w
    by (cases w; cases "tl w") (auto simp: pattern_parts)
  show "rule_match Port s = (if 2 \<le> length s \<and> (take 2 s ! 0 = CHR ''/'' \<and> is_digit (take 2 s ! 1) \<and>
      take 2 s ! 1 \<noteq> CHR ''0'') then Some (2 + length (takeWhile is_digit (drop 2 s))) else None)" for s
    by (cases s; cases "tl s") auto
qed

lemma takeWhile_LF: "LF \<notin> set xs \<Longrightarrow> takeWhile (\<lambda>c. c \<noteq> LF) (xs @ LF # ys) = xs"
  by (rule takeWhile_digits) (auto simp: list_all_iff)

lemma line_longest: "longest_match (rule_match Line) (lang (pattern Line))"
proof
  fix s n assume "rule_match Line s = Some n"
  then have "LF \<in> set s" and n: "n = Suc (length (takeWhile (\<lambda>c. c \<noteq> LF) s))" by (auto split: if_splits)
  then obtain xs ys where s: "s = xs @ LF # ys" "LF \<notin> set xs" by (meson split_list_first)
  have "xs \<in> lang (Star (Chars (\<lambda>c. c \<noteq> LF)))" using s(2) by (auto simp: star_chars list_all_iff)
  with lang_SeqI [of xs _ "[LF]" "Chars (\<lambda>c. c = LF)"] have "xs @ [LF] \<in> lang (pattern Line)" by simp
  moreover have "n = length (xs @ [LF])" using n s by (simp add: takeWhile_LF)
  ultimately show "\<exists>w u. s = w @ u \<and> length w = n \<and> w \<in> lang (pattern Line)" using s(1)
    by (intro exI [of _ "xs @ [LF]"] exI [of _ ys]) simp
next
  fix w u assume "w \<in> lang (pattern Line)"
  then obtain xs where "w = xs @ [LF]" "LF \<notin> set xs" by (auto simp: lang_Seq star_chars list_all_iff)
  then show "\<exists>n. rule_match Line (w @ u) = Some n \<and> length w \<le> n" by (simp add: takeWhile_LF)
qed

lemma rule_longest: "longest_match (rule_match r) (lang (pattern r))"
  by (cases r)
    (simp_all only: key_longest time_longest num_longest ip_longest port_longest str_longest line_longest,
     simp_all only: pattern.simps, (rule char_longest, simp)+)

interpretation rl: longest_match "rule_match r" "lang (pattern r)" for r
  by (rule rule_longest)


text \<open>What the choice of flex is: a longest match, of the first rule that has one of that length.\<close>

definition flex_choice :: "lex_rule list \<Rightarrow> start_cond \<Rightarrow> bool \<Rightarrow> string \<Rightarrow> (nat \<times> lex_rule) option \<Rightarrow> bool" where
  "flex_choice rs q bol s ch \<longleftrightarrow>
     (let matches = (\<lambda>r m. rule_active q bol r \<and> m \<le> length s \<and> take m s \<in> lang (pattern r)) in
      case ch of None \<Rightarrow> \<forall>r m. r \<in> set rs \<longrightarrow> \<not> matches r m
      | Some (n, r) \<Rightarrow> \<exists>us vs. rs = us @ r # vs \<and> matches r n \<and>
          (\<forall>r' m. r' \<in> set rs \<and> matches r' m \<longrightarrow> m \<le> n) \<and> (\<forall>r'. r' \<in> set us \<longrightarrow> \<not> matches r' n))"

lemma flex_choice_skip:
  assumes "flex_choice rs q bol s ch"
    and none: "\<And>m. \<not> (rule_active q bol r \<and> m \<le> length s \<and> take m s \<in> lang (pattern r))"
  shows "flex_choice (r # rs) q bol s ch"
proof (cases ch)
  case None
  with assms show ?thesis by (simp add: flex_choice_def)
next
  case (Some nr)
  obtain n r' where nr: "nr = (n, r')" by (cases nr) auto
  from assms(1) obtain us vs where "rs = us @ r' # vs" and m: "rule_active q bol r'" "n \<le> length s" "take n s \<in> lang (pattern r')"
      "\<forall>x k. x \<in> set rs \<and> rule_active q bol x \<and> k \<le> length s \<and> take k s \<in> lang (pattern x) \<longrightarrow> k \<le> n"
      "\<forall>x. x \<in> set us \<longrightarrow> \<not> (rule_active q bol x \<and> n \<le> length s \<and> take n s \<in> lang (pattern x))"
    unfolding Some nr flex_choice_def Let_def option.case prod.case by blast
  then have "r # rs = (r # us) @ r' # vs" by simp
  moreover have "\<forall>x k. x \<in> set (r # rs) \<and> rule_active q bol x \<and> k \<le> length s \<and> take k s \<in> lang (pattern x) \<longrightarrow> k \<le> n"
    using m(4) none by auto
  moreover have "\<forall>x. x \<in> set (r # us) \<longrightarrow> \<not> (rule_active q bol x \<and> n \<le> length s \<and> take n s \<in> lang (pattern x))"
    using m(5) none [of n] by auto
  ultimately show ?thesis using m(1-3)
    unfolding Some nr flex_choice_def Let_def option.case prod.case by blast
qed

lemma flex_choice_first:
  assumes "rule_active q bol r" "n \<le> length s" "take n s \<in> lang (pattern r)"
    and "\<forall>x k. x \<in> set (r # rs) \<and> rule_active q bol x \<and> k \<le> length s \<and> take k s \<in> lang (pattern x) \<longrightarrow> k \<le> n"
  shows "flex_choice (r # rs) q bol s (Some (n, r))"
  unfolding flex_choice_def Let_def option.case prod.case
  by (rule exI [of _ "[]"], rule exI [of _ rs]) (use assms in simp)

lemma flex_choice_pick:
  "flex_choice rs q bol s
     (pick (List.map_filter (\<lambda>r. if rule_active q bol r then map_option (\<lambda>n. (n, r)) (rule_match r s) else None) rs))"
  (is "flex_choice rs q bol s (?p rs)")
proof (induction rs)
  case Nil
  then show ?case by (simp add: flex_choice_def map_filter_def)
next
  case (Cons r rs)
  let ?m = "\<lambda>r m. rule_active q bol r \<and> m \<le> length s \<and> take m s \<in> lang (pattern r)"
  show ?case
  proof (cases "rule_active q bol r \<and> rule_match r s \<noteq> None")
    case False
    then have none: "\<not> ?m r m" for m using rl.most [of "take m s" r "drop m s"] by auto
    have "?p (r # rs) = ?p rs" using False by (auto simp: map_filter_def)
    with Cons flex_choice_skip [OF _ none] show ?thesis by simp
  next
    case True
    then obtain n where act: "rule_active q bol r" and n: "rule_match r s = Some n" by auto
    note best = n [unfolded rl.match_iff]
    have step: "?p (r # rs) = (case ?p rs of None \<Rightarrow> Some (n, r) | Some (m, r') \<Rightarrow> if n < m then Some (m, r') else Some (n, r))"
      using act n by (simp add: map_filter_def)
    show ?thesis
    proof (cases "?p rs")
      case None
      then have "\<forall>x k. x \<in> set (r # rs) \<and> ?m x k \<longrightarrow> k \<le> n"
        using Cons best by (auto simp: flex_choice_def)
      with None step act best flex_choice_first [of q bol r n s rs] show ?thesis by simp
    next
      case (Some mr)
      obtain m r' where mr: "mr = (m, r')" by (cases mr) auto
      with Cons Some obtain us vs where rs: "rs = us @ r' # vs" "?m r' m" "\<forall>x k. x \<in> set rs \<and> ?m x k \<longrightarrow> k \<le> m"
          "\<forall>x. x \<in> set us \<longrightarrow> \<not> ?m x m"
        by (auto simp: flex_choice_def Let_def)
      show ?thesis
      proof (cases "n < m")
        case True
        then have "\<forall>x. x \<in> set (r # us) \<longrightarrow> \<not> ?m x m" using best rs(4) by auto
        moreover have "\<forall>x k. x \<in> set (r # rs) \<and> ?m x k \<longrightarrow> k \<le> m" using best rs(3) True by fastforce
        moreover have "r # rs = (r # us) @ r' # vs" using rs(1) by simp
        moreover have "?p (r # rs) = Some (m, r')" using step Some mr True by simp
        ultimately show ?thesis using rs(2)
          unfolding flex_choice_def Let_def by (simp only: option.case prod.case) blast
      next
        case False
        then have "\<forall>x k. x \<in> set (r # rs) \<and> ?m x k \<longrightarrow> k \<le> n" using best rs(3) by fastforce
        with Some mr False step act best flex_choice_first [of q bol r n s rs] show ?thesis by simp
      qed
    qed
  qed
qed


text \<open>C17: the scanner follows its patterns.  Among the rules that are active in its start condition it takes
  one that matches the longest part of the rest of the input, the first of those in the file, and
  it finds no rule only when none matches.\<close>

theorem scanner_longest_match: "flex_choice lex_rules q bol s (pick (candidates q bol s))"
  unfolding candidates_def by (rule flex_choice_pick)

section \<open>Scanning comes to an end\<close>

lemma pick_in: "pick xs = Some x \<Longrightarrow> x \<in> set xs"
  by (induction xs arbitrary: x rule: pick.induct) (auto split: option.splits if_splits)

lemma picked:
  assumes "pick (candidates q bol s) = Some (n, r)"
  shows "r \<in> set lex_rules" "rule_active q bol r" "rule_match r s = Some n"
  using pick_in [OF assms] by (auto simp: candidates_def map_filter_def split: if_splits)

lemma picked_pos:
  assumes "pick (candidates q bol s) = Some (n, r)"
  shows "0 < n" "n \<le> length s"
proof -
  have "r \<in> set lex_rules \<Longrightarrow> rule_match r s = Some n \<Longrightarrow> 0 < n"
    by (cases r) (auto simp: lex_rules_def split: if_splits nat.splits list.splits dest: match_ip_suffix)
  then show "0 < n" using picked [OF assms] by blast
  show "n \<le> length s" using rl.match_take [OF picked(3) [OF assms]] by blast
qed

text \<open>The scanner stands at the empty line of a message.\<close>

definition at_empty_message :: "lexer \<Rightarrow> bool" where
  "at_empty_message l \<longleftrightarrow> lx_start l = In_message \<and> lx_bol l \<and> (case lx_rest l of [] \<Rightarrow> False | c # cs \<Rightarrow> c = LF)"

lemma lex_step_takes:
  assumes "lex_step l = Some (t, l')" and "\<not> at_empty_message l"
  shows "\<exists>w. w \<noteq> [] \<and> lx_rest l = w @ lx_rest l' \<and> (lx_bol l' \<longrightarrow> last w = LF)"
proof -
  obtain c cs where s: "lx_rest l = c # cs" using assms(1) by (auto simp: lex_step_def split: list.splits)
  show ?thesis
  proof (cases "pick (candidates (lx_start l) (lx_bol l) (c # cs))")
    case None
    with assms(1) s show ?thesis by (auto simp: lex_step_def intro!: exI [of _ "[c]"])
  next
    case (Some nr)
    obtain n r where nr: "nr = (n, r)" by (cases nr) auto
    let ?k = "if r = Line then n - 1 else n"
    note p = picked [OF Some [unfolded nr]] picked_pos [OF Some [unfolded nr]]
    have "0 < ?k"
    proof (cases "r = Line")
      case True
      with p(2) assms(2) s have "c \<noteq> LF" by (auto simp: at_empty_message_def)
      with p(3) True show ?thesis by (auto split: if_splits)
    qed (use p(4) in simp)
    moreover have "lx_rest l' = drop ?k (c # cs)" "lx_bol l' = (if take ?k (c # cs) = [] then lx_bol l else last (take ?k (c # cs)) = LF)"
      using assms(1) s Some nr by (auto simp: lex_step_def Let_def split: prod.splits)
    ultimately show ?thesis using s by (intro exI [of _ "take ?k (c # cs)"]) simp
  qed
qed

lemma lex_step_empty_message:
  assumes "at_empty_message l"
  shows "lex_step l = Some (Some (T_STRING []), l)"
proof -
  obtain cs where s: "lx_rest l = LF # cs" using assms by (auto simp: at_empty_message_def split: list.splits)
  have "candidates In_message True (LF # cs) = [(1, Line), (1, In_newline)]"
    by (simp add: candidates_def lex_rules_def map_filter_def)
  with assms s show ?thesis by (cases l) (simp add: lex_step_def at_empty_message_def)
qed

lemma lex_all_empty_message:
  assumes "at_empty_message l"
  shows "lex_all l = None"
proof -
  have "lex_all l = Some y \<Longrightarrow> \<not> at_empty_message l" for l y
  proof (erule lex_all.raw_induct [where P = "\<lambda>l y. \<not> at_empty_message l", rotated])
    fix f :: "lexer \<Rightarrow> (token list \<times> start_cond) option" and l y
    assume IH: "\<And>l y. f l = Some y \<Longrightarrow> \<not> at_empty_message l"
      and "(case lex_step l of None \<Rightarrow> Some ([], lx_start l)
        | Some (t, l') \<Rightarrow> Option.bind (f l') (\<lambda>(ts, q). Some (case t of None \<Rightarrow> ts | Some t' \<Rightarrow> t' # ts, q))) = Some y"
    then show "\<not> at_empty_message l" using lex_step_empty_message [of l] by (auto simp: bind_eq_Some_conv)
  qed
  with assms show ?thesis by (cases "lex_all l") auto
qed

fun blank_line :: "string \<Rightarrow> bool" where
  "blank_line (c # d # cs) \<longleftrightarrow> c = LF \<and> d = LF \<or> blank_line (d # cs)"
| "blank_line _ \<longleftrightarrow> False"

lemma blank_line_suffix: "blank_line v \<Longrightarrow> blank_line (w @ v)"
  by (induction w) (auto elim: blank_line.elims)

lemma lex_all_ends:
  assumes "\<not> blank_line (lx_rest l)" and "\<not> at_empty_message l"
  shows "\<exists>ts q. lex_all l = Some (ts, q)"
  using assms
proof (induction "length (lx_rest l)" arbitrary: l rule: less_induct)
  case less
  show ?case
  proof (cases "lex_step l")
    case None
    then show ?thesis by (subst lex_all.simps) simp
  next
    case (Some tl)
    obtain t l' where tl: "tl = (t, l')" by (cases tl) auto
    obtain w where w: "w \<noteq> []" "lx_rest l = w @ lx_rest l'" "lx_bol l' \<longrightarrow> last w = LF"
      using lex_step_takes [OF Some [unfolded tl] less.prems(2)] by blast
    have "\<not> blank_line (lx_rest l')" using less.prems(1) w(2) blank_line_suffix by metis
    moreover have "\<not> at_empty_message l'"
    proof
      assume "at_empty_message l'"
      then obtain r where r: "lx_rest l' = LF # r" "last w = LF"
        using w(3) by (auto simp: at_empty_message_def split: list.splits)
      then have "lx_rest l = butlast w @ LF # LF # r" using w(1,2) by (metis append.assoc append_Cons append_Nil append_butlast_last_id)
      with less.prems(1) blank_line_suffix [of "LF # LF # r" "butlast w"] show False by simp
    qed
    ultimately obtain ts q where "lex_all l' = Some (ts, q)" using less.hyps [of l'] w by auto
    with Some tl show ?thesis by (subst lex_all.simps) simp
  qed
qed

text \<open>The same for all that comes through the FIFO: a piece that ends in the middle of a report must not be followed by
  one that begins with a line end either, since behind \<open>MESSAGE\<close> that is an empty message.\<close>

definition calm :: "input list \<Rightarrow> bool" where
  "calm ins \<longleftrightarrow> (\<forall>w \<in> set (pieces [] ins). \<not> blank_line (LF # w))"

lemma lex_pieces_ends:
  assumes "\<forall>w \<in> set ws. \<not> blank_line (LF # w)"
  shows "\<exists>ts. lex_pieces q ws = Some ts"
  using assms
proof (induction ws arbitrary: q)
  case (Cons w ws)
  let ?l = "\<lparr>lx_start = q, lx_bol = True, lx_rest = w\<rparr>"
  have w: "\<not> blank_line (LF # w)" using Cons.prems by simp
  have "\<not> blank_line (lx_rest ?l) \<and> \<not> at_empty_message ?l"
  proof (cases w)
    case (Cons c cs)
    with w show ?thesis by (simp add: at_empty_message_def)
  qed (simp add: at_empty_message_def)
  then have "\<not> blank_line (lx_rest ?l)" "\<not> at_empty_message ?l" by blast+
  from lex_all_ends [OF this] obtain ts q' where "lex_all ?l = Some (ts, q')" by blast
  moreover obtain us where "lex_pieces q' ws = Some us" using Cons.IH [of q'] Cons.prems by auto
  ultimately show ?case by simp
qed simp

lemma lex_input_ends: "calm ins \<Longrightarrow> \<exists>ts. lex_input q ins = Some ts"
  unfolding lex_input_def calm_def by (rule lex_pieces_ends)

text \<open>C21: scanning comes to an end.  Whatever characters are in the FIFO, the scanner reaches their end, as
  long as there is no empty line.\<close>

theorem scanner_ends:
  assumes "\<not> blank_line s"
  shows "\<exists>ts q. lex_all \<lparr>lx_start = INITIAL, lx_bol = True, lx_rest = s\<rparr> = Some (ts, q)"
  using lex_all_ends [of "\<lparr>lx_start = INITIAL, lx_bol = True, lx_rest = s\<rparr>"] assms
  by (simp add: at_empty_message_def)

lemma scanner_ends_witness:
  "\<exists>ts q. lex_all \<lparr>lx_start = INITIAL, lx_bol = True, lx_rest = ''STATE'' @ LF # ''UP'' @ [LF]\<rparr> = Some (ts, q)"
  using scanner_ends [of "''STATE'' @ LF # ''UP'' @ [LF]"] by simp

section \<open>Tokens of a printed report\<close>

abbreviation lexer_at :: "start_cond \<Rightarrow> bool \<Rightarrow> string \<Rightarrow> lexer" where
  "lexer_at q bol s \<equiv> \<lparr>lx_start = q, lx_bol = bol, lx_rest = s\<rparr>"

lemma pick_bound: "\<forall>(m, r') \<in> set xs. m \<le> n \<Longrightarrow> pick ((n, r) # xs) = Some (n, r)"
  using pick_in [of xs] by (fastforce split: option.splits)

lemma pick_skip: "\<forall>(m, r') \<in> set us. m < n \<Longrightarrow> pick xs = Some (n, r) \<Longrightarrow> pick (us @ xs) = Some (n, r)"
proof (induction us)
  case (Cons u us)
  then show ?case by (cases u) simp
qed simp

lemma pick_rule:
  assumes "lex_rules = us @ r # vs" and "rule_active q bol r" and "rule_match r s = Some n"
    and "\<And>x m. x \<in> set us \<Longrightarrow> rule_active q bol x \<Longrightarrow> rule_match x s = Some m \<Longrightarrow> m < n"
    and "\<And>x m. x \<in> set vs \<Longrightarrow> rule_active q bol x \<Longrightarrow> rule_match x s = Some m \<Longrightarrow> m \<le> n"
  shows "pick (candidates q bol s) = Some (n, r)"
proof -
  let ?f = "\<lambda>r. if rule_active q bol r then map_option (\<lambda>n. (n, r)) (rule_match r s) else None"
  have "candidates q bol s = List.map_filter ?f us @ (n, r) # List.map_filter ?f vs"
    unfolding candidates_def assms(1) using assms(2,3) by (simp add: map_filter_def)
  moreover have "\<forall>(m, r') \<in> set (List.map_filter ?f us). m < n" "\<forall>(m, r') \<in> set (List.map_filter ?f vs). m \<le> n"
    using assms(4,5) by (auto simp: map_filter_def split: if_splits)
  ultimately show ?thesis using pick_skip pick_bound by simp
qed

lemma lex_step_rule:
  assumes "pick (candidates q bol (w @ s)) = Some (length w, r)" and "r \<noteq> Line"
  shows "lex_step (lexer_at q bol (w @ s)) =
    Some (fst (rule_action r w q), lexer_at (snd (rule_action r w q)) (last w = LF) s)"
proof -
  have w: "w \<noteq> []" using picked_pos [OF assms(1)] by auto
  then obtain c cs where c: "w @ s = c # cs" by (cases w) auto
  have "take (length w) (c # cs) = w" "drop (length w) (c # cs) = s" by (simp_all flip: c)
  with assms w show ?thesis by (simp add: lex_step_def c Let_def split: prod.splits)
qed

lemma lex_all_step:
  assumes "lex_step l = Some (Some t, l')"
  shows "lex_all l = map_option (\<lambda>(ts, q). (t # ts, q)) (lex_all l')"
  using assms by (subst lex_all.simps) (auto simp: map_option_case split: option.splits)

lemma lex_all_blank:
  assumes "lex_step l = Some (None, l')"
  shows "lex_all l = lex_all l'"
  using assms by (subst lex_all.simps) (auto split: option.splits)

lemma letters [simp]:
  "\<not> is_digit (CHR ''S'')" "\<not> is_digit (CHR ''I'')" "\<not> is_digit (CHR ''L'')" "\<not> is_digit (CHR ''Q'')"
  "\<not> is_digit (CHR ''E'')" "\<not> is_digit (CHR ''M'')" "\<not> is_digit (CHR '':'')" "\<not> is_digit LF" "\<not> is_digit SP" "\<not> is_digit (CHR ''/'')"
  by (simp_all add: is_digit_def)

text \<open>The first character excludes rules.\<close>

lemma first_char [simp]:
  "\<not> is_digit c \<Longrightarrow> rule_match Time (c # s) = None" "\<not> is_digit c \<Longrightarrow> rule_match Num (c # s) = None"
  "\<not> is_digit c \<Longrightarrow> rule_match Ip (c # s) = None" "c \<noteq> CHR ''/'' \<Longrightarrow> rule_match Port (c # s) = None"
  by (auto simp: is_time_def numeral_3_eq_3 split: list.splits)

declare rule_match.simps(2-5) [simp del]

lemma first_char_key [simp]: "k # ks = keyword t \<Longrightarrow> c \<noteq> k \<Longrightarrow> rule_match (Key t) (c # s) = None"
  by (cases "keyword t") auto

lemmas scan_simps = candidates_def lex_rules_def map_filter_def nondigit_def

lemma step_newline:
  assumes "q \<noteq> In_message"
  shows "lex_step (lexer_at q b (LF # r)) = Some (Some T_NEWLINE, lexer_at (if q = Pre_message then In_message else q) True r)"
proof -
  let ?r = "if q = Pre_message then Pre_newline else Newline"
  have "pick (candidates q b ([LF] @ r)) = Some (length [LF], ?r)"
    using assms by (cases q; cases b) (simp_all add: scan_simps)
  from lex_step_rule [OF this] assms show ?thesis by auto
qed

lemma step_blank:
  assumes "q \<noteq> In_message"
  shows "lex_step (lexer_at q b (SP # r)) = Some (None, lexer_at q False r)"
proof -
  have "pick (candidates q b ([SP] @ r)) = Some (length [SP], Blank)"
    using assms by (cases q; cases b) (simp_all add: scan_simps)
  from lex_step_rule [OF this] show ?thesis by auto
qed

lemma step_key:
  assumes "t \<in> {T_STATE, T_INTERFACE, T_STATUS, T_LOAD, T_QUEUE, T_ENDQUEUE, T_MESSAGE}"
  shows "lex_step (lexer_at INITIAL True (keyword t @ LF # r)) =
    Some (Some t, lexer_at (if t = T_MESSAGE then Pre_message else INITIAL) False (LF # r))"
proof -
  have "pick (candidates INITIAL True (keyword t @ LF # r)) = Some (length (keyword t), Key t)"
    using assms by (elim insertE emptyE) (simp_all add: scan_simps)
  from lex_step_rule [OF this] assms show ?thesis by auto
qed

lemma step_message:
  assumes "LF \<notin> set m" and "m \<noteq> []"
  shows "lex_step (lexer_at In_message True (m @ LF # r)) = Some (Some (T_STRING m), lexer_at In_message False (LF # r))"
    and "lex_step (lexer_at In_message False (LF # r)) = Some (Some T_NEWLINE, lexer_at INITIAL True r)"
proof -
  obtain c cs where m: "m = c # cs" "c \<noteq> LF" using assms by (cases m) auto
  have "rule_match Line (m @ LF # r) = Some (Suc (length m))" using assms(1) by (simp add: takeWhile_LF)
  then have "pick (candidates In_message True (m @ LF # r)) = Some (Suc (length m), Line)"
    using m by (simp add: scan_simps del: rule_match.simps(8))
  moreover have "last m \<noteq> LF" using assms by (metis last_in_set)
  ultimately show "lex_step (lexer_at In_message True (m @ LF # r)) = Some (Some (T_STRING m), lexer_at In_message False (LF # r))"
    using m by (simp add: lex_step_def)
  have "pick (candidates In_message False ([LF] @ r)) = Some (length [LF], In_newline)" by (simp add: scan_simps)
  from lex_step_rule [OF this] show "lex_step (lexer_at In_message False (LF # r)) = Some (Some T_NEWLINE, lexer_at INITIAL True r)"
    by simp
qed


text \<open>At a digit only three rules can match.\<close>

lemma digit_not [simp]:
  assumes "is_digit d"
  shows "d \<noteq> CHR ''S''" "d \<noteq> CHR ''I''" "d \<noteq> CHR ''L''" "d \<noteq> CHR ''Q''" "d \<noteq> CHR ''E''" "d \<noteq> CHR ''M''"
    "d \<noteq> CHR ''/''" "d \<noteq> SP" "d \<noteq> LF" "\<not> nondigit d"
  using assms by (auto simp: nondigit_def)

lemma candidates_digit:
  assumes "is_digit d"
  shows "candidates INITIAL b (d # s) =
    List.map_filter (\<lambda>r. map_option (\<lambda>n. (n, r)) (rule_match r (d # s))) [Time, Num, Ip]"
  using assms by (cases b) (simp_all add: candidates_def lex_rules_def map_filter_def)

lemma time_shape:
  assumes "rule_match Time s = Some n"
  shows "\<exists>a b r. s = a # b # CHR '':'' # r \<and> is_digit a \<and> is_digit b \<and> n = 8"
proof -
  from assms have t: "is_time (take 8 s)" "n = 8" by (auto simp: rule_match.simps split: if_splits)
  then have "8 \<le> length s" by (auto simp: is_time_def)
  then obtain a b c r where "s = a # b # c # r" by (cases s; cases "tl s"; cases "tl (tl s)") auto
  with t show ?thesis by (auto simp: is_time_def)
qed

lemma no_time:
  assumes "list_all is_digit ds" and "\<not> is_digit c" and "c \<noteq> CHR '':''"
  shows "rule_match Time (ds @ c # r) = None"
proof (rule ccontr)
  assume "rule_match Time (ds @ c # r) \<noteq> None"
  then obtain a b v where s: "ds @ c # r = a # b # CHR '':'' # v" "is_digit a" "is_digit b" using time_shape by blast
  have "dropWhile is_digit (ds @ c # r) = c # r" using assms by (simp add: dropWhile_digits)
  with s assms(3) show False by simp
qed

lemma no_ip:
  assumes "list_all is_digit ds" and "\<not> is_digit c" and "c \<noteq> CHR ''.''"
  shows "rule_match Ip (ds @ c # r) = None"
  using assms by (simp add: rule_match.simps numeral_3_eq_3 takeWhile_digits)

lemma num_len:
  assumes "list_all is_digit ds" and "\<not> is_digit c" and "ds \<noteq> []"
  shows "rule_match Num (ds @ c # r) = Some (length ds)"
  using assms by (cases ds) (simp_all add: rule_match.simps takeWhile_digits)

lemma atoi_show: "n < 2 ^ 31 \<Longrightarrow> atoi (show_nat n) = int n"
proof -
  assume n: "n < 2 ^ 31"
  then have "int n < 2 ^ 31" "min (int n) (2 ^ 63 - 1) = int n" by auto
  then show ?thesis by (simp add: atoi_def signed_take_bit_int_eq_self)
qed

lemma show_nat_all: "list_all is_digit (show_nat n)"
  by (auto simp: list_all_iff dest: show_nat_digits)

lemma last_digit: "list_all P ds \<Longrightarrow> ds \<noteq> [] \<Longrightarrow> P (last ds)"
  by (simp add: list_all_iff)

lemma step_num:
  assumes "n < 2 ^ 31"
  shows "lex_step (lexer_at INITIAL b (show_nat n @ LF # r)) = Some (Some (T_NUM (int n)), lexer_at INITIAL False (LF # r))"
proof -
  let ?d = "show_nat n"
  obtain x xs where x: "?d = x # xs" "is_digit x" using show_nat_all [of n] by (cases ?d) auto
  have "rule_match Time (?d @ LF # r) = None" "rule_match Ip (?d @ LF # r) = None" "rule_match Num (?d @ LF # r) = Some (length ?d)"
    using show_nat_all [of n] by (simp_all add: no_time no_ip num_len)
  with x have "pick (candidates INITIAL b (?d @ LF # r)) = Some (length ?d, Num)"
    by (simp add: candidates_digit map_filter_def)
  moreover have "last ?d \<noteq> LF" using last_digit [OF show_nat_all] by auto
  ultimately show ?thesis using lex_step_rule [of INITIAL b ?d "LF # r" Num] atoi_show [OF assms] by simp
qed

lemma step_time:
  assumes "is_time w" and "\<not> is_digit c"
  shows "lex_step (lexer_at INITIAL b (w @ c # r)) = Some (Some (T_TIME w), lexer_at INITIAL False (c # r))"
proof -
  have l: "is_digit (last w)" using assms(1) by (cases "w = []") (auto simp: is_time_def last_conv_nth)
  obtain x y z where w: "w = x # y # CHR '':'' # z" "is_digit x" "is_digit y"
    using assms(1) by (cases w; cases "tl w"; cases "tl (tl w)") (auto simp: is_time_def)
  have "rule_match Time (w @ c # r) = Some (length w)" using assms(1) by (simp add: rule_match.simps is_time_def)
  moreover have "rule_match Num ([x, y] @ CHR '':'' # z @ c # r) = Some 2" "rule_match Ip ([x, y] @ CHR '':'' # z @ c # r) = None"
    using w num_len [of "[x, y]" "CHR '':''" "z @ c # r"] no_ip [of "[x, y]" "CHR '':''" "z @ c # r"] by simp_all
  ultimately have "pick (candidates INITIAL b (w @ c # r)) = Some (length w, Time)"
    using w assms(1) by (simp add: candidates_digit map_filter_def is_time_def)
  with lex_step_rule [of INITIAL b w "c # r" Time] l show ?thesis by auto
qed


lemma step_ip:
  assumes "length ds = 4" and "list_all digits ds" and "\<not> is_digit c"
  shows "lex_step (lexer_at INITIAL b (dotted ds @ c # r)) = Some (Some (T_IP (dotted ds)), lexer_at INITIAL False (c # r))"
proof -
  let ?w = "dotted ds"
  obtain d1 d2 d3 d4 where ds: "ds = [d1, d2, d3, d4]"
    using assms(1) by (auto simp: length_Suc_conv numeral_eq_Suc)
  then have d: "digits d1" "digits d4" using assms(2) by simp_all
  then obtain x xs where x: "d1 = x # xs" "is_digit x" by (cases d1) (auto simp: digits_def)
  have w: "?w @ c # r = d1 @ CHR ''.'' # d2 @ CHR ''.'' # d3 @ CHR ''.'' # d4 @ c # r" using ds by simp
  have "match_ip 3 (?w @ c # r) = Some (?w, c # r)" using assms by (intro match_ip_dotted) simp_all
  then have "rule_match Ip (?w @ c # r) = Some (length ?w)" by (simp add: rule_match.simps)
  moreover have "rule_match Time (?w @ c # r) = None" "rule_match Num (?w @ c # r) = Some (length d1)"
    using d(1) unfolding w by (auto simp: digits_def intro!: no_time num_len)
  moreover have "length d1 < length ?w" using ds by simp
  moreover have "candidates INITIAL b (?w @ c # r) =
      List.map_filter (\<lambda>q. map_option (\<lambda>n. (n, q)) (rule_match q (?w @ c # r))) [Time, Num, Ip]"
    unfolding w x by (simp only: append_Cons candidates_digit [OF x(2)])
  ultimately have "pick (candidates INITIAL b (?w @ c # r)) = Some (length ?w, Ip)"
    by (simp add: map_filter_def)
  moreover have "is_digit (last d4)" using d(2) last_digit by (auto simp: digits_def)
  then have "last ?w \<noteq> LF" using d(2) ds by (auto simp: digits_def)
  ultimately show ?thesis using lex_step_rule [of INITIAL b ?w "c # r" Ip] by simp
qed

lemma str_len_stop:
  assumes "list_all noslash ds" and "c = SP \<or> c = LF"
  shows "str_len InRun (ds @ c # r) = length ds"
  using assms by (induction ds) (auto simp: noslash_def)

lemma show_nat_hd: "0 < n \<Longrightarrow> \<exists>d ds. show_nat n = d # ds \<and> is_digit d \<and> d \<noteq> CHR ''0'' \<and> list_all is_digit ds"
proof (induction n rule: show_nat.induct)
  case (1 n)
  show ?case
  proof (cases "n < 10")
    case True
    have "list_all (\<lambda>n. 0 < n \<longrightarrow> is_digit (digit_char n) \<and> digit_char n \<noteq> CHR ''0'') [0..<10]" by code_simp
    with True 1(2) show ?thesis by (subst show_nat.simps) (auto simp: list_all_iff)
  next
    case False
    then have "0 < n div 10" by (simp add: div_greater_zero_iff)
    with 1 False obtain d ds where "show_nat (n div 10) = d # ds" "is_digit d" "d \<noteq> CHR ''0''" by auto
    with False show_nat_all [of n] show ?thesis by (subst show_nat.simps) (auto simp: show_nat.simps [of n])
  qed
qed

lemma step_port:
  assumes "0 < p" "p < 2 ^ 31" and "c = SP \<or> c = LF"
  shows "lex_step (lexer_at INITIAL b (CHR ''/'' # show_nat p @ c # r)) =
    Some (Some (T_PORT (int p)), lexer_at INITIAL False (c # r))"
proof -
  let ?w = "CHR ''/'' # show_nat p"
  obtain d ds where d: "show_nat p = d # ds" "is_digit d" "d \<noteq> CHR ''0''" "list_all is_digit ds"
    using show_nat_hd [OF assms(1)] by blast
  have "\<not> is_digit c" using assms(3) by auto
  with d have "rule_match Port (?w @ c # r) = Some (length ?w)" by (simp add: rule_match.simps takeWhile_digits)
  moreover have "list_all noslash (show_nat p)"
    using show_nat_all [of p] by (auto simp: list_all_iff noslash_def)
  then have "rule_match Str (?w @ c # r) = Some (length ?w)"
    using assms(3) by (simp add: str_len_stop nondigit_def)
  ultimately have "pick (candidates INITIAL b (?w @ c # r)) = Some (length ?w, Port)"
    by (cases b) (simp_all add: scan_simps del: rule_match.simps(7))
  moreover have "last ?w \<noteq> LF" using last_digit [OF show_nat_all [of p]] by auto
  ultimately show ?thesis using lex_step_rule [of INITIAL b ?w "c # r" Port] atoi_show [OF assms(2)] by simp
qed

text \<open>A word of a report: what the rule for strings takes as a whole and no keyword wants.\<close>

definition is_word :: "string \<Rightarrow> bool" where
  "is_word w \<longleftrightarrow> w \<noteq> [] \<and> nondigit (hd w) \<and> list_all noslash w \<and>
     w \<notin> set [''STATE'', ''INTERFACE'', ''STATUS'', ''LOAD'', ''QUEUE'', ''END'', ''MESSAGE'']"

lemma step_word:
  assumes "is_word w" and "c = SP \<or> c = LF"
  shows "lex_step (lexer_at INITIAL b (w @ c # r)) = Some (Some (T_STRING w), lexer_at INITIAL False (c # r))"
proof -
  obtain x xs where x: "w = x # xs" "nondigit x" "list_all noslash xs" "noslash x"
    using assms(1) by (cases w) (auto simp: is_word_def)
  have str: "rule_match Str (w @ c # r) = Some (length w)" using x assms(2) by (simp add: str_len_stop)
  have "pick (candidates INITIAL b (w @ c # r)) = Some (length w, Str)"
  proof (rule pick_rule [where vs = "[Line, Pre_newline, In_newline, Newline]", OF _ _ str])
    let ?us = "map Key [T_STATE, T_INTERFACE, T_STATUS, T_LOAD, T_QUEUE, T_ENDQUEUE, T_MESSAGE] @ [Time, Num, Ip, Port, Blank]"
    show "lex_rules = ?us @ Str # [Line, Pre_newline, In_newline, Newline]" by (simp add: lex_rules_def)
    fix q m assume q: "q \<in> set ?us" "rule_match q (w @ c # r) = Some m"
    show "m < length w"
    proof (cases q)
      case (Key t)
      then have k: "take (length (keyword t)) (w @ c # r) = keyword t" "m = length (keyword t)"
        using q(2) by (auto split: if_splits)
      have kw: "keyword t \<in> set [''STATE'', ''INTERFACE'', ''STATUS'', ''LOAD'', ''QUEUE'', ''END QUEUE'', ''MESSAGE'']"
        using q(1) Key by auto
      show ?thesis
      proof (rule ccontr)
        assume "\<not> m < length w"
        then have "keyword t = w @ take (m - length w) (c # r)" using k by simp
        moreover have "list_all noslash w" "\<not> noslash c" using assms by (auto simp: is_word_def noslash_def)
        ultimately have "takeWhile noslash (keyword t) = w"
          by (cases "m - length w") (simp_all add: takeWhile_digits takeWhile_eq_all_conv list_all_iff)
        moreover have "list_all (\<lambda>k. takeWhile noslash k \<in> set [''STATE'', ''INTERFACE'', ''STATUS'', ''LOAD'', ''QUEUE'', ''END'', ''MESSAGE''])
            [''STATE'', ''INTERFACE'', ''STATUS'', ''LOAD'', ''QUEUE'', ''END QUEUE'', ''MESSAGE'']" by code_simp
        ultimately show False using kw assms(1) unfolding is_word_def list_all_iff by blast
      qed
    qed (use q x in \<open>auto simp: nondigit_def noslash_def\<close>)
  qed (use x in \<open>auto simp: nondigit_def noslash_def\<close>)
  moreover have "last w \<noteq> LF" using x last_digit [of noslash w] by (auto simp: noslash_def)
  ultimately show ?thesis using lex_step_rule [of INITIAL b w "c # r" Str] by simp
qed


section \<open>An empty message\<close>

text \<open>A number of matches, with what each of them returns.\<close>

fun lex_steps :: "nat \<Rightarrow> lexer \<Rightarrow> (token option list \<times> lexer) option" where
  "lex_steps 0 l = Some ([], l)"
| "lex_steps (Suc n) l =
     (case lex_step l of None \<Rightarrow> None | Some (t, l') \<Rightarrow> map_option (\<lambda>(ts, l''). (t # ts, l'')) (lex_steps n l'))"

lemma lex_steps_loop: "lex_step l = Some (t, l) \<Longrightarrow> lex_steps n l = Some (replicate n t, l)"
  by (induction n) simp_all

text \<open>C38: an empty message hangs the client.  The pattern of a message line also matches no character
  at all, and it comes before the line end: behind the two tokens of the line \<open>MESSAGE\<close> the scanner returns
  an empty string each time it is called, however often, and stays where it is, so the end of the input is
  never reached.\<close>

theorem empty_message_hangs:
  "lex_steps (2 + n) \<lparr>lx_start = INITIAL, lx_bol = True, lx_rest = ''MESSAGE'' @ LF # LF # r\<rparr> =
     Some ([Some T_MESSAGE, Some T_NEWLINE] @ replicate n (Some (T_STRING [])),
       \<lparr>lx_start = In_message, lx_bol = True, lx_rest = LF # r\<rparr>) \<and>
   lex_all \<lparr>lx_start = INITIAL, lx_bol = True, lx_rest = ''MESSAGE'' @ LF # LF # r\<rparr> = None"
proof -
  let ?l = "lexer_at In_message True (LF # r)"
  have e: "at_empty_message ?l" by (simp add: at_empty_message_def)
  have "lex_steps n ?l = Some (replicate n (Some (T_STRING [])), ?l)"
    by (rule lex_steps_loop) (rule lex_step_empty_message [OF e])
  moreover have "lex_steps (2 + n) (lexer_at INITIAL True (''MESSAGE'' @ LF # LF # r)) =
      map_option (\<lambda>(ts, l). (Some T_MESSAGE # Some T_NEWLINE # ts, l)) (lex_steps n ?l)"
    using step_key [of T_MESSAGE "LF # r"] by (simp add: step_newline option.map_comp comp_def case_prod_unfold)
  moreover have "lex_all (lexer_at INITIAL True (''MESSAGE'' @ LF # LF # r)) = None"
    using step_key [of T_MESSAGE "LF # r"] lex_all_empty_message [OF e] by (simp add: lex_all_step step_newline)
  ultimately show ?thesis by simp
qed

end
