(* ===== verification/ClientState.thy ===== *)
theory ClientState
  imports Inet
begin

text \<open>
  The data of the client program \<open>diald-top\<close>: the constants of \<open>client/defines.h\<close>, the node type
  of the host cache (\<open>client/hostrec.h\<close>) and the global variables its files share
  (\<open>client/externs.h\<close>) in one record.  \<open>scrbuff\<close> holds the bytes of the row buffers (\<open>None\<close> is the
  null pointer), \<open>c_LINES\<close> and \<open>c_COLS\<close> are the screen size curses reports.  \<open>c_out\<close> records, oldest
  first, what the client does to the outside: lines for the control FIFO or the server, and output
  to the two windows, which the terminal library displays.
\<close>

definition HEAD_LINES :: int where "HEAD_LINES = 9"
definition HASHSIZE :: nat where "HASHSIZE = 65536"
definition LINELENGTH :: nat where "LINELENGTH = 256"
definition MAXBUFS :: int where "MAXBUFS = 256"
definition MAX_QUERY_LOAD :: int where "MAX_QUERY_LOAD = 200"
definition HOSTREC_EXPIRE :: int where "HOSTREC_EXPIRE = 60 * 60 * 24 * 2"

definition LINE_COPYRIGHT :: int where "LINE_COPYRIGHT = 0"
definition LINE_REVISION :: int where "LINE_REVISION = 1"
definition LINE_STATE :: int where "LINE_STATE = 3"
definition LINE_INTERFACE :: int where "LINE_INTERFACE = 4"
definition LINE_MESSAGE :: int where "LINE_MESSAGE = 5"
definition LINE_COMMAND :: int where "LINE_COMMAND = 6"
definition LINE_HEADERS :: int where "LINE_HEADERS = 7"
definition LINE_UNDERLINE :: int where "LINE_UNDERLINE = 8"

record hostrec =
  h_addr :: in_addr
  h_name :: string
  h_trunc :: string
  h_next :: "addr option"
  h_time :: int

datatype window = Full | Sub

datatype client_event =
    Send string
  | Print window int int string
  | Erase window
  | Clear window
  | ClrToEol int
  | Update
  | Reinit
  | AwaitKey
  | CloseFd int
  | MakeFifo string
  | RemoveFifo string
  | Stderr string
  | EndWin

record client =
  numeric :: int
  quit :: int
  remotemode :: int
  trunc_local_hosts :: int
  quit_if_parse_error :: int
  remoteip :: string
  curr_state :: string
  revision :: string
  c_control :: string
  c_monitor :: string
  c_controlfd :: int
  c_monitorfd :: int
  count :: int
  format_width :: int
  yacc_eof :: int
  rxload :: "int \<times> int \<times> int"
  txload :: "int \<times> int \<times> int"
  now :: int
  scrbuff :: "nat \<Rightarrow> string option"
  numbuff :: int
  ip_width :: int
  cols :: int
  resize_event_p :: int
  c_LINES :: int
  c_COLS :: int
  currline :: int
  hheap :: "hostrec heap"
  hosthash :: "nat \<Rightarrow> addr option"
  mydomain :: string
  c_out :: "client_event list"

definition say :: "client_event \<Rightarrow> client \<Rightarrow> client" where
  "say e s = s\<lparr>c_out := c_out s @ [e]\<rparr>"

lemma say_frame [simp]:
  "numeric (say e s) = numeric s" "quit (say e s) = quit s" "remotemode (say e s) = remotemode s"
  "trunc_local_hosts (say e s) = trunc_local_hosts s" "curr_state (say e s) = curr_state s"
  "count (say e s) = count s" "format_width (say e s) = format_width s" "rxload (say e s) = rxload s"
  "txload (say e s) = txload s" "now (say e s) = now s" "scrbuff (say e s) = scrbuff s"
  "numbuff (say e s) = numbuff s" "ip_width (say e s) = ip_width s" "cols (say e s) = cols s"
  "resize_event_p (say e s) = resize_event_p s" "c_LINES (say e s) = c_LINES s" "c_COLS (say e s) = c_COLS s"
  "currline (say e s) = currline s" "hheap (say e s) = hheap s" "hosthash (say e s) = hosthash s"
  "mydomain (say e s) = mydomain s" "c_out (say e s) = c_out s @ [e]" "yacc_eof (say e s) = yacc_eof s"
  by (simp_all add: say_def)

text \<open>The lines written to the control FIFO or to the server.\<close>

fun sent :: "client_event list \<Rightarrow> string list" where
  "sent [] = []"
| "sent (Send l # es) = l # sent es"
| "sent (e # es) = sent es"

lemma sent_append [simp]: "sent (es @ es') = sent es @ sent es'"
  by (induction es rule: sent.induct) auto

section \<open>An example state\<close>

text \<open>The client on a screen of 24 lines and 80 columns, with the link up and nothing in the cache.\<close>

definition ex_client :: client where
  "ex_client = \<lparr>numeric = 0, quit = 0, remotemode = 0, trunc_local_hosts = 0, quit_if_parse_error = 0,
     remoteip = [], curr_state = ''UP'', revision = ''Revision: 2.0'', c_control = ''/var/run/diald.ctl'',
     c_monitor = ''/tmp/m'', c_controlfd = 4, c_monitorfd = 3, count = 0, format_width = 22, yacc_eof = 0,
     rxload = (0, 0, 0), txload = (0, 0, 0), now = 1000,
     scrbuff = (\<lambda>i. if i < 25 then Some (replicate 81 NUL) else None), numbuff = 25, ip_width = 22, cols = 80,
     resize_event_p = 0, c_LINES = 24, c_COLS = 80, currline = 0, hheap = Map.empty, hosthash = (\<lambda>_. None),
     mydomain = [], c_out = []\<rparr>"

end
