(* ===== verification/Screen.thy ===== *)
theory Screen
  imports ClientState "HOL-Library.Signed_Division"
begin

text \<open>
  The screen of the client (\<open>client/screen.c\<close>): setting it up for a terminal size, allocating the row
  buffers, starting over when the terminal is resized, and the help pages.  Output goes to the
  event list; what the terminal library makes of it is not modelled.  The lemmas show that setting
  up and resizing give every row a buffer of the right size, when that fails, and which of the help
  pages fit their window.
\<close>

section \<open>printf\<close>

text \<open>\<open>%ws\<close> with the width given as a number: a negative one pads on the right.\<close>

definition printf_width :: "int \<Rightarrow> string \<Rightarrow> string" where
  "printf_width w t =
     (if w < 0 then t @ replicate (nat (- w) - length t) SP else replicate (nat w - length t) SP @ t)"

text \<open>Difference of an \<open>int\<close> and lengths, halved, as C computes it: \<open>strlen\<close> makes the operation
  unsigned, 64 bits wide, and the result is converted to a 32-bit \<open>int\<close>.\<close>

definition half_diff :: "int \<Rightarrow> nat \<Rightarrow> int" where
  "half_diff a n = sint (ucast ((of_int a - of_nat n :: 64 word) div 2) :: 32 word)"

section \<open>screen.c\<close>

definition update_screen :: "client \<Rightarrow> client" where
  "update_screen s = say Update s"

text \<open>\<open>close_screen\<close> gives the terminal back.\<close>

definition close_screen :: "client \<Rightarrow> client" where
  "close_screen s = say EndWin s"

definition strrpt :: "char \<Rightarrow> int \<Rightarrow> string" where
  "strrpt ch cnt = replicate (nat cnt) ch"

text \<open>The loop that allocates the rows; \<open>junk\<close> is what the new blocks hold.\<close>

function alloc_rows :: "(nat \<Rightarrow> nat \<Rightarrow> char) \<Rightarrow> int \<Rightarrow> client \<Rightarrow> client" where
  "alloc_rows junk lines s =
     (if numbuff s \<le> lines \<and> numbuff s < MAXBUFS
      then let i = nat (numbuff s); row = NUL # map (junk i) [1..<nat (cols s) + 1]
           in alloc_rows junk lines (s\<lparr>scrbuff := (scrbuff s)(i := Some row), numbuff := numbuff s + 1\<rparr>)
      else s)"
  by pat_completeness auto

termination
  by (relation "measure (\<lambda>(_, _, s). nat (MAXBUFS - numbuff s))") auto

declare alloc_rows.simps [simp del]

text \<open>The four header lines.\<close>

definition copyright_line :: "int \<Rightarrow> string" where
  "copyright_line w =
     (let spcs = (if w - 61 < 0 then 0 else w - 61)
      in ''DialD Packet statistics program'' @ printf_width spcs [] @ ''(c) 1995-2001 Gavin J. Hurlbut'')"

definition revision_line :: "int \<Rightarrow> string \<Rightarrow> string" where
  "revision_line w rv =
     (let spcs = half_diff (w - 45) (length rv)
      in rv @ printf_width spcs [] @ ''http://diald-top.sourceforge.net/'' @ printf_width spcs [] @ ''(h) for help'')"

definition header_line :: "int \<Rightarrow> string" where
  "header_line ipw = ''Type '' @ printf_width ipw ''Destination'' @ replicate 10 SP @
     printf_width ipw ''Source'' @ replicate 11 SP @ ''TTL''"

text \<open>\<open>screen_init\<close>; \<open>initscr\<close> sets the size \<open>(l, c)\<close>.\<close>

definition screen_init :: "(nat \<Rightarrow> nat \<Rightarrow> char) \<Rightarrow> int \<times> int \<Rightarrow> client \<Rightarrow> client" where
  "screen_init junk sz s =
     (let (l, c) = sz;
          s1 = alloc_rows junk l (s\<lparr>c_LINES := l, c_COLS := c, cols := c, numbuff := 0\<rparr>);
          s2 = say (Erase Full) (s1\<lparr>curr_state := []\<rparr>);
          s3 = say (Print Full LINE_COPYRIGHT 0 (copyright_line c)) s2;
          s4 = say (Print Full LINE_REVISION 0 (revision_line c (revision s3))) s3;
          s5 = s4\<lparr>ip_width := (c - 36) sdiv 2\<rparr>;
          s6 = say (Print Full LINE_HEADERS 0 (header_line (ip_width s5))) s5
      in update_screen (say (Print Full LINE_UNDERLINE 0 (strrpt (CHR ''='') (c - 1))) s6))"

text \<open>The loop of \<open>do_screen_resize\<close> starts at the index \<open>numbuff\<close>, one past the rows in use; the array
  has \<open>MAXBUFS\<close> entries.\<close>

function free_rows :: "client \<Rightarrow> client res" where
  "free_rows s =
     (if numbuff s \<ge> 0 then
        if numbuff s < MAXBUFS
        then free_rows (s\<lparr>scrbuff := (scrbuff s)(nat (numbuff s) := None), numbuff := numbuff s - 1\<rparr>)
        else Inl OutOfBounds
      else Inr s)"
  by pat_completeness auto

termination
  by (relation "measure (\<lambda>s. nat (numbuff s + 1))") auto

declare free_rows.simps [simp del]

definition do_screen_resize :: "(nat \<Rightarrow> nat \<Rightarrow> char) \<Rightarrow> int \<times> int \<Rightarrow> client \<Rightarrow> client res" where
  "do_screen_resize junk sz s =
     rbind (free_rows s) (\<lambda>s1. Inr (screen_init junk sz (say Reinit (s1\<lparr>numbuff := 0\<rparr>))))"

text \<open>The usage text, on a system that has \<open>gethostbyaddr\<close> and \<open>getdomainname\<close>.  \<open>configure\<close> does not look for
  \<open>gethostname\<close>, so the paragraph on \<open>-l\<close> that depends on it is never there.\<close>

definition tab :: string where "tab = [CHR 0x09]"

definition usagetext :: "string \<Rightarrow> string \<Rightarrow> string \<Rightarrow> string" where
  "usagetext rv prog fifo =
     [LF] @ ''DialD Packet statistics program (c) 1995-2001 Gavin J. Hurlbut'' @ [LF] @
     rv @ '' '' @ tab @ ''http://diald-top.sourceforge.net/'' @ [LF, LF] @
     ''Proper usage:'' @ [LF, LF] @
     tab @ prog @ '' [-n] [-l] [-q] [-c control_FIFO] [-r address] [-L logfile]'' @ [LF, LF] @
     ''If the -n option is used, the IP addresses will not be resolved'' @ [LF] @
     ''  otherwise, all IP addresses will be resolved (when the link is up)'' @ [LF, LF] @
     ''If the -q option is used, diald-top will quit on a parse error'' @ [LF, LF] @
     ''The -c option is optional.  If it is not included, the control FIFO'' @ [LF] @
     ''  will default to: '' @ fifo @ [LF, LF] @
     ''The -r option allows you to connect to a diald-top-server over the network'' @ [LF] @
     ''  using a TCP connection to port 1313 on the machine at IP address provided.'' @ [LF, LF] @
     ''The -L option creates a log file with all monitor FIFO input logged with a'' @ [LF] @
     ''  timestamp to aid in debugging.  This is likely to create a very large file'' @ [LF] @
     ''  if left running!'' @ [LF, LF]"

text \<open>\<open>display_usage\<close>: what it prints, and the exit.\<close>

definition display_usage :: "string \<Rightarrow> string \<Rightarrow> string \<Rightarrow> string \<times> c_error" where
  "display_usage rv prog fifo = (usagetext rv prog fifo, Exit 2)"

text \<open>\<open>print_help\<close>; \<open>None\<close> is the null pointer.\<close>

definition print_help :: "int \<Rightarrow> string option \<Rightarrow> client \<Rightarrow> client" where
  "print_help x line s =
     (case line of None \<Rightarrow> (say (Erase Sub) s)\<lparr>currline := 0\<rparr>
      | Some t \<Rightarrow> let s1 = s\<lparr>currline := currline s + 1\<rparr> in say (Print Sub (currline s1) x t) s1)"

definition help_commands :: "(int \<times> string) list" where
  "help_commands =
    [(0, ''Valid Commands:''),
     (10, ''up           Bring the link up''),
     (10, ''down         Bring the link down''),
     (10, ''force        Force the link up until further notice''),
     (10, ''unforce      No longer force the link up''),
     (10, ''block        Force the link down until further notice''),
     (10, ''unblock      No longer force the link down''),
     (10, ''quit         Forcibly quit diald (and shut down the link)''),
     (10, ''delay-quit   Quit diald the next time the link comes down'')]"

definition help_lines :: "(int \<times> string) list \<Rightarrow> client \<Rightarrow> client" where
  "help_lines ls s = fold (\<lambda>(x, t). print_help x (Some t)) ls s"

definition show_help_commands :: "client \<Rightarrow> client" where
  "show_help_commands s = help_lines help_commands s"

definition helpscreen :: "client \<Rightarrow> client" where
  "helpscreen s =
     (let rowsavail = c_LINES s - HEAD_LINES;
          s1 = help_lines [(0, ''(c)'' @ tab @ ''Send a command to the diald control FIFO'')] (print_help 0 None s);
          s2 = (if rowsavail \<ge> 17 then show_help_commands s1 else s1);
          s3 = help_lines
            [(0, ''(h)'' @ tab @ ''Display Help Screen (this screen)''),
             (0, ''(l)'' @ tab @ ''Toggle Truncation of Local Hosts (removes domain)''),
             (0, ''(n)'' @ tab @ ''Toggle Numeric IP vs. Resolved Names''),
             (0, ''(q)'' @ tab @ ''Quit diald-top''),
             (0, ''(^R)'' @ tab @ ''Redraw screen''),
             (0, '''')] s2;
          s4 = (if rowsavail \<ge> 17 then help_lines [(26, ''Press any key to resume'')] s3
                else help_lines [(25, ''Press any key to continue'')] s3);
          s5 = say AwaitKey (update_screen s4)
      in if rowsavail < 17 then
           let s6 = show_help_commands (print_help 0 None s5);
               s7 = help_lines [(0, ''''), (26, ''Press any key to resume'')] s6
           in say AwaitKey (update_screen s7)
         else s5)"

section \<open>Rows\<close>

text \<open>Every row in use has a buffer with room for \<open>cols\<close> characters and a NUL, and holds a string;
  the entries beyond are null pointers.\<close>

definition rows_ok :: "client \<Rightarrow> bool" where
  "rows_ok s \<longleftrightarrow> 0 \<le> numbuff s \<and> numbuff s \<le> MAXBUFS \<and>
     (\<forall>i. if int i < numbuff s
          then \<exists>b. scrbuff s i = Some b \<and> length b = nat (cols s) + 1 \<and> NUL \<in> set b
          else scrbuff s i = None)"

lemma rows_ok_row:
  "rows_ok s \<Longrightarrow> int i < numbuff s \<Longrightarrow> \<exists>b. scrbuff s i = Some b \<and> length b = nat (cols s) + 1 \<and> NUL \<in> set b"
  unfolding rows_ok_def by metis

lemma rows_ok_none: "rows_ok s \<Longrightarrow> numbuff s \<le> int i \<Longrightarrow> scrbuff s i = None"
  unfolding rows_ok_def by (metis not_less)

lemma rows_okI:
  assumes "0 \<le> numbuff s" "numbuff s \<le> MAXBUFS"
    and "\<And>i. int i < numbuff s \<Longrightarrow> \<exists>b. scrbuff s i = Some b \<and> length b = nat (cols s) + 1 \<and> NUL \<in> set b"
    and "\<And>i. numbuff s \<le> int i \<Longrightarrow> scrbuff s i = None"
  shows "rows_ok s"
  using assms by (simp add: rows_ok_def)

lemma rows_ok_cong:
  "scrbuff s' = scrbuff s \<Longrightarrow> numbuff s' = numbuff s \<Longrightarrow> cols s' = cols s \<Longrightarrow> rows_ok s' = rows_ok s"
  by (simp add: rows_ok_def)

definition no_rows :: "client \<Rightarrow> client" where
  "no_rows s = s\<lparr>scrbuff := (\<lambda>_. None), numbuff := 0\<rparr>"

lemma alloc_rows_result:
  assumes "rows_ok s" and "0 \<le> cols s" and "numbuff s \<le> max 0 (min (lines + 1) MAXBUFS)"
  shows "rows_ok (alloc_rows junk lines s) \<and> numbuff (alloc_rows junk lines s) = max 0 (min (lines + 1) MAXBUFS) \<and>
    no_rows (alloc_rows junk lines s) = no_rows s"
  using assms
proof (induction junk lines s rule: alloc_rows.induct)
  case (1 junk lines s)
  let ?i = "nat (numbuff s)"
  let ?row = "NUL # map (junk ?i) [1..<nat (cols s) + 1]"
  let ?s = "s\<lparr>scrbuff := (scrbuff s)(?i := Some ?row), numbuff := numbuff s + 1\<rparr>"
  have nonneg: "0 \<le> numbuff s" using "1.prems" by (simp add: rows_ok_def)
  show ?case
  proof (cases "numbuff s \<le> lines \<and> numbuff s < MAXBUFS")
    case False
    then have "alloc_rows junk lines s = s"
      unfolding alloc_rows.simps [of junk lines s] by (rule if_not_P)
    with False "1.prems" nonneg show ?thesis by auto
  next
    case True
    then have eq: "alloc_rows junk lines s = alloc_rows junk lines ?s"
      unfolding alloc_rows.simps [of junk lines s] Let_def by (rule if_P)
    have "rows_ok ?s"
    proof (rule rows_okI)
      fix i assume "int i < numbuff ?s"
      then show "\<exists>b. scrbuff ?s i = Some b \<and> length b = nat (cols ?s) + 1 \<and> NUL \<in> set b"
        using rows_ok_row [OF "1.prems"(1), of i] nonneg by (cases "i = ?i") auto
    next
      fix i assume "numbuff ?s \<le> int i"
      then show "scrbuff ?s i = None" using rows_ok_none [OF "1.prems"(1), of i] nonneg by auto
    qed (use True nonneg in auto)
    moreover have "numbuff ?s \<le> max 0 (min (lines + 1) MAXBUFS)" using True by auto
    ultimately have "rows_ok (alloc_rows junk lines ?s) \<and>
        numbuff (alloc_rows junk lines ?s) = max 0 (min (lines + 1) MAXBUFS) \<and>
        no_rows (alloc_rows junk lines ?s) = no_rows ?s"
      using "1.IH" [OF True refl refl] "1.prems"(2) by simp
    moreover have "no_rows ?s = no_rows s" by (simp add: no_rows_def)
    ultimately show ?thesis unfolding eq by simp
  qed
qed

text \<open>What a fresh row holds.\<close>

definition fresh_row :: "(nat \<Rightarrow> nat \<Rightarrow> char) \<Rightarrow> int \<Rightarrow> nat \<Rightarrow> string" where
  "fresh_row junk w i = NUL # map (junk i) [1..<nat w + 1]"

lemma alloc_rows_content:
  assumes "0 \<le> numbuff s"
  shows "int i < numbuff s \<Longrightarrow> scrbuff (alloc_rows junk lines s) i = scrbuff s i"
    and "numbuff s \<le> int i \<Longrightarrow> int i \<le> lines \<Longrightarrow> int i < MAXBUFS \<Longrightarrow>
      scrbuff (alloc_rows junk lines s) i = Some (fresh_row junk (cols s) i)"
  using assms
proof (induction junk lines s rule: alloc_rows.induct)
  case (1 junk lines s)
  let ?i = "nat (numbuff s)"
  let ?row = "NUL # map (junk ?i) [1..<nat (cols s) + 1]"
  let ?s = "s\<lparr>scrbuff := (scrbuff s)(?i := Some ?row), numbuff := numbuff s + 1\<rparr>"
  have eq: "alloc_rows junk lines s = alloc_rows junk lines ?s" if "numbuff s \<le> lines \<and> numbuff s < MAXBUFS"
    unfolding alloc_rows.simps [of junk lines s] Let_def using that by (rule if_P)
  { case 1
    show ?case
    proof (cases "numbuff s \<le> lines \<and> numbuff s < MAXBUFS")
      case True
      have "i \<noteq> ?i" using 1 by linarith
      moreover have "scrbuff (alloc_rows junk lines ?s) i = scrbuff ?s i"
        using "1.IH"(1) [OF True refl refl] 1 by simp
      ultimately show ?thesis using eq [OF True] by simp
    next
      case False
      then show ?thesis unfolding alloc_rows.simps [of junk lines s] by (simp only: if_False)
    qed
  next
    case 2
    then have True: "numbuff s \<le> lines \<and> numbuff s < MAXBUFS" by linarith
    show ?case
    proof (cases "int i = numbuff s")
      case eqi: True
      have "scrbuff (alloc_rows junk lines ?s) i = scrbuff ?s i"
        using "1.IH"(1) [OF True refl refl] eqi 2 by simp
      with eqi eq [OF True] show ?thesis by (auto simp: fresh_row_def)
    next
      case False
      with "1.IH"(2) [OF True refl refl] 2 eq [OF True] show ?thesis by simp
    qed }
qed

lemma free_rows_result:
  assumes "numbuff s < MAXBUFS" and "-1 \<le> numbuff s" and "\<forall>i. numbuff s < int i \<longrightarrow> scrbuff s i = None"
  shows "\<exists>s'. free_rows s = Inr s' \<and> numbuff s' = -1 \<and> (\<forall>i. scrbuff s' i = None) \<and> no_rows s' = no_rows s"
  using assms
proof (induction s rule: free_rows.induct)
  case (1 s)
  let ?s = "s\<lparr>scrbuff := (scrbuff s)(nat (numbuff s) := None), numbuff := numbuff s - 1\<rparr>"
  show ?case
  proof (cases "0 \<le> numbuff s")
    case True
    have "\<forall>i. numbuff s - 1 < int i \<longrightarrow> ((scrbuff s)(nat (numbuff s) := None)) i = None"
      using "1.prems"(3) True by (auto simp: nat_eq_iff le_less)
    then have "\<exists>s'. free_rows ?s = Inr s' \<and> numbuff s' = -1 \<and> (\<forall>i. scrbuff s' i = None) \<and> no_rows s' = no_rows ?s"
      using "1.IH" True "1.prems" by simp
    moreover have "free_rows s = free_rows ?s"
      using True "1.prems"(1) by (simp only: free_rows.simps [of s] if_True)
    moreover have "no_rows ?s = no_rows s" by (simp add: no_rows_def)
    ultimately show ?thesis by simp
  next
    case False
    then have "free_rows s = Inr s" by (simp only: free_rows.simps [of s] if_False)
    moreover have "numbuff s = -1" using False "1.prems"(2) by simp
    ultimately show ?thesis using "1.prems"(3) by simp
  qed
qed

lemma no_rows_fields:
  assumes "no_rows s' = no_rows s"
  shows "cols s' = cols s" "c_LINES s' = c_LINES s" "c_COLS s' = c_COLS s" "format_width s' = format_width s"
    "count s' = count s" "c_out s' = c_out s" "revision s' = revision s" "curr_state s' = curr_state s"
    "hheap s' = hheap s" "hosthash s' = hosthash s"
  using assms unfolding no_rows_def
  by (auto dest!: arg_cong [of _ _ "\<lambda>u. (cols u, c_LINES u, c_COLS u, format_width u, count u, c_out u,
    revision u, curr_state u, hheap u, hosthash u)"])

lemma screen_init_result:
  assumes "\<forall>i. scrbuff s i = None" and "0 \<le> l" "0 \<le> c"
  shows "rows_ok (screen_init junk (l, c) s)" "numbuff (screen_init junk (l, c) s) = min (l + 1) MAXBUFS"
    "cols (screen_init junk (l, c) s) = c" "c_LINES (screen_init junk (l, c) s) = l"
    "c_COLS (screen_init junk (l, c) s) = c" "ip_width (screen_init junk (l, c) s) = (c - 36) sdiv 2"
    "format_width (screen_init junk (l, c) s) = format_width s" "count (screen_init junk (l, c) s) = count s"
    "hheap (screen_init junk (l, c) s) = hheap s" "hosthash (screen_init junk (l, c) s) = hosthash s"
    "curr_state (screen_init junk (l, c) s) = []" "sent (c_out (screen_init junk (l, c) s)) = sent (c_out s)"
proof -
  let ?s = "s\<lparr>c_LINES := l, c_COLS := c, cols := c, numbuff := 0\<rparr>"
  have "rows_ok ?s" using assms(1) by (simp add: rows_ok_def MAXBUFS_def)
  moreover have "max 0 (min (l + 1) MAXBUFS) = min (l + 1) MAXBUFS" using assms(2) by (simp add: MAXBUFS_def)
  ultimately have a: "rows_ok (alloc_rows junk l ?s)" "numbuff (alloc_rows junk l ?s) = min (l + 1) MAXBUFS"
      "no_rows (alloc_rows junk l ?s) = no_rows ?s"
    using alloc_rows_result [of ?s l junk] assms by auto
  note f = no_rows_fields [OF a(3)]
  have "rows_ok (screen_init junk (l, c) s) = rows_ok (alloc_rows junk l ?s)"
    by (rule rows_ok_cong) (simp_all add: screen_init_def Let_def update_screen_def)
  with a(1) show "rows_ok (screen_init junk (l, c) s)" by simp
  show "numbuff (screen_init junk (l, c) s) = min (l + 1) MAXBUFS"
    "cols (screen_init junk (l, c) s) = c" "c_LINES (screen_init junk (l, c) s) = l"
    "c_COLS (screen_init junk (l, c) s) = c" "ip_width (screen_init junk (l, c) s) = (c - 36) sdiv 2"
    "format_width (screen_init junk (l, c) s) = format_width s" "count (screen_init junk (l, c) s) = count s"
    "hheap (screen_init junk (l, c) s) = hheap s" "hosthash (screen_init junk (l, c) s) = hosthash s"
    "curr_state (screen_init junk (l, c) s) = []" "sent (c_out (screen_init junk (l, c) s)) = sent (c_out s)"
    using a(2) f by (simp_all add: screen_init_def Let_def update_screen_def)
qed

lemma screen_init_numeric: "numeric (screen_init junk (l, c) s) = numeric s"
proof -
  have "numeric (alloc_rows junk l u) = numeric u" for u
    by (induction junk l u rule: alloc_rows.induct) (subst alloc_rows.simps, simp add: Let_def)
  then show ?thesis by (simp add: screen_init_def Let_def update_screen_def)
qed

lemma screen_init_content:
  assumes "int i \<le> l" and "int i < MAXBUFS"
  shows "scrbuff (screen_init junk (l, c) s) i = Some (fresh_row junk c i)"
  using alloc_rows_content(2) [of "s\<lparr>c_LINES := l, c_COLS := c, cols := c, numbuff := 0\<rparr>" i l junk] assms
  by (simp add: screen_init_def Let_def update_screen_def)

text \<open>A resize frees all rows and sets up the screen anew.\<close>

lemma do_screen_resize_init:
  assumes "rows_ok s" and "numbuff s < MAXBUFS"
  obtains u where "do_screen_resize junk sz s = Inr (screen_init junk sz u)" "\<forall>i. scrbuff u i = None"
    "no_rows u = no_rows (say Reinit s)"
proof -
  have "\<forall>i. numbuff s < int i \<longrightarrow> scrbuff s i = None" "-1 \<le> numbuff s"
    using rows_ok_none [OF assms(1)] assms(1) by (auto simp: rows_ok_def)
  then obtain s1 where s1: "free_rows s = Inr s1" "\<forall>i. scrbuff s1 i = None" "no_rows s1 = no_rows s"
    using free_rows_result [OF assms(2)] by blast
  have say: "no_rows (say e u) = say e (no_rows u)" for e u by (simp add: no_rows_def say_def)
  have "no_rows (s1\<lparr>numbuff := 0\<rparr>) = no_rows s1" by (simp add: no_rows_def)
  then show thesis using s1 by (intro that [of "say Reinit (s1\<lparr>numbuff := 0\<rparr>)"]) (simp_all add: do_screen_resize_def say)
qed

text \<open>After the terminal is resized, every row of the new size has a buffer that holds a string and
  has room for a full line, and none of the old buffers is left.  This is so as long as fewer than
  \<open>MAXBUFS\<close> rows were in use.\<close>

lemma do_screen_resize_rows:
  assumes "rows_ok s" and "numbuff s < MAXBUFS" and "0 \<le> l" "0 \<le> c"
  shows "\<exists>s'. do_screen_resize junk (l, c) s = Inr s' \<and> rows_ok s' \<and> numbuff s' = min (l + 1) MAXBUFS \<and>
    cols s' = c \<and> ip_width s' = (c - 36) sdiv 2 \<and> count s' = count s"
proof -
  obtain u where u: "do_screen_resize junk (l, c) s = Inr (screen_init junk (l, c) u)" "\<forall>i. scrbuff u i = None"
      "no_rows u = no_rows (say Reinit s)"
    using do_screen_resize_init [OF assms(1,2)] by blast
  note i = screen_init_result [OF u(2) assms(3,4), of junk]
  have "count u = count s" using no_rows_fields(5) [OF u(3)] by simp
  with i u(1) show ?thesis by simp
qed

lemma ex_rows_ok: "rows_ok ex_client"
  by (simp add: rows_ok_def ex_client_def MAXBUFS_def)

lemma do_screen_resize_rows_witness:
  "\<exists>s'. do_screen_resize (\<lambda>_ _. CHR ''?'') (50, 132) ex_client = Inr s' \<and> rows_ok s' \<and> numbuff s' = 51 \<and> cols s' = 132"
proof -
  have "numbuff ex_client < MAXBUFS" by (simp add: ex_client_def MAXBUFS_def)
  from do_screen_resize_rows [OF ex_rows_ok this, of 50 132 "\<lambda>_ _. CHR ''?''"] show ?thesis
    by (auto simp: MAXBUFS_def)
qed

text \<open>On a terminal of 255 lines or more all \<open>MAXBUFS\<close> entries are in use, and a resize looks at the
  entry behind the last one.\<close>

lemma do_screen_resize_out_of_bounds:
  assumes "\<forall>i. scrbuff s i = None" and "255 \<le> l" "0 \<le> c"
  shows "do_screen_resize junk' (l', c') (screen_init junk (l, c) s) = Inl OutOfBounds"
proof -
  have "numbuff (screen_init junk (l, c) s) = MAXBUFS"
    using screen_init_result(2) [OF assms(1) _ assms(3), of l junk] assms(2) by (simp add: MAXBUFS_def)
  then have "free_rows (screen_init junk (l, c) s) = Inl OutOfBounds"
    by (simp add: free_rows.simps MAXBUFS_def)
  then show ?thesis by (simp add: do_screen_resize_def)
qed

lemma do_screen_resize_out_of_bounds_witness:
  "do_screen_resize (\<lambda>_ _. NUL) (24, 80)
     (screen_init (\<lambda>_ _. NUL) (300, 80) (ex_client\<lparr>scrbuff := (\<lambda>_. None)\<rparr>)) = Inl OutOfBounds"
  by (rule do_screen_resize_out_of_bounds) simp_all

section \<open>The help pages\<close>

fun sub_rows :: "client_event list \<Rightarrow> int list" where
  "sub_rows [] = []"
| "sub_rows (Print Sub y x t # es) = y # sub_rows es"
| "sub_rows (e # es) = sub_rows es"

lemma sub_rows_append [simp]: "sub_rows (es @ es') = sub_rows es @ sub_rows es'"
  by (induction es rule: sub_rows.induct) auto

lemma help_lines_rows:
  "sub_rows (c_out (help_lines ls s)) = sub_rows (c_out s) @ map (\<lambda>i. currline s + 1 + int i) [0..<length ls] \<and>
   currline (help_lines ls s) = currline s + int (length ls) \<and> c_LINES (help_lines ls s) = c_LINES s"
proof (induction ls arbitrary: s)
  case Nil
  show ?case by (simp add: help_lines_def)
next
  case (Cons l ls)
  obtain x t where l: "l = (x, t)" by force
  let ?s = "print_help x (Some t) s"
  have "help_lines (l # ls) s = help_lines ls ?s" using l by (simp add: help_lines_def)
  moreover have "sub_rows (c_out ?s) = sub_rows (c_out s) @ [currline s + 1]" "currline ?s = currline s + 1"
    "c_LINES ?s = c_LINES s"
    by (simp_all add: print_help_def Let_def)
  moreover have "map (\<lambda>i. currline s + 1 + int i) [0..<length (l # ls)] =
      (currline s + 1) # map (\<lambda>i. currline s + 1 + 1 + int i) [0..<length ls]"
    by (simp add: upt_conv_Cons map_Suc_upt [symmetric] del: upt_Suc)
  ultimately show ?case using Cons.IH [of ?s] by simp
qed

text \<open>The help pages print below the last row of their window exactly on screens where the window
  has fewer than 12 rows or just 17: in the latter case the program decides that one page is enough,
  but the page has 18 rows, counting the empty one on top, and the request to press a key is lost.\<close>

lemma helpscreen_fits:
  "list_all (\<lambda>y. y < c_LINES s - HEAD_LINES) (sub_rows (c_out (helpscreen (s\<lparr>c_out := []\<rparr>)))) \<longleftrightarrow>
   12 \<le> c_LINES s - HEAD_LINES \<and> c_LINES s - HEAD_LINES \<noteq> 17"
proof -
  have p0: "currline (print_help 0 None u) = 0" "sub_rows (c_out (print_help 0 None u)) = sub_rows (c_out u)"
    "c_LINES (print_help 0 None u) = c_LINES u" for u
    by (simp_all add: print_help_def)
  have upd: "sub_rows (c_out (update_screen u)) = sub_rows (c_out u)" "currline (update_screen u) = currline u" for u
    by (simp_all add: update_screen_def)
  show ?thesis
    by (simp add: helpscreen_def Let_def show_help_commands_def help_lines_rows p0 upd help_commands_def upt_rec HEAD_LINES_def)
      auto
qed

end
