(* ===== verification/HostCache.thy ===== *)
theory HostCache
  imports ClientState
begin

text \<open>
  Names for addresses and ports (\<open>client/resolve.c\<close>): the hash table of resolved hosts with its
  chains on the heap, \<open>resolve\<close>, which asks the name server when the link is up and not busy, and
  \<open>service\<close>.  The locale \<open>host_table\<close> states what \<open>resolve\<close> needs of the table; the main result is
  that \<open>resolve\<close> on the heap does what it should do on a finite map from addresses to names.
\<close>

definition hash :: "in_addr \<Rightarrow> nat" where
  "hash a = unat (octet a 0 XOR octet a 2) + unat (octet a 1 XOR octet a 3) * 2 ^ 8"

text \<open>The walk along a chain, the loop of both \<open>gettab\<close> and \<open>probetab\<close>.  A chain has no bound on its
  length; on a cyclic one the walk does not end.\<close>

partial_function (option) find_rec :: "hostrec heap \<Rightarrow> in_addr \<Rightarrow> addr option \<Rightarrow> addr option res option" where
  "find_rec h a hr =
     (case hr of None \<Rightarrow> Some (Inr None)
      | Some x \<Rightarrow>
          (case h x of None \<Rightarrow> Some (Inl BadPointer)
           | Some n \<Rightarrow> if h_addr n = a then Some (Inr (Some x)) else find_rec h a (h_next n)))"

declare find_rec.simps [code]

definition find_host :: "in_addr \<Rightarrow> client \<Rightarrow> addr option res" where
  "find_host a s = (case find_rec (hheap s) a (hosthash s (hash a)) of None \<Rightarrow> Inl Diverges | Some r \<Rightarrow> r)"

definition probetab :: "in_addr \<Rightarrow> client \<Rightarrow> bool res" where
  "probetab a s = rbind (find_host a s) (\<lambda>r. Inr (r \<noteq> None))"

text \<open>\<open>malloc\<close> gives a block with arbitrary contents, or the null pointer, which is not checked.\<close>

type_synonym host_malloc = "(addr \<times> hostrec) option"

definition gettab :: "host_malloc \<Rightarrow> in_addr \<Rightarrow> client \<Rightarrow> (addr \<times> client) res" where
  "gettab malloc a s =
     rbind (find_host a s) (\<lambda>r.
       case r of Some x \<Rightarrow> Inr (x, s)
       | None \<Rightarrow>
           (case malloc of None \<Rightarrow> Inl NullDeref
            | Some (x, junk) \<Rightarrow>
                Inr (x, s\<lparr>hheap := (hheap s)(x \<mapsto> junk\<lparr>h_next := hosthash s (hash a)\<rparr>),
                          hosthash := (hosthash s)(hash a := Some x)\<rparr>)))"

text \<open>The place of the first occurrence of \<open>d\<close>, and \<open>truncate_hostname\<close>; \<open>mydom\<close> is what
  \<open>getdomainname\<close> returns.\<close>

fun strstr :: "string \<Rightarrow> string \<Rightarrow> nat option" where
  "strstr [] d = (if d = [] then Some 0 else None)"
| "strstr (c # s) d =
     (if take (length d) (c # s) = d then Some 0 else map_option Suc (strstr s d))"

definition cut_domain :: "string \<Rightarrow> string \<Rightarrow> string" where
  "cut_domain d hostname =
     (case strstr hostname d of None \<Rightarrow> hostname
      | Some k \<Rightarrow> if 0 < k then take (k - 1) hostname else hostname)"

definition truncate_hostname :: "string \<Rightarrow> string \<Rightarrow> client \<Rightarrow> string \<times> client" where
  "truncate_hostname mydom hostname s =
     (let s1 = (if mydomain s = [] then s\<lparr>mydomain := mydom\<rparr> else s) in (cut_domain (mydomain s1) hostname, s1))"

text \<open>What \<open>gethostbyaddr\<close> returns: a name, or the failures \<open>HOST_NOT_FOUND\<close> and \<open>NO_ADDRESS\<close>, or
  another failure.\<close>

datatype hostent = Host string | NoSuchHost | TryAgain

definition set_rec :: "addr \<Rightarrow> in_addr \<Rightarrow> string \<Rightarrow> string \<Rightarrow> client \<Rightarrow> client res" where
  "set_rec x a nm tr s =
     (case hheap s x of None \<Rightarrow> Inl BadPointer
      | Some n \<Rightarrow> Inr (s\<lparr>hheap := (hheap s)(x \<mapsto> n\<lparr>h_name := nm, h_trunc := tr, h_addr := a, h_time := now s\<rparr>)\<rparr>))"

definition get_rec :: "addr \<Rightarrow> client \<Rightarrow> hostrec res" where
  "get_rec x s = (case hheap s x of None \<Rightarrow> Inl BadPointer | Some n \<Rightarrow> Inr n)"

text \<open>The condition under which the name server is asked, once the record is missing or old.  The
  second sum takes \<open>rxload[2]\<close>, as the source does.\<close>

definition may_query :: "client \<Rightarrow> bool" where
  "may_query s \<longleftrightarrow>
     (case (rxload s, txload s) of ((r0, r1, r2), (t0, t1, t2)) \<Rightarrow>
        curr_state s = ''UP'' \<and> r0 + r1 + r2 < MAX_QUERY_LOAD \<and> t0 + t1 + r2 < MAX_QUERY_LOAD)"

definition shown_name :: "client \<Rightarrow> hostrec \<Rightarrow> string" where
  "shown_name s n = (if trunc_local_hosts s \<noteq> 0 then h_trunc n else h_name n)"

text \<open>\<open>hr\<close> is the record found, if any; \<open>get_hr\<close> is \<open>if (!hr) hr = gettab(addr)\<close>.\<close>

definition get_hr :: "host_malloc \<Rightarrow> in_addr \<Rightarrow> addr option \<Rightarrow> client \<Rightarrow> (addr \<times> client) res" where
  "get_hr malloc a hr s = (case hr of Some x \<Rightarrow> Inr (x, s) | None \<Rightarrow> gettab malloc a s)"

definition query_host :: "(in_addr \<Rightarrow> hostent) \<Rightarrow> string \<Rightarrow> host_malloc \<Rightarrow> string \<Rightarrow> in_addr \<Rightarrow> addr option \<Rightarrow>
    client \<Rightarrow> (string \<times> client) res" where
  "query_host ghba mydom malloc aaddr a hr s =
     (case ghba a of
        TryAgain \<Rightarrow> Inr (aaddr, s)
      | NoSuchHost \<Rightarrow> rbind (get_hr malloc a hr s) (\<lambda>(x, s1).
          rbind (set_rec x a aaddr aaddr s1) (\<lambda>s2. Inr (aaddr, s2)))
      | Host nm \<Rightarrow> rbind (get_hr malloc a hr s) (\<lambda>(x, s1).
          (case truncate_hostname mydom nm s1 of (tr, s2) \<Rightarrow>
             rbind (set_rec x a nm tr s2) (\<lambda>s3.
               rbind (get_rec x s3) (\<lambda>n. Inr (shown_name s3 n, s3))))))"

definition resolve :: "(in_addr \<Rightarrow> hostent) \<Rightarrow> string \<Rightarrow> host_malloc \<Rightarrow> string \<Rightarrow> client \<Rightarrow> (string \<times> client) res" where
  "resolve ghba mydom malloc aaddr s =
     (case inet_pton aaddr of None \<Rightarrow> Inr (aaddr, s)
      | Some a \<Rightarrow>
          if numeric s \<noteq> 0 then Inr (aaddr, s)
          else
            rbind (probetab a s) (\<lambda>known.
              rbind (if known then rbind (gettab malloc a s) (\<lambda>(x, s1). Inr (Some x, s1)) else Inr (None, s))
                (\<lambda>(hr, s1).
                  rbind (case hr of None \<Rightarrow> Inr True
                         | Some x \<Rightarrow> rbind (get_rec x s1) (\<lambda>n. Inr (now s1 - h_time n > HOSTREC_EXPIRE)))
                    (\<lambda>stale.
                      if stale \<and> may_query s1 then query_host ghba mydom malloc aaddr a hr s1
                      else (case hr of None \<Rightarrow> Inr (aaddr, s1)
                            | Some x \<Rightarrow> rbind (get_rec x s1) (\<lambda>n. Inr (shown_name s1 n, s1)))))))"

text \<open>\<open>service\<close>, given what \<open>getservbyport\<close> knows and whether memory is left.  \<open>snprintf\<close> cuts the
  number to five characters.\<close>

definition pad_right :: "nat \<Rightarrow> string \<Rightarrow> string" where
  "pad_right w t = t @ replicate (w - length t) SP"

definition service :: "(int \<Rightarrow> string \<Rightarrow> string option) \<Rightarrow> bool \<Rightarrow> int \<Rightarrow> string \<Rightarrow> string" where
  "service gsbp memory p proto =
     (case gsbp p proto of
        None \<Rightarrow> if memory then take 5 (pad_right 5 (show_int p)) else []
      | Some nm \<Rightarrow> if memory then nm else [])"

section \<open>The table as a map\<close>

text \<open>A record without its link, and the list of records of every bucket.\<close>

type_synonym host_data = "in_addr \<times> string \<times> string \<times> int"

definition host_data :: "hostrec \<Rightarrow> host_data" where
  "host_data n = (h_addr n, h_name n, h_trunc n, h_time n)"

definition set_host_data :: "host_data \<Rightarrow> hostrec \<Rightarrow> hostrec" where
  "set_host_data d n = (case d of (a, nm, tr, t) \<Rightarrow> n\<lparr>h_name := nm, h_trunc := tr, h_addr := a, h_time := t\<rparr>)"

interpretation hn: linked_node h_next host_data "\<lambda>q n. n\<lparr>h_next := q\<rparr>" set_host_data
  by unfold_locales (auto simp: host_data_def set_host_data_def split: prod.splits)

type_synonym bucket = "(addr \<times> host_data) list"

abbreviation bucket_chain :: "client \<Rightarrow> nat \<Rightarrow> bucket \<Rightarrow> bool" where
  "bucket_chain s h xs \<equiv> chain h_next host_data (hheap s) (hosthash s h) xs"

definition cache_ok :: "client \<Rightarrow> (nat \<Rightarrow> bucket) \<Rightarrow> bool" where
  "cache_ok s B \<longleftrightarrow> (\<forall>h. bucket_chain s h (B h) \<and> (\<forall>x \<in> set (B h). hash (fst (snd x)) = h) \<and>
     distinct (map (fst \<circ> snd) (B h)))"

text \<open>What the table knows about an address: its name, its shortened name, and when it was asked.\<close>

definition host_map :: "(nat \<Rightarrow> bucket) \<Rightarrow> in_addr \<rightharpoonup> string \<times> string \<times> int" where
  "host_map B a = map_of (map snd (B (hash a))) a"

lemma hash_less: "hash a < HASHSIZE"
proof -
  have "unat (w :: 8 word) < 256" for w using unsigned_less [of w] by simp
  from this [of "octet a 0 XOR octet a 2"] this [of "octet a 1 XOR octet a 3"] show ?thesis
    by (simp only: hash_def HASHSIZE_def power_numeral Num.pow.simps Num.sqr.simps)
qed

text \<open>A walk along a chain ends, with the node of the address if there is one.\<close>

lemma find_rec_absent:
  "chain h_next host_data h p xs \<Longrightarrow> a \<notin> (fst \<circ> snd) ` set xs \<Longrightarrow> find_rec h a p = Some (Inr None)"
proof (induction xs arbitrary: p)
  case Nil
  then show ?case by (subst find_rec.simps) simp
next
  case (Cons x xs)
  obtain b d where x: "x = (b, d)" by (cases x)
  with Cons.prems obtain n where n: "p = Some b" "h b = Some n" "host_data n = d" "chain h_next host_data h (h_next n) xs"
    by auto
  then have "h_addr n = fst d" by (auto simp: host_data_def)
  with Cons n x show ?case by (subst find_rec.simps) auto
qed

lemma find_rec_present:
  "chain h_next host_data h p (xs @ (b, (a, r)) # ys) \<Longrightarrow> a \<notin> (fst \<circ> snd) ` set xs \<Longrightarrow>
   find_rec h a p = Some (Inr (Some b))"
proof (induction xs arbitrary: p)
  case Nil
  then show ?case by (subst find_rec.simps) (auto simp: host_data_def)
next
  case (Cons x xs)
  obtain c d where x: "x = (c, d)" by (cases x)
  with Cons.prems obtain n where n: "p = Some c" "h c = Some n" "host_data n = d"
      "chain h_next host_data h (h_next n) (xs @ (b, (a, r)) # ys)"
    by auto
  then have "h_addr n = fst d" by (auto simp: host_data_def)
  with Cons n x show ?case by (subst find_rec.simps) auto
qed

lemma host_map_None: "host_map B a = None \<longleftrightarrow> a \<notin> (fst \<circ> snd) ` set (B (hash a))"
  by (auto simp: host_map_def map_of_eq_None_iff image_image)

lemma host_map_Some:
  assumes "cache_ok s B" and "host_map B a = Some r"
  obtains xs x ys where "B (hash a) = xs @ (x, (a, r)) # ys" "a \<notin> (fst \<circ> snd) ` set xs" "a \<notin> (fst \<circ> snd) ` set ys"
proof -
  from assms(2) have "(a, r) \<in> set (map snd (B (hash a)))" by (auto simp: host_map_def dest: map_of_SomeD)
  then obtain x where "(x, (a, r)) \<in> set (B (hash a))" by auto
  then obtain xs ys where "B (hash a) = xs @ (x, (a, r)) # ys" by (meson split_list)
  moreover from this assms(1) have "distinct (map (fst \<circ> snd) (xs @ (x, (a, r)) # ys))"
    unfolding cache_ok_def by metis
  ultimately show thesis using that by auto
qed

lemma find_host_absent: "cache_ok s B \<Longrightarrow> host_map B a = None \<Longrightarrow> find_host a s = Inr None"
  using find_rec_absent [of "hheap s" "hosthash s (hash a)" "B (hash a)" a]
  by (simp add: find_host_def cache_ok_def host_map_None)

lemma find_host_present:
  assumes "cache_ok s B" and "B (hash a) = xs @ (x, (a, r)) # ys" and "a \<notin> (fst \<circ> snd) ` set xs"
  shows "find_host a s = Inr (Some x)"
proof -
  have "bucket_chain s (hash a) (xs @ (x, (a, r)) # ys)" using assms(1,2) unfolding cache_ok_def by metis
  from find_rec_present [OF this assms(3)] show ?thesis by (simp add: find_host_def)
qed

text \<open>A node belongs to one bucket only.\<close>

lemma cache_ok_lookup:
  assumes "cache_ok s B" and "(x, d) \<in> set (B h)"
  shows "\<exists>n. hheap s x = Some n \<and> host_data n = d \<and> hash (fst d) = h"
proof -
  have "bucket_chain s h (B h)" "hash (fst d) = h"
    using assms unfolding cache_ok_def by (blast, metis snd_conv)
  with chain_lookup [OF this(1) assms(2)] show ?thesis by blast
qed

lemma cache_ok_other_bucket:
  assumes "cache_ok s B" and "(x, (a, r)) \<in> set (B (hash a))" and "h \<noteq> hash a"
  shows "x \<notin> fst ` set (B h)"
proof
  assume "x \<in> fst ` set (B h)"
  then obtain d where "(x, d) \<in> set (B h)" by auto
  with cache_ok_lookup [OF assms(1) this] cache_ok_lookup [OF assms(1,2)] assms(3) show False by auto
qed

lemma cache_ok_update:
  assumes ok: "cache_ok s B" and new: "bucket_chain t h xs" "\<forall>x \<in> set xs. hash (fst (snd x)) = h"
      "distinct (map (fst \<circ> snd) xs)"
    and rest: "\<And>k. k \<noteq> h \<Longrightarrow> bucket_chain t k (B k)"
  shows "cache_ok t (B(h := xs))"
  using assms by (auto simp: cache_ok_def)

text \<open>Writing the fields of a record that is in the table.\<close>

lemma set_rec_old:
  assumes ok: "cache_ok s B" and b: "B (hash a) = xs @ (x, (a, r)) # ys"
    and t: "hheap t = hheap s" "hosthash t = hosthash s"
  shows "\<exists>t' n. set_rec x a nm tr t = Inr t' \<and> t' = t\<lparr>hheap := hheap t'\<rparr> \<and> hheap t' x = Some n \<and>
    h_name n = nm \<and> h_trunc n = tr \<and>
    cache_ok t' (B(hash a := xs @ (x, (a, (nm, tr, now t))) # ys))"
proof -
  have ch: "bucket_chain s (hash a) (xs @ (x, (a, r)) # ys)" using ok b unfolding cache_ok_def by metis
  have mem: "(x, (a, r)) \<in> set (B (hash a))" using b by simp
  obtain n where n: "hheap s x = Some n" using cache_ok_lookup [OF ok mem] by blast
  let ?n = "n\<lparr>h_name := nm, h_trunc := tr, h_addr := a, h_time := now t\<rparr>"
  let ?t = "t\<lparr>hheap := (hheap t)(x \<mapsto> ?n)\<rparr>"
  have "?n = set_host_data (a, nm, tr, now t) n" by (simp add: set_host_data_def)
  with hn.set_payload [OF ch n, of "(a, nm, tr, now t)"] t
  have "bucket_chain ?t (hash a) (xs @ (x, (a, nm, tr, now t)) # ys)" by simp
  moreover have "bucket_chain ?t k (B k)" if "k \<noteq> hash a" for k
    using cache_ok_other_bucket [OF ok mem that] ok t by (simp add: cache_ok_def)
  moreover have "\<forall>y \<in> set (xs @ (x, (a, r)) # ys). hash (fst (snd y)) = hash a"
      "distinct (map (fst \<circ> snd) (xs @ (x, (a, r)) # ys))"
    using ok b unfolding cache_ok_def by metis+
  ultimately have "cache_ok ?t (B(hash a := xs @ (x, (a, nm, tr, now t)) # ys))"
    by (intro cache_ok_update [OF ok]) auto
  moreover have "set_rec x a nm tr t = Inr ?t" using n t by (simp add: set_rec_def)
  ultimately show ?thesis by (intro exI [of _ ?t] exI [of _ ?n]) simp
qed

text \<open>Writing the fields of a record that \<open>gettab\<close> has just linked in.\<close>

lemma set_rec_new:
  assumes ok: "cache_ok s B" and no: "host_map B a = None" and fresh: "y \<notin> dom (hheap s)"
    and t: "hheap t = (hheap s)(y \<mapsto> m)" "h_next m = hosthash s (hash a)"
      "hosthash t = (hosthash s)(hash a := Some y)"
  shows "\<exists>t' n. set_rec y a nm tr t = Inr t' \<and> t' = t\<lparr>hheap := hheap t'\<rparr> \<and> hheap t' y = Some n \<and>
    h_name n = nm \<and> h_trunc n = tr \<and>
    cache_ok t' (B(hash a := (y, (a, (nm, tr, now t))) # B (hash a)))"
proof -
  let ?n = "m\<lparr>h_name := nm, h_trunc := tr, h_addr := a, h_time := now t\<rparr>"
  let ?t = "t\<lparr>hheap := (hheap t)(y \<mapsto> ?n)\<rparr>"
  have y: "y \<notin> fst ` set (B h)" for h
    using cache_ok_lookup [OF ok] fresh by fastforce
  have ch: "bucket_chain s h (B h)" for h using ok by (simp add: cache_ok_def)
  have "host_data ?n = (a, nm, tr, now t)" by (simp add: host_data_def)
  with hn.push [OF ch y, of ?n "hash a"] t(2)
  have "chain h_next host_data ((hheap s)(y \<mapsto> ?n)) (Some y) ((y, (a, nm, tr, now t)) # B (hash a))" by simp
  then have "bucket_chain ?t (hash a) ((y, (a, nm, tr, now t)) # B (hash a))" using t by simp
  moreover have "bucket_chain ?t k (B k)" if "k \<noteq> hash a" for k
    using ch [of k] y [of k] that t by simp
  moreover have "\<forall>x \<in> set (B (hash a)). hash (fst (snd x)) = hash a" "distinct (map (fst \<circ> snd) (B (hash a)))"
    using ok unfolding cache_ok_def by blast+
  ultimately have "cache_ok ?t (B(hash a := (y, (a, nm, tr, now t)) # B (hash a)))"
    using no by (intro cache_ok_update [OF ok]) (auto simp: host_map_None)
  moreover have "set_rec y a nm tr t = Inr ?t" using t by (simp add: set_rec_def)
  ultimately show ?thesis by (intro exI [of _ ?t] exI [of _ ?n]) simp
qed

lemma host_map_update_new:
  "host_map (B(hash a := (y, (a, v)) # B (hash a))) = (host_map B)(a \<mapsto> v)"
  by (rule ext) (auto simp: host_map_def)

lemma host_map_update_old:
  assumes "B (hash a) = xs @ (x, (a, r)) # ys" and "a \<notin> (fst \<circ> snd) ` set xs"
  shows "host_map (B(hash a := xs @ (x, (a, v)) # ys)) = (host_map B)(a \<mapsto> v)"
proof
  fix b
  have "map_of (map snd xs) a = None" using assms(2) by (auto simp: map_of_eq_None_iff image_image)
  then show "host_map (B(hash a := xs @ (x, (a, v)) # ys)) b = ((host_map B)(a \<mapsto> v)) b"
    using assms(1) by (cases "hash b = hash a") (auto simp: host_map_def map_add_def split: option.splits)
qed

section \<open>resolve\<close>

text \<open>What \<open>resolve\<close> should do, on the map \<open>m\<close> of what is known: the name to show and the new map.\<close>

definition resolve_spec :: "(in_addr \<Rightarrow> hostent) \<Rightarrow> string \<Rightarrow> client \<Rightarrow> (in_addr \<rightharpoonup> string \<times> string \<times> int) \<Rightarrow>
    string \<Rightarrow> string \<times> (in_addr \<rightharpoonup> string \<times> string \<times> int)" where
  "resolve_spec ghba mydom s m aaddr =
     (case inet_pton aaddr of None \<Rightarrow> (aaddr, m)
      | Some a \<Rightarrow>
          let show = (\<lambda>(nm, tr, t). if trunc_local_hosts s \<noteq> 0 then tr else nm);
              stale = (case m a of None \<Rightarrow> True | Some (nm, tr, t) \<Rightarrow> now s - t > HOSTREC_EXPIRE);
              dn = (if mydomain s = [] then mydom else mydomain s)
          in if numeric s \<noteq> 0 then (aaddr, m)
             else if stale \<and> may_query s then
               (case ghba a of TryAgain \<Rightarrow> (aaddr, m)
                | NoSuchHost \<Rightarrow> (aaddr, m(a \<mapsto> (aaddr, aaddr, now s)))
                | Host nm \<Rightarrow> (show (nm, cut_domain dn nm, now s), m(a \<mapsto> (nm, cut_domain dn nm, now s))))
             else (case m a of None \<Rightarrow> aaddr | Some r \<Rightarrow> show r, m))"

text \<open>What \<open>resolve\<close> never touches.\<close>

definition no_hosts :: "client \<Rightarrow> client" where
  "no_hosts s = s\<lparr>hheap := Map.empty, hosthash := (\<lambda>_. None), mydomain := []\<rparr>"

definition host_frame :: "client \<Rightarrow> client \<Rightarrow> bool" where
  "host_frame s s' \<longleftrightarrow> no_hosts s' = no_hosts s"

lemma host_frame_refl [simp]: "host_frame s s"
  by (simp add: host_frame_def)

lemma host_frame_trans [trans]: "host_frame s s' \<Longrightarrow> host_frame s' s'' \<Longrightarrow> host_frame s s''"
  by (simp add: host_frame_def)

lemma host_frame_update:
  "host_frame s s' \<Longrightarrow> host_frame s (s'\<lparr>hheap := h\<rparr>)" "host_frame s s' \<Longrightarrow> host_frame s (s'\<lparr>mydomain := d\<rparr>)"
  "host_frame s s' \<Longrightarrow> host_frame s (s'\<lparr>hosthash := hh\<rparr>)"
  by (simp_all add: host_frame_def no_hosts_def)

lemma host_frame_fields:
  assumes "host_frame s s'"
  shows "now s' = now s" "trunc_local_hosts s' = trunc_local_hosts s" "numeric s' = numeric s"
    "count s' = count s" "cols s' = cols s" "numbuff s' = numbuff s" "scrbuff s' = scrbuff s"
    "format_width s' = format_width s" "c_LINES s' = c_LINES s" "c_COLS s' = c_COLS s" "c_out s' = c_out s"
    "curr_state s' = curr_state s" "ip_width s' = ip_width s" "resize_event_p s' = resize_event_p s"
  using assms unfolding host_frame_def no_hosts_def by (auto dest!: arg_cong [of _ _ "\<lambda>u. (now u, trunc_local_hosts u, numeric u, count u, cols u, numbuff u,
    scrbuff u, format_width u, c_LINES u, c_COLS u, c_out u, curr_state u, ip_width u, resize_event_p u)"])

text \<open>The pointer \<open>hr\<close> for an address, as \<open>probetab\<close> and \<open>gettab\<close> find it.\<close>

definition is_hr :: "client \<Rightarrow> (nat \<Rightarrow> bucket) \<Rightarrow> in_addr \<Rightarrow> addr option \<Rightarrow> bool" where
  "is_hr s B a hr \<longleftrightarrow>
     (case host_map B a of None \<Rightarrow> hr = None
      | Some r \<Rightarrow> \<exists>x xs ys. hr = Some x \<and> B (hash a) = xs @ (x, (a, r)) # ys \<and> a \<notin> (fst \<circ> snd) ` set xs)"

lemma find_host_is_hr:
  assumes "cache_ok s B"
  shows "\<exists>hr. find_host a s = Inr hr \<and> is_hr s B a hr"
proof (cases "host_map B a")
  case None
  with find_host_absent [OF assms] show ?thesis by (simp add: is_hr_def)
next
  case (Some r)
  obtain xs x ys where b: "B (hash a) = xs @ (x, (a, r)) # ys" "a \<notin> (fst \<circ> snd) ` set xs"
      "a \<notin> (fst \<circ> snd) ` set ys"
    by (rule host_map_Some [OF assms Some])
  have "find_host a s = Inr (Some x)" using find_host_present [of s B a xs x r ys] assms b by simp
  moreover have "is_hr s B a (Some x)" unfolding is_hr_def Some option.case using b by blast
  ultimately show ?thesis by blast
qed

lemma is_hr_get_rec:
  assumes "cache_ok s B" and "is_hr s B a (Some x)"
  shows "\<exists>n. get_rec x s = Inr n \<and> host_map B a = Some (h_name n, h_trunc n, h_time n)"
proof -
  obtain r where r: "host_map B a = Some r" "(x, (a, r)) \<in> set (B (hash a))"
    using assms(2) by (auto simp: is_hr_def split: option.splits)
  from cache_ok_lookup [OF assms(1) r(2)] r(1) show ?thesis by (auto simp: get_rec_def host_data_def)
qed

text \<open>Looking up the pointer and writing the record is an update of the map.\<close>

definition stores :: "addr \<Rightarrow> in_addr \<Rightarrow> string \<Rightarrow> string \<Rightarrow> (nat \<Rightarrow> bucket) \<Rightarrow> client \<Rightarrow> bool" where
  "stores x a nm tr B t \<longleftrightarrow>
     (\<exists>t' n B'. set_rec x a nm tr t = Inr t' \<and> t' = t\<lparr>hheap := hheap t'\<rparr> \<and> get_rec x t' = Inr n \<and>
        h_name n = nm \<and> h_trunc n = tr \<and> cache_ok t' B' \<and> host_map B' = (host_map B)(a \<mapsto> (nm, tr, now t)))"

lemma storesI:
  assumes "set_rec x a nm tr t = Inr t'" and "t' = t\<lparr>hheap := hheap t'\<rparr>" and "hheap t' x = Some n"
    and "h_name n = nm" "h_trunc n = tr" and "cache_ok t' B'"
    and "host_map B' = (host_map B)(a \<mapsto> (nm, tr, now t))"
  shows "stores x a nm tr B t"
  unfolding stores_def using assms by (intro exI [of _ t'] exI [of _ n] exI [of _ B']) (simp add: get_rec_def)

lemma stores_new:
  assumes "cache_ok s B" and "host_map B a = None" and "y \<notin> dom (hheap s)"
    and "hheap t = (hheap s)(y \<mapsto> m)" "h_next m = hosthash s (hash a)"
      "hosthash t = (hosthash s)(hash a := Some y)"
  shows "stores y a nm tr B t"
proof -
  obtain t' n where "set_rec y a nm tr t = Inr t'" "t' = t\<lparr>hheap := hheap t'\<rparr>" "hheap t' y = Some n"
      "h_name n = nm" "h_trunc n = tr" "cache_ok t' (B(hash a := (y, (a, (nm, tr, now t))) # B (hash a)))"
    using set_rec_new [OF assms] by blast
  then show ?thesis by (rule storesI) (rule host_map_update_new)
qed

lemma stores_old:
  assumes "cache_ok s B" and b: "B (hash a) = xs @ (x, (a, r)) # ys" "a \<notin> (fst \<circ> snd) ` set xs"
    and "hheap t = hheap s" "hosthash t = hosthash s"
  shows "stores x a nm tr B t"
proof -
  obtain t' n where "set_rec x a nm tr t = Inr t'" "t' = t\<lparr>hheap := hheap t'\<rparr>" "hheap t' x = Some n"
      "h_name n = nm" "h_trunc n = tr" "cache_ok t' (B(hash a := xs @ (x, (a, (nm, tr, now t))) # ys))"
    using set_rec_old [of s B a xs x r ys t nm tr, OF assms(1) b(1) assms(4,5)] by (elim exE conjE) simp
  then show ?thesis by (rule storesI) (rule host_map_update_old [of B a xs x r ys, OF b])
qed

lemma get_hr_stores:
  assumes ok: "cache_ok s B" and hr: "is_hr s B a hr" and fresh: "y \<notin> dom (hheap s)"
  shows "\<exists>x s1. get_hr (Some (y, junk)) a hr s = Inr (x, s1) \<and> host_frame s s1 \<and> mydomain s1 = mydomain s \<and>
    (\<forall>t nm tr. hheap t = hheap s1 \<and> hosthash t = hosthash s1 \<longrightarrow> stores x a nm tr B t)"
proof (cases "host_map B a")
  case None
  let ?m = "junk\<lparr>h_next := hosthash s (hash a)\<rparr>"
  let ?s = "s\<lparr>hheap := (hheap s)(y \<mapsto> ?m), hosthash := (hosthash s)(hash a := Some y)\<rparr>"
  have "get_hr (Some (y, junk)) a hr s = Inr (y, ?s)"
    using hr None find_host_absent [OF ok None] by (simp add: is_hr_def get_hr_def gettab_def)
  moreover have "stores y a nm tr B t" if "hheap t = hheap ?s" "hosthash t = hosthash ?s" for t nm tr
    using that by (intro stores_new [OF ok None fresh, of t ?m]) simp_all
  ultimately show ?thesis by (intro exI [of _ y] exI [of _ ?s]) (simp add: host_frame_update)
next
  case (Some r)
  then obtain x xs ys where x: "hr = Some x" "B (hash a) = xs @ (x, (a, r)) # ys" "a \<notin> (fst \<circ> snd) ` set xs"
    using hr by (auto simp: is_hr_def)
  have "stores x a nm tr B t" if "hheap t = hheap s" "hosthash t = hosthash s" for t nm tr
    using stores_old [of s B a xs x r ys t nm tr] ok x(2,3) that by simp
  with x show ?thesis by (intro exI [of _ x] exI [of _ s]) (simp add: get_hr_def)
qed

lemma query_host_refines:
  assumes ok: "cache_ok s B" and hr: "is_hr s B a hr" and fresh: "y \<notin> dom (hheap s)"
    and dn: "dn = (if mydomain s = [] then mydom else mydomain s)"
  shows "\<exists>nm s' B'. query_host ghba mydom (Some (y, junk)) aaddr a hr s = Inr (nm, s') \<and> cache_ok s' B' \<and>
    host_frame s s' \<and> (nm, host_map B') =
      (case ghba a of TryAgain \<Rightarrow> (aaddr, host_map B)
       | NoSuchHost \<Rightarrow> (aaddr, (host_map B)(a \<mapsto> (aaddr, aaddr, now s)))
       | Host nm \<Rightarrow> (if trunc_local_hosts s \<noteq> 0 then cut_domain dn nm else nm,
                     (host_map B)(a \<mapsto> (nm, cut_domain dn nm, now s))))"
proof -
  obtain x s1 where s1: "get_hr (Some (y, junk)) a hr s = Inr (x, s1)" "host_frame s s1" "mydomain s1 = mydomain s"
      "\<And>t nm tr. hheap t = hheap s1 \<Longrightarrow> hosthash t = hosthash s1 \<Longrightarrow> stores x a nm tr B t"
    using get_hr_stores [OF ok hr fresh, of junk] by blast
  note fr = host_frame_fields [OF s1(2)]
  show ?thesis
  proof (cases "ghba a")
    case (Host nm)
    let ?s2 = "if mydomain s1 = [] then s1\<lparr>mydomain := mydom\<rparr> else s1"
    have "stores x a nm (cut_domain dn nm) B ?s2" using s1(4) by simp
    then obtain t n B' where t: "set_rec x a nm (cut_domain dn nm) ?s2 = Inr t" "t = ?s2\<lparr>hheap := hheap t\<rparr>"
        "get_rec x t = Inr n" "h_name n = nm" "h_trunc n = cut_domain dn nm" "cache_ok t B'"
        "host_map B' = (host_map B)(a \<mapsto> (nm, cut_domain dn nm, now ?s2))"
      unfolding stores_def by blast
    have "host_frame s t" using s1(2) by (subst t(2)) (simp add: host_frame_update)
    note fr' = host_frame_fields [OF this]
    have "truncate_hostname mydom nm s1 = (cut_domain dn nm, ?s2)"
      using s1(3) dn by (simp add: truncate_hostname_def)
    with Host s1(1) t(1,3)
    have "query_host ghba mydom (Some (y, junk)) aaddr a hr s = Inr (shown_name t n, t)"
      by (simp add: query_host_def)
    then show ?thesis using Host t(4-7) fr fr' \<open>host_frame s t\<close>
      by (intro exI [of _ "shown_name t n"] exI [of _ t] exI [of _ B']) (simp add: shown_name_def)
  next
    case NoSuchHost
    have "stores x a aaddr aaddr B s1" using s1(4) by simp
    then obtain t n B' where t: "set_rec x a aaddr aaddr s1 = Inr t" "t = s1\<lparr>hheap := hheap t\<rparr>"
        "cache_ok t B'" "host_map B' = (host_map B)(a \<mapsto> (aaddr, aaddr, now s1))"
      unfolding stores_def by blast
    have "host_frame s t" using s1(2) by (subst t(2)) (simp add: host_frame_update)
    then show ?thesis using NoSuchHost s1(1) t fr
      by (intro exI [of _ aaddr] exI [of _ t] exI [of _ B']) (simp add: query_host_def)
  next
    case TryAgain
    then show ?thesis using ok by (auto simp: query_host_def)
  qed
qed

lemma resolve_found:
  assumes ok: "cache_ok s B" and a: "inet_pton aaddr = Some a" and num: "numeric s = 0"
  shows "\<exists>hr. is_hr s B a hr \<and> resolve ghba mydom malloc aaddr s =
    (if (case host_map B a of None \<Rightarrow> True | Some (nm, tr, t) \<Rightarrow> now s - t > HOSTREC_EXPIRE) \<and> may_query s
     then query_host ghba mydom malloc aaddr a hr s
     else Inr (case host_map B a of None \<Rightarrow> aaddr
        | Some (nm, tr, t) \<Rightarrow> if trunc_local_hosts s \<noteq> 0 then tr else nm, s))"
proof -
  obtain hr where hr: "find_host a s = Inr hr" "is_hr s B a hr" using find_host_is_hr [OF ok] by blast
  show ?thesis
  proof (cases hr)
    case None
    with hr(2) have "host_map B a = None" by (auto simp: is_hr_def split: option.splits)
    with None hr a num show ?thesis by (intro exI [of _ None]) (simp add: resolve_def probetab_def)
  next
    case (Some x)
    with is_hr_get_rec [OF ok] hr(2) obtain n where
      "get_rec x s = Inr n" "host_map B a = Some (h_name n, h_trunc n, h_time n)" by blast
    with Some hr a num show ?thesis
      by (intro exI [of _ "Some x"]) (simp add: resolve_def probetab_def gettab_def shown_name_def)
  qed
qed

lemma resolve_map:
  assumes ok: "cache_ok s B" and fresh: "y \<notin> dom (hheap s)"
  shows "\<exists>nm s' B'. resolve ghba mydom (Some (y, junk)) aaddr s = Inr (nm, s') \<and> cache_ok s' B' \<and>
    host_frame s s' \<and> (nm, host_map B') = resolve_spec ghba mydom s (host_map B) aaddr"
proof (cases "inet_pton aaddr")
  case None
  then show ?thesis using ok by (auto simp: resolve_def resolve_spec_def)
next
  case (Some a)
  show ?thesis
  proof (cases "numeric s = 0")
    case False
    with Some ok show ?thesis by (auto simp: resolve_def resolve_spec_def)
  next
    case True
    obtain hr where hr: "is_hr s B a hr" and eq: "resolve ghba mydom (Some (y, junk)) aaddr s =
        (if (case host_map B a of None \<Rightarrow> True | Some (nm, tr, t) \<Rightarrow> now s - t > HOSTREC_EXPIRE) \<and> may_query s
         then query_host ghba mydom (Some (y, junk)) aaddr a hr s
         else Inr (case host_map B a of None \<Rightarrow> aaddr
            | Some (nm, tr, t) \<Rightarrow> if trunc_local_hosts s \<noteq> 0 then tr else nm, s))"
      using resolve_found [OF ok Some True] by blast
    show ?thesis
    proof (cases "(case host_map B a of None \<Rightarrow> True | Some (nm, tr, t) \<Rightarrow> now s - t > HOSTREC_EXPIRE) \<and> may_query s")
      case ask: True
      note query_host_refines [where mydom = mydom and ghba = ghba and junk = junk and aaddr = aaddr, OF ok hr fresh refl]
      with ask eq Some True show ?thesis
        by (cases "ghba a") (simp_all add: resolve_spec_def Let_def split del: if_split)
    next
      case False
      then show ?thesis using eq Some True ok
        by (intro exI [of _ "case host_map B a of None \<Rightarrow> aaddr
              | Some (nm, tr, t) \<Rightarrow> if trunc_local_hosts s \<noteq> 0 then tr else nm"] exI [of _ s] exI [of _ B])
          (auto simp: resolve_spec_def split: option.splits)
    qed
  qed
qed

text \<open>C13: \<open>resolve\<close> on the hash table does what it should do on a finite map from addresses to names:
  it shows the address when it cannot or must not be resolved, a known name while it is fresh, and
  asks the name server otherwise, remembering a name and the absence of one.  It leaves the table
  well-formed and the rest of the program's state alone.\<close>

theorem resolve_refines:
  assumes ok: "cache_ok s B" and fresh: "y \<notin> dom (hheap s)"
  shows "\<exists>nm s' B'. resolve ghba mydom (Some (y, junk)) aaddr s = Inr (nm, s') \<and> cache_ok s' B' \<and>
    host_frame s s' \<and> (nm, host_map B') = resolve_spec ghba mydom s (host_map B) aaddr"
  by (rule resolve_map [OF assms])

lemma ex_cache_ok: "cache_ok ex_client (\<lambda>_. [])"
  by (simp add: cache_ok_def ex_client_def)

definition ex_hostrec :: hostrec where
  "ex_hostrec = \<lparr>h_addr = 0, h_name = [], h_trunc = [], h_next = None, h_time = 0\<rparr>"

lemma resolve_refines_witness:
  "\<exists>s' B'. resolve (\<lambda>_. Host ''localhost'') [] (Some (1, ex_hostrec)) ''127.0.0.1'' ex_client = Inr (''localhost'', s') \<and>
    cache_ok s' B' \<and> host_map B' = [16777343 \<mapsto> (''localhost'', ''localhost'', 1000)]"
proof -
  have "inet_pton ''127.0.0.1'' = Some 16777343" by (simp only: inet_pton_iff) code_simp
  moreover have "cut_domain [] ''localhost'' = ''localhost''" by code_simp
  moreover have "host_map (\<lambda>_. []) = Map.empty" by (rule ext) (simp add: host_map_def)
  ultimately have spec: "resolve_spec (\<lambda>_. Host ''localhost'') [] ex_client (host_map (\<lambda>_. [])) ''127.0.0.1'' =
      (''localhost'', [16777343 \<mapsto> (''localhost'', ''localhost'', 1000)])"
    by (simp add: resolve_spec_def ex_client_def may_query_def MAX_QUERY_LOAD_def Let_def)
  have "1 \<notin> dom (hheap ex_client)" by (simp add: ex_client_def)
  from resolve_refines [OF ex_cache_ok this, of "\<lambda>_. Host ''localhost''" "[]" ex_hostrec "''127.0.0.1''"]
  show ?thesis unfolding spec by blast
qed

text \<open>C23: what \<open>resolve\<close> has learnt about an address, a name or that there is none, it shows again for
  two days without asking, without memory and whatever the name server would say by then.\<close>

theorem resolve_remembers:
  assumes ok: "cache_ok s B" and fresh: "y \<notin> dom (hheap s)" and a: "inet_pton aaddr = Some a"
    and ask: "host_map B a = None" "numeric s = 0" "may_query s" "ghba a \<noteq> TryAgain"
    and d: "d \<le> HOSTREC_EXPIRE"
  shows "\<exists>nm s'. resolve ghba mydom (Some (y, junk)) aaddr s = Inr (nm, s') \<and>
    resolve ghba' mydom' None aaddr (s'\<lparr>now := now s + d\<rparr>) = Inr (nm, s'\<lparr>now := now s + d\<rparr>)"
proof -
  obtain hr where "is_hr s B a hr" and eq: "resolve ghba mydom (Some (y, junk)) aaddr s =
      query_host ghba mydom (Some (y, junk)) aaddr a hr s"
    using resolve_found [OF ok a ask(2), of ghba mydom "Some (y, junk)"] ask(1,3) by auto
  from query_host_refines [OF ok this(1) fresh refl] eq obtain nm s' B' where
    s': "resolve ghba mydom (Some (y, junk)) aaddr s = Inr (nm, s')" "cache_ok s' B'" "host_frame s s'"
      "(nm, host_map B') = (case ghba a of TryAgain \<Rightarrow> (aaddr, host_map B)
       | NoSuchHost \<Rightarrow> (aaddr, (host_map B)(a \<mapsto> (aaddr, aaddr, now s)))
       | Host nm \<Rightarrow> (if trunc_local_hosts s \<noteq> 0 then cut_domain (if mydomain s = [] then mydom else mydomain s) nm else nm,
           (host_map B)(a \<mapsto> (nm, cut_domain (if mydomain s = [] then mydom else mydomain s) nm, now s))))"
    by (metis (no_types, lifting))
  let ?s = "s'\<lparr>now := now s + d\<rparr>"
  have ok': "cache_ok ?s B'" using s'(2) by (simp add: cache_ok_def)
  have num: "numeric ?s = 0" "trunc_local_hosts ?s = trunc_local_hosts s"
    using host_frame_fields [OF s'(3)] ask(2) by simp_all
  obtain n tr where "host_map B' a = Some (n, tr, now s)" "nm = (if trunc_local_hosts s \<noteq> 0 then tr else n)"
    using s'(4) ask(4) by (cases "ghba a") auto
  with resolve_found [OF ok' a num(1), of ghba' mydom' None] d num(2) s'(1) show ?thesis by auto
qed

lemma resolve_remembers_witness:
  "\<exists>nm s'. resolve (\<lambda>_. Host ''localhost'') [] (Some (1, ex_hostrec)) ''127.0.0.1'' ex_client = Inr (nm, s') \<and>
    resolve (\<lambda>_. Host ''elsewhere'') [] None ''127.0.0.1'' (s'\<lparr>now := 1000 + 3600\<rparr>) = Inr (nm, s'\<lparr>now := 1000 + 3600\<rparr>)"
proof -
  have a: "inet_pton ''127.0.0.1'' = Some 16777343" by (simp only: inet_pton_iff) code_simp
  have "now ex_client = 1000" by (simp add: ex_client_def)
  moreover have "\<exists>nm s'. resolve (\<lambda>_. Host ''localhost'') [] (Some (1, ex_hostrec)) ''127.0.0.1'' ex_client = Inr (nm, s') \<and>
    resolve (\<lambda>_. Host ''elsewhere'') [] None ''127.0.0.1'' (s'\<lparr>now := now ex_client + 3600\<rparr>) =
      Inr (nm, s'\<lparr>now := now ex_client + 3600\<rparr>)"
    by (rule resolve_remembers [OF ex_cache_ok _ a])
      (simp_all add: ex_client_def host_map_def may_query_def MAX_QUERY_LOAD_def HOSTREC_EXPIRE_def)
  ultimately show ?thesis by simp
qed

text \<open>The load that decides whether the name server may be asked leaves out what was sent in the
  latest interval: the value of \<open>txload[2]\<close> makes no difference to the name that is shown.\<close>

lemma resolve_ignores_latest_txload:
  assumes "cache_ok s B" and "y \<notin> dom (hheap s)"
  shows "\<exists>nm s1 s2. resolve ghba mydom (Some (y, junk)) aaddr (s\<lparr>txload := (t0, t1, t2)\<rparr>) = Inr (nm, s1) \<and>
    resolve ghba mydom (Some (y, junk)) aaddr (s\<lparr>txload := (t0, t1, t2')\<rparr>) = Inr (nm, s2)"
proof -
  let ?s = "\<lambda>t. s\<lparr>txload := (t0, t1, t)\<rparr>"
  have ok: "cache_ok (?s t) B" "y \<notin> dom (hheap (?s t))" for t using assms by (simp_all add: cache_ok_def)
  have mq: "may_query (?s t2) = may_query (?s t2')" by (simp add: may_query_def)
  have "resolve_spec ghba mydom (?s t2) m aaddr = resolve_spec ghba mydom (?s t2') m aaddr" for m
    by (simp add: resolve_spec_def mq Let_def split: option.split hostent.split)
  with resolve_map [OF ok, of ghba mydom junk aaddr t2] resolve_map [OF ok, of ghba mydom junk aaddr t2'] show ?thesis
    by (metis (no_types, lifting) fst_conv)
qed

lemma resolve_ignores_latest_txload_witness:
  "\<exists>nm s1 s2. resolve (\<lambda>_. Host ''localhost'') [] (Some (1, ex_hostrec)) ''127.0.0.1'' (ex_client\<lparr>txload := (0, 0, 0)\<rparr>) =
      Inr (nm, s1) \<and>
    resolve (\<lambda>_. Host ''localhost'') [] (Some (1, ex_hostrec)) ''127.0.0.1'' (ex_client\<lparr>txload := (0, 0, 1000000)\<rparr>) =
      Inr (nm, s2)"
  by (rule resolve_ignores_latest_txload [OF ex_cache_ok]) (simp add: ex_client_def)

section \<open>Shortening a name\<close>

lemma strstr_first:
  assumes "take (length d) (drop k s) = d" and "k \<le> length s" and "\<And>j. j < k \<Longrightarrow> take (length d) (drop j s) \<noteq> d"
  shows "strstr s d = Some k"
  using assms
proof (induction s arbitrary: k)
  case Nil
  then show ?case by simp
next
  case (Cons c s)
  show ?case
  proof (cases k)
    case 0
    with Cons.prems show ?thesis by simp
  next
    case (Suc k')
    have "take (length d) (c # s) \<noteq> d" using Cons.prems(3) [of 0] Suc by simp
    moreover have "strstr s d = Some k'"
    proof (rule Cons.IH)
      show "take (length d) (drop j s) \<noteq> d" if "j < k'" for j using Cons.prems(3) [of "Suc j"] that Suc by simp
    qed (use Cons.prems Suc in simp_all)
    ultimately show ?thesis using Suc by simp
  qed
qed

text \<open>\<open>truncate_hostname\<close> cuts a name before the first place where the domain occurs in it, and
  takes the character in front of it away.  A host of the local domain loses the dot and the domain,
  as intended; but the same happens wherever the domain's letters turn up, whatever stands in front
  of them and whatever follows.\<close>

lemma truncate_hostname_cuts:
  assumes "\<And>j. j \<le> length h \<Longrightarrow> take (length (mydomain s)) (drop j (h @ c # mydomain s @ rest)) \<noteq> mydomain s"
    and "mydomain s \<noteq> []"
  shows "truncate_hostname mydom (h @ c # mydomain s @ rest) s = (h, s)"
proof -
  have "strstr (h @ c # mydomain s @ rest) (mydomain s) = Some (Suc (length h))"
    using assms(1) by (intro strstr_first) auto
  with assms(2) show ?thesis by (simp add: truncate_hostname_def cut_domain_def)
qed

lemma truncate_hostname_cuts_witness:
  "truncate_hostname [] (''shop'' @ CHR ''-'' # ''home'' @ ''.example'') (ex_client\<lparr>mydomain := ''home''\<rparr>) =
    (''shop'', ex_client\<lparr>mydomain := ''home''\<rparr>)"
proof -
  have "\<forall>j \<in> set [0..<5]. take 4 (drop j (''shop'' @ CHR ''-'' # ''home'' @ ''.example'')) \<noteq> ''home''"
    by code_simp
  then have "j \<le> 4 \<Longrightarrow> take 4 (drop j (''shop'' @ CHR ''-'' # ''home'' @ ''.example'')) \<noteq> ''home''" for j :: nat
    by (simp only: set_upt atLeastLessThan_iff Ball_def) simp
  then show ?thesis
    using truncate_hostname_cuts [of "''shop''" "ex_client\<lparr>mydomain := ''home''\<rparr>" "CHR ''-''" "''.example''" "[]"]
    by (simp add: numeral_eq_Suc)
qed

end
