(* ===== verification/HostMemory.thy ===== *)
theory HostMemory
  imports HostCache
begin

text \<open>
  The memory of the cache of host names: which blocks of the heap \<open>resolve\<close> uses, and what it does when
  no memory is left.
\<close>

section \<open>The blocks in use\<close>

text \<open>The block that a \<open>malloc\<close> hands out.\<close>

definition blocks :: "host_malloc \<Rightarrow> addr set" where
  "blocks m = (case m of None \<Rightarrow> {} | Some (y, junk) \<Rightarrow> {y})"

lemma gettab_dom: "gettab m a s = Inr (x, s') \<Longrightarrow> dom (hheap s') \<subseteq> dom (hheap s) \<union> blocks m"
  by (auto simp: gettab_def rbind_eq_Inr blocks_def split: option.splits)

lemma get_hr_dom: "get_hr m a hr s = Inr (x, s') \<Longrightarrow> dom (hheap s') \<subseteq> dom (hheap s) \<union> blocks m"
  by (auto simp: get_hr_def split: option.splits dest: gettab_dom)

lemma set_rec_dom: "set_rec x a nm tr s = Inr s' \<Longrightarrow> dom (hheap s') = dom (hheap s)"
  by (auto simp: set_rec_def split: option.splits if_splits)

lemma truncate_hostname_heap: "hheap (snd (truncate_hostname mydom nm s)) = hheap s"
  by (simp add: truncate_hostname_def Let_def)

lemma query_host_dom:
  assumes "query_host ghba mydom m aaddr a hr s = Inr (nm, s')"
  shows "dom (hheap s') \<subseteq> dom (hheap s) \<union> blocks m"
proof (cases "ghba a")
  case TryAgain
  with assms show ?thesis by (auto simp: query_host_def)
next
  case NoSuchHost
  with assms obtain x s1 where "get_hr m a hr s = Inr (x, s1)" "set_rec x a aaddr aaddr s1 = Inr s'"
    by (auto simp: query_host_def rbind_eq_Inr)
  with get_hr_dom set_rec_dom show ?thesis by metis
next
  case (Host h)
  with assms obtain x s1 tr where "get_hr m a hr s = Inr (x, s1)"
      "set_rec x a h tr (snd (truncate_hostname mydom h s1)) = Inr s'"
    by (auto simp: query_host_def case_prod_beta)
  with get_hr_dom set_rec_dom truncate_hostname_heap show ?thesis by metis
qed

text \<open>After \<open>probetab\<close> has found a record, \<open>gettab\<close> finds it again, so only \<open>query_host\<close> allocates.\<close>

lemma resolve_walk:
  "resolve ghba mydom m aaddr s =
     (case inet_pton aaddr of None \<Rightarrow> Inr (aaddr, s)
      | Some a \<Rightarrow>
          if numeric s \<noteq> 0 then Inr (aaddr, s)
          else rbind (find_host a s) (\<lambda>hr.
            rbind (case hr of None \<Rightarrow> Inr True | Some x \<Rightarrow> rbind (get_rec x s) (\<lambda>n. Inr (now s - h_time n > HOSTREC_EXPIRE)))
              (\<lambda>stale.
                if stale \<and> may_query s then query_host ghba mydom m aaddr a hr s
                else (case hr of None \<Rightarrow> Inr (aaddr, s) | Some x \<Rightarrow> rbind (get_rec x s) (\<lambda>n. Inr (shown_name s n, s))))))"
proof (cases "inet_pton aaddr")
  case (Some a)
  then show ?thesis
    by (cases "find_host a s"; cases "projr (find_host a s)") (simp_all add: resolve_def probetab_def gettab_def)
qed (simp add: resolve_def)

lemma resolve_dom:
  assumes "resolve ghba mydom m aaddr s = Inr (nm, s')"
  shows "dom (hheap s') \<subseteq> dom (hheap s) \<union> blocks m"
proof -
  have "s' = s \<or> (\<exists>a hr. query_host ghba mydom m aaddr a hr s = Inr (nm, s'))"
    using assms unfolding resolve_walk by (auto split: option.splits if_splits)
  with query_host_dom show ?thesis by blast
qed

text \<open>The domain is asked for once.\<close>

lemma gettab_domain: "gettab m a s = Inr (x, s') \<Longrightarrow> mydomain s' = mydomain s"
  by (auto simp: gettab_def rbind_eq_Inr split: option.splits)

lemma get_hr_domain: "get_hr m a hr s = Inr (x, s') \<Longrightarrow> mydomain s' = mydomain s"
  by (auto simp: get_hr_def split: option.splits dest: gettab_domain)

lemma set_rec_domain: "set_rec x a nm tr s = Inr s' \<Longrightarrow> mydomain s' = mydomain s"
  by (auto simp: set_rec_def split: option.splits)

lemma query_host_domain:
  assumes "query_host ghba mydom m aaddr a hr s = Inr (nm, s')"
  shows "mydomain s' = mydomain s \<or> mydomain s = [] \<and> mydomain s' = mydom"
  using assms
  by (auto simp: query_host_def truncate_hostname_def Let_def split: hostent.splits if_splits
      dest!: get_hr_domain set_rec_domain)

lemma resolve_domain:
  assumes "resolve ghba mydom m aaddr s = Inr (nm, s')"
  shows "mydomain s' = mydomain s \<or> mydomain s = [] \<and> mydomain s' = mydom"
proof -
  have "s' = s \<or> (\<exists>a hr. query_host ghba mydom m aaddr a hr s = Inr (nm, s'))"
    using assms unfolding resolve_walk by (auto split: option.splits if_splits)
  with query_host_domain show ?thesis by blast
qed

section \<open>Without memory\<close>

text \<open>A step that has no memory left either crashes or does not need any.\<close>

definition crashes_or_spares :: "(host_malloc \<Rightarrow> 'a res) \<Rightarrow> bool" where
  "crashes_or_spares f \<longleftrightarrow> f None = Inl NullDeref \<or> (\<forall>m. f m = f None)"

lemma spares: "crashes_or_spares (\<lambda>_. r)"
  by (simp add: crashes_or_spares_def)

lemma spares_rbind: "crashes_or_spares f \<Longrightarrow> crashes_or_spares (\<lambda>m. rbind (f m) g)"
  unfolding crashes_or_spares_def by (metis rbind.simps(1))

lemma gettab_spares: "crashes_or_spares (\<lambda>m. gettab m a s)"
  by (cases "find_host a s") (auto simp: crashes_or_spares_def gettab_def split: option.split)

lemma get_hr_spares: "crashes_or_spares (\<lambda>m. get_hr m a hr s)"
  by (cases hr) (simp_all add: get_hr_def spares gettab_spares)

lemma spares_if: "crashes_or_spares f \<Longrightarrow> crashes_or_spares (\<lambda>m. if b then f m else r)"
  by (cases b) (simp_all add: spares)

lemma query_host_spares: "crashes_or_spares (\<lambda>m. query_host ghba mydom m aaddr a hr s)"
  by (cases "ghba a") (simp_all add: query_host_def spares spares_rbind get_hr_spares)

lemma resolve_spares: "crashes_or_spares (\<lambda>m. resolve ghba mydom m aaddr s)"
proof (cases "inet_pton aaddr")
  case (Some a)
  have "crashes_or_spares (\<lambda>m. rbind r (\<lambda>b. if b \<and> c then query_host ghba mydom m aaddr a hr s else q))" for r c hr q
    by (cases r) (simp_all add: spares spares_if query_host_spares)
  with Some show ?thesis by (cases "numeric s = 0"; cases "find_host a s") (simp_all add: resolve_walk spares)
qed (simp add: resolve_def spares)

section \<open>The invariant\<close>

text \<open>The table is well-formed and its records lie in the blocks \<open>A\<close>.\<close>

definition cache_fits :: "addr set \<Rightarrow> client \<Rightarrow> bool" where
  "cache_fits A s \<longleftrightarrow> (\<exists>B. cache_ok s B) \<and> dom (hheap s) \<subseteq> A \<and> finite (dom (hheap s))"

text \<open>A \<open>malloc\<close> that gives a block outside of \<open>A\<close>, or none if it \<open>may_fail\<close>.\<close>

definition supplied :: "bool \<Rightarrow> addr set \<Rightarrow> host_malloc \<Rightarrow> bool" where
  "supplied may_fail A m \<longleftrightarrow> blocks m \<inter> A = {} \<and> (m \<noteq> None \<or> may_fail)"

text \<open>With a new block \<open>resolve\<close> succeeds; without memory it crashes, or does what it does with any block.\<close>

lemma resolve_supplied:
  assumes fits: "cache_fits A s" and m: "supplied may_fail A m"
  shows "may_fail \<and> resolve ghba mydom m aaddr s = Inl NullDeref \<or>
    (\<exists>nm s'. resolve ghba mydom m aaddr s = Inr (nm, s') \<and> cache_fits (A \<union> blocks m) s')"
proof -
  obtain B where B: "cache_ok s B" using fits by (auto simp: cache_fits_def)
  have fin: "finite (dom (hheap s))" "dom (hheap s) \<subseteq> A" using fits by (simp_all add: cache_fits_def)
  have good: "\<exists>nm s' B'. resolve ghba mydom (Some (y, junk)) aaddr s = Inr (nm, s') \<and> cache_ok s' B'"
    if "y \<notin> dom (hheap s)" for y junk
    using resolve_map [OF B that] by blast
  have fits': "cache_fits (A \<union> blocks m) s'"
    if s': "resolve ghba mydom m aaddr s = Inr (nm, s')" "cache_ok s' B'" for nm s' B'
  proof -
    have "dom (hheap s') \<subseteq> dom (hheap s) \<union> blocks m" by (rule resolve_dom [OF s'(1)])
    moreover have "finite (blocks m)" by (auto simp: blocks_def split: option.split)
    ultimately show ?thesis using fin s'(2) finite_subset by (fastforce simp: cache_fits_def)
  qed
  show ?thesis
  proof (cases m)
    case (Some z)
    then have "fst z \<notin> dom (hheap s)" using m fin(2) by (cases z) (auto simp: supplied_def blocks_def)
    from good [OF this, of "snd z"] Some fits' show ?thesis by (metis prod.collapse)
  next
    case None
    obtain y where "y \<notin> dom (hheap s)" using ex_new_if_finite [OF infinite_UNIV_nat] fin(1) by metis
    from good [OF this] resolve_spares [of ghba mydom aaddr s] None m fits' show ?thesis
      unfolding crashes_or_spares_def supplied_def by metis
  qed
qed

end
