(* ===== verification/Display.thy ===== *)
theory Display
  imports Screen HostMemory
begin

text \<open>
  What the client shows of diald's reports (\<open>client/parser.c\<close>): the link state, the interface, the
  message line and the list of packets, one row buffer each.  \<open>sprintf\<close> and \<open>strcpy\<close> into a buffer
  that is too small are errors, and so is reading a row that holds no NUL.  The lemmas show that the
  rows hold the packets of the report as long as the widths match the screen, and what happens when
  they do not.
\<close>

section \<open>parser.c\<close>

text \<open>Outside the test program the values of a status report and the end of a queue are ignored.\<close>

definition do_status :: "int list \<Rightarrow> string list \<Rightarrow> client \<Rightarrow> client" where
  [simp]: "do_status ns ts s = s"

definition do_endqueue :: "client \<Rightarrow> client" where
  [simp]: "do_endqueue s = s"

definition do_load :: "int \<Rightarrow> int \<Rightarrow> client \<Rightarrow> client" where
  "do_load itxtotal irxtotal s =
     (case (rxload s, txload s) of ((r0, r1, r2), (t0, t1, t2)) \<Rightarrow>
        s\<lparr>rxload := (r1, r2, irxtotal), txload := (t1, t2, itxtotal)\<rparr>)"

text \<open>The text of the interface line for a given number of blanks between its parts.\<close>

definition interface_line :: "int \<Rightarrow> string \<Rightarrow> string \<Rightarrow> string \<Rightarrow> string" where
  "interface_line spcs ifc loc rem = ''Interface: '' @ ifc @ printf_width spcs [] @ ''Local IP: '' @ loc @
     printf_width spcs [] @ ''Remote IP: '' @ rem"

definition interface_fmt :: "int \<Rightarrow> string" where
  "interface_fmt spcs = ''%-s%s%'' @ show_int spcs @ ''s%-s%s%'' @ show_int spcs @ ''s%-s%s''"

definition do_interface :: "string \<Rightarrow> string \<Rightarrow> string \<Rightarrow> client \<Rightarrow> client res" where
  "do_interface ifc loc rem s =
     (let s1 = say (ClrToEol LINE_INTERFACE) s;
          spcs = half_diff (c_COLS s1 - 32) (length ifc + length rem + length loc)
      in rbind (fits (nat (c_COLS s1)) (interface_fmt spcs)) (\<lambda>_.
           rbind (fits (nat (c_COLS s1 + 2)) (interface_line spcs ifc loc rem))
             (\<lambda>line. Inr (say (Print Full LINE_INTERFACE 0 line) s1))))"

definition do_state :: "string \<Rightarrow> client \<Rightarrow> client res" where
  "do_state st s =
     rbind (fits LINELENGTH st) (\<lambda>st.
       let s1 = say (ClrToEol LINE_STATE) (s\<lparr>curr_state := st\<rparr>) in
       rbind (fits LINELENGTH (''Link Status:  '' @ curr_state s1 @ replicate 10 SP)) (\<lambda>line.
         let s2 = say (Print Full LINE_STATE 0 line) s1 in
         rbind (fits LINELENGTH (''   Packets Queued:  '' @ show_int (count s2) @ ''   '')) (\<lambda>line'.
           Inr (say (Print Full LINE_STATE (half_diff (c_COLS s2) (length line')) line') s2))))"

text \<open>\<open>%-*.*s\<close> with the width \<open>w\<close> twice: a negative precision counts as none.\<close>

definition message_field :: "int \<Rightarrow> string \<Rightarrow> string" where
  "message_field w t =
     (if w < 0 then pad_right (nat (- w)) t else pad_right (nat w) (take (nat w) t))"

definition do_message :: "string \<Rightarrow> client \<Rightarrow> client" where
  "do_message msg s =
     (let w = c_COLS s - 11 + 1
      in say (Print Full LINE_MESSAGE 0 (''Message:  '' @ message_field w msg)) (say (ClrToEol LINE_MESSAGE) s))"

text \<open>Access to the row buffers: an index outside the array, a null pointer.\<close>

definition get_row :: "int \<Rightarrow> client \<Rightarrow> string res" where
  "get_row i s =
     (if i < 0 \<or> MAXBUFS \<le> i then Inl OutOfBounds
      else case scrbuff s (nat i) of None \<Rightarrow> Inl NullDeref | Some b \<Rightarrow> Inr b)"

definition set_row :: "int \<Rightarrow> string \<Rightarrow> client \<Rightarrow> client" where
  "set_row i b s = s\<lparr>scrbuff := (scrbuff s)(nat i := Some b)\<rparr>"

fun clear_rows :: "nat list \<Rightarrow> client \<Rightarrow> client res" where
  "clear_rows [] s = Inr s"
| "clear_rows (i # is) s =
     rbind (get_row (int i) s) (\<lambda>b.
       if b = [] then Inl BufferOverflow else clear_rows is (set_row (int i) (NUL # tl b) s))"

text \<open>\<open>do_queue\<close>; \<open>t\<close> is what \<open>time\<close> returns.\<close>

definition do_queue :: "int \<Rightarrow> client \<Rightarrow> client res" where
  "do_queue t s =
     (let s1 = say (Erase Sub) (s\<lparr>now := t, count := 0\<rparr>) in clear_rows [0..<nat (numbuff s1)] s1)"

text \<open>\<open>sprintf\<close> with \<open>format\<close>, which holds the width it was made with: \<open>%w.ws\<close> with a negative \<open>w\<close> is
  no conversion of C.\<close>

definition fixed_left :: "nat \<Rightarrow> string \<Rightarrow> string" where
  "fixed_left w t = pad_right w (take w t)"

definition fixed_right :: "nat \<Rightarrow> string \<Rightarrow> string" where
  "fixed_right w t = (let u = take w t in replicate (w - length u) SP @ u)"

definition packet_row :: "int \<Rightarrow> string \<Rightarrow> string \<Rightarrow> string \<Rightarrow> string \<Rightarrow> string \<Rightarrow> string \<Rightarrow> string res" where
  "packet_row w proto n1 p1 n2 p2 ttl =
     (if w < 0 then Inl BadFormat
      else Inr (fixed_left 4 proto @ '' '' @ fixed_right (nat w) n1 @ ''/'' @ fixed_left 8 p1 @ '' '' @
                fixed_right (nat w) n2 @ ''/'' @ fixed_left 8 p2 @ ''  '' @ ttl @ [LF]))"

text \<open>\<open>strncpy(dst, src, n)\<close>: at most \<open>n\<close> characters, the rest of the \<open>n\<close> filled with NULs, the bytes
  behind them left alone.\<close>

definition strncpy :: "string \<Rightarrow> string \<Rightarrow> nat \<Rightarrow> string res" where
  "strncpy dst src n =
     (if n \<le> length dst then Inr (take n src @ replicate (n - length src) NUL @ drop n dst)
      else Inl BufferOverflow)"

text \<open>What \<open>do_packet\<close> meets: name server, domain, memory for two cache records, services.\<close>

record packet_env =
  p_ghba :: "in_addr \<Rightarrow> hostent"
  p_domain :: string
  p_malloc1 :: host_malloc
  p_malloc2 :: host_malloc
  p_gsbp :: "int \<Rightarrow> string \<Rightarrow> string option"
  p_memory :: bool

record packet =
  protocol :: string
  ip1 :: string
  port1 :: int
  ip2 :: string
  port2 :: int
  ttl :: string

definition do_packet :: "packet_env \<Rightarrow> packet \<Rightarrow> client \<Rightarrow> client res" where
  "do_packet e p s =
     (if count s \<le> c_LINES s - HEAD_LINES then
        let destports = service (p_gsbp e) (p_memory e) (port1 p) (protocol p);
            sourceports = service (p_gsbp e) (p_memory e) (port2 p) (protocol p)
        in rbind (resolve (p_ghba e) (p_domain e) (p_malloc1 e) (ip1 p) s) (\<lambda>(n1, s1).
           rbind (resolve (p_ghba e) (p_domain e) (p_malloc2 e) (ip2 p) s1) (\<lambda>(n2, s2).
           rbind (packet_row (format_width s2) (protocol p) n1 destports n2 sourceports (ttl p)) (\<lambda>row.
           rbind (fits 512 row) (\<lambda>buf.
           rbind (get_row (count s2) s2) (\<lambda>b.
           rbind (strncpy b buf (nat (cols s2))) (\<lambda>b'.
             let s3 = set_row (count s2) b' s2 in Inr (s3\<lparr>count := count s3 + 1\<rparr>)))))))
      else Inr (s\<lparr>count := count s + 1\<rparr>))"

text \<open>The display loop of \<open>read_fifo\<close> (\<open>client/pipe.c\<close>).\<close>

fun show_rows :: "nat list \<Rightarrow> client \<Rightarrow> client res" where
  "show_rows [] s = Inr s"
| "show_rows (i # is) s =
     rbind (get_row (int i) s) (\<lambda>b.
       if NUL \<in> set b then show_rows is (say (Print Sub (int i) 0 (cstr b)) s) else Inl Unterminated)"

definition show_packets :: "client \<Rightarrow> client res" where
  "show_packets s =
     (let s1 = say (Erase Sub) s in
      if count s1 = 0 then Inr (say (Print Sub 0 5 (''No packets queued'' @ [LF])) s1)
      else show_rows [0..<nat (min (numbuff s1) (count s1))] s1)"

text \<open>\<open>lex_testkey\<close>: whether a key waits, as \<open>select\<close> says; an error of \<open>select\<close> counts as a key.\<close>

definition lex_testkey :: "int \<Rightarrow> int" where
  "lex_testkey ready = (let yacc_key = ready in yacc_key)"

section \<open>Widths\<close>

lemma half_diff_eq:
  assumes "- (2 ^ 31) \<le> a - int n" and "a - int n < 2 ^ 31"
  shows "half_diff a n = (a - int n) div 2"
proof -
  let ?d = "a - int n"
  have w: "(of_int a - of_nat n :: 64 word) = of_int ?d" by simp
  have "uint ((of_int d :: 64 word) div 2) = take_bit 64 d div 2" for d :: int
    by (simp add: uint_div_distrib unsigned_of_int take_bit_eq_mod)
  then have "uint ((of_int ?d :: 64 word) div 2) = take_bit 64 ?d div 2" .
  also have "\<dots> = take_bit 63 (?d div 2)"
    using drop_bit_take_bit [of 1 64 ?d] by (simp add: drop_bit_eq_div)
  finally have "half_diff a n = signed_take_bit 31 (take_bit 63 (?d div 2))"
    unfolding half_diff_def w by (simp add: sint_uint unsigned_ucast_eq signed_take_bit_take_bit)
  also have "\<dots> = signed_take_bit 31 (?d div 2)" by (simp add: signed_take_bit_take_bit)
  also have "\<dots> = ?d div 2" using assms by (intro signed_take_bit_int_eq_self) simp_all
  finally show ?thesis .
qed

lemma length_fixed [simp]: "length (fixed_left w t) = w" "length (fixed_right w t) = w"
  by (simp_all add: fixed_left_def fixed_right_def pad_right_def Let_def)

lemma length_packet_row:
  "packet_row w proto n1 p1 n2 p2 tm = Inr row \<Longrightarrow> length row = 27 + 2 * nat w + length tm"
  by (auto simp: packet_row_def split: if_splits)

lemma cstr_NUL_append: "cstr (r @ NUL # x) = cstr r"
  by (induction r) (simp_all add: cstr_def)

lemma strncpy_fits:
  assumes "length src < n" and "length dst = n + 1"
  obtains b where "strncpy dst src n = Inr b" "length b = n + 1" "NUL \<in> set b" "cstr b = cstr src"
proof -
  obtain k where k: "n - length src = Suc k" using assms(1) by (metis Suc_diff_Suc)
  let ?b = "src @ replicate (n - length src) NUL @ drop n dst"
  have "strncpy dst src n = Inr ?b" using assms by (simp add: strncpy_def)
  moreover have "cstr ?b = cstr src" by (simp add: k cstr_NUL_append)
  moreover have "length ?b = n + 1" "NUL \<in> set ?b" using assms k by simp_all
  ultimately show thesis using that by blast
qed

section \<open>The packet list\<close>

text \<open>The string a row holds.\<close>

definition row_text :: "client \<Rightarrow> nat \<Rightarrow> string" where
  "row_text s i = (case scrbuff s i of None \<Rightarrow> [] | Some b \<Rightarrow> cstr b)"

text \<open>The widths fit the screen: a row with a time of eight characters is shorter than the screen is
  wide, there is a buffer for every row that is filled, and the intermediate buffer is large enough.\<close>

definition display_ok :: "client \<Rightarrow> bool" where
  "display_ok s \<longleftrightarrow> rows_ok s \<and> 0 \<le> format_width s \<and> 35 + 2 * format_width s < cols s \<and> cols s \<le> 512 \<and>
     c_LINES s - HEAD_LINES < numbuff s \<and> 0 \<le> count s"

lemma display_ok_after_init:
  assumes "rows_ok s" and "36 \<le> cols s" "cols s \<le> 512" and "format_width s = (cols s - 36) div 2"
    and "numbuff s = min (c_LINES s + 1) MAXBUFS" "c_LINES s \<le> 264" and "0 \<le> count s"
  shows "display_ok s"
  using assms by (auto simp: display_ok_def MAXBUFS_def HEAD_LINES_def)

lemma rows_ok_set_row:
  assumes "rows_ok s" and "0 \<le> i" "i < numbuff s" and "length b = nat (cols s) + 1" "NUL \<in> set b"
  shows "rows_ok (set_row i b s)"
proof (rule rows_okI)
  fix j assume "int j < numbuff (set_row i b s)"
  then show "\<exists>b'. scrbuff (set_row i b s) j = Some b' \<and> length b' = nat (cols (set_row i b s)) + 1 \<and> NUL \<in> set b'"
    using rows_ok_row [OF assms(1), of j] assms(4,5) by (cases "j = nat i") (simp_all add: set_row_def)
next
  fix j assume "numbuff (set_row i b s) \<le> int j"
  then show "scrbuff (set_row i b s) j = None"
    using rows_ok_none [OF assms(1), of j] assms(2,3) by (auto simp: set_row_def)
qed (use assms(1) in \<open>simp_all add: set_row_def rows_ok_def\<close>)

lemma get_row_ok:
  assumes "rows_ok s" and "0 \<le> i" "i < numbuff s"
  obtains b where "get_row i s = Inr b" "length b = nat (cols s) + 1" "NUL \<in> set b" "row_text s (nat i) = cstr b"
    "scrbuff s (nat i) = Some b"
proof -
  have "int (nat i) < numbuff s" "i < MAXBUFS" using assms by (auto simp: rows_ok_def)
  with rows_ok_row [OF assms(1), of "nat i"] obtain b where
    "scrbuff s (nat i) = Some b" "length b = nat (cols s) + 1" "NUL \<in> set b" by blast
  with assms(2) \<open>i < MAXBUFS\<close> that show thesis by (simp add: get_row_def row_text_def)
qed

lemma clear_rows_result:
  assumes "rows_ok s" and "\<forall>i \<in> set is. int i < numbuff s"
  shows "\<exists>s'. clear_rows is s = Inr s' \<and> rows_ok s' \<and> numbuff s' = numbuff s \<and> no_rows s' = no_rows s \<and>
    (\<forall>i. row_text s' i = (if i \<in> set is then [] else row_text s i))"
  using assms
proof (induction "is" arbitrary: s)
  case (Cons i "is")
  obtain b where b: "get_row (int i) s = Inr b" "length b = nat (cols s) + 1"
    using get_row_ok [OF Cons.prems(1), of "int i"] Cons.prems(2) by auto
  then have ne: "b \<noteq> []" by auto
  let ?s = "set_row (int i) (NUL # tl b) s"
  have ok: "rows_ok ?s" using Cons.prems b ne by (intro rows_ok_set_row) auto
  have fr: "numbuff ?s = numbuff s" "no_rows ?s = no_rows s"
    "row_text ?s j = (if j = i then [] else row_text s j)" for j
    by (simp_all add: set_row_def no_rows_def row_text_def cstr_def)
  from Cons.IH [OF ok] Cons.prems(2) obtain s' where s': "clear_rows is ?s = Inr s'" "rows_ok s'"
      "numbuff s' = numbuff ?s" "no_rows s' = no_rows ?s" "\<forall>j. row_text s' j = (if j \<in> set is then [] else row_text ?s j)"
    by (auto simp: fr)
  then show ?case using b ne by (auto simp: fr)
qed auto

text \<open>The row of a packet when addresses are not resolved.\<close>

definition packet_text :: "packet_env \<Rightarrow> packet \<Rightarrow> nat \<Rightarrow> string" where
  "packet_text e p w = fixed_left 4 (protocol p) @ '' '' @ fixed_right w (ip1 p) @ ''/'' @
     fixed_left 8 (service (p_gsbp e) (p_memory e) (port1 p) (protocol p)) @ '' '' @ fixed_right w (ip2 p) @ ''/'' @
     fixed_left 8 (service (p_gsbp e) (p_memory e) (port2 p) (protocol p)) @ ''  '' @ ttl p @ [LF]"

lemma resolve_numeric: "numeric s \<noteq> 0 \<Longrightarrow> resolve ghba mydom malloc aaddr s = Inr (aaddr, s)"
  by (simp add: resolve_def split: option.split)

lemma do_packet_numeric:
  assumes "numeric s \<noteq> 0" and "count s \<le> c_LINES s - HEAD_LINES" and "0 \<le> format_width s"
    and "length (packet_text e p (nat (format_width s))) < 512"
  shows "do_packet e p s = rbind (get_row (count s) s) (\<lambda>b.
    rbind (strncpy b (packet_text e p (nat (format_width s))) (nat (cols s))) (\<lambda>b'.
      Inr ((set_row (count s) b' s)\<lparr>count := count s + 1\<rparr>)))"
  using assms by (simp add: do_packet_def resolve_numeric packet_row_def packet_text_def set_row_def fits_def)

definition same_display :: "client \<Rightarrow> client \<Rightarrow> bool" where
  "same_display s s' \<longleftrightarrow> numbuff s' = numbuff s \<and> cols s' = cols s \<and> format_width s' = format_width s \<and>
     c_LINES s' = c_LINES s \<and> c_COLS s' = c_COLS s \<and> numeric s' = numeric s \<and> c_out s' = c_out s \<and>
     curr_state s' = curr_state s \<and> resize_event_p s' = resize_event_p s \<and> yacc_eof s' = yacc_eof s"

lemma same_display_refl [simp]: "same_display s s"
  by (simp add: same_display_def)

lemma same_display_trans: "same_display s s' \<Longrightarrow> same_display s' s'' \<Longrightarrow> same_display s s''"
  by (simp add: same_display_def)

lemma rows_ok_count [simp]: "rows_ok (s\<lparr>count := k\<rparr>) = rows_ok s"
  by (rule rows_ok_cong) simp_all

text \<open>Looking up names changes nothing that is displayed; what it depends on, the cache aside, are these
  variables and the domain.\<close>

definition resolve_view :: "client \<Rightarrow> int \<times> int \<times> int \<times> (int \<times> int \<times> int) \<times> (int \<times> int \<times> int) \<times> string" where
  "resolve_view s = (numeric s, trunc_local_hosts s, now s, rxload s, txload s, curr_state s)"

lemma host_frame_view: "host_frame s s' \<Longrightarrow> resolve_view s' = resolve_view s"
  unfolding host_frame_def no_hosts_def resolve_view_def
  by (auto dest!: arg_cong [of _ _ "\<lambda>u. (numeric u, trunc_local_hosts u, now u, rxload u, txload u, curr_state u)"])

lemma resolve_spec_cong:
  assumes "resolve_view s' = resolve_view s" and "mydomain s \<in> {[], d}" "mydomain s' \<in> {[], d}"
  shows "resolve_spec ghba d s' m aaddr = resolve_spec ghba d s m aaddr"
proof -
  have eqs: "may_query s' = may_query s" "(if mydomain s' = [] then d else mydomain s') = (if mydomain s = [] then d else mydomain s)"
    "numeric s' = numeric s" "trunc_local_hosts s' = trunc_local_hosts s" "now s' = now s"
    using assms by (auto simp: resolve_view_def may_query_def)
  show ?thesis unfolding resolve_spec_def eqs by (rule refl)
qed

lemma host_frame_display:
  assumes "host_frame s s'"
  shows "display_ok s' = display_ok s" "same_display s s'" "row_text s' = row_text s" "rows_ok s' = rows_ok s"
proof -
  have "yacc_eof s' = yacc_eof s"
    using assms unfolding host_frame_def no_hosts_def by (auto dest!: arg_cong [of _ _ yacc_eof])
  note f = host_frame_fields [OF assms] this
  show r: "rows_ok s' = rows_ok s" by (rule rows_ok_cong) (simp_all add: f)
  show "display_ok s' = display_ok s" "same_display s s'" "row_text s' = row_text s"
    by (simp_all add: display_ok_def r f same_display_def row_text_def fun_eq_iff)
qed

text \<open>The cache as the display needs it: well-formed, in the blocks \<open>A\<close>, and with no other domain than \<open>d\<close>.\<close>

definition hosts_ok :: "string \<Rightarrow> addr set \<Rightarrow> (nat \<Rightarrow> bucket) \<Rightarrow> client \<Rightarrow> bool" where
  "hosts_ok d A B s \<longleftrightarrow> cache_ok s B \<and> dom (hheap s) \<subseteq> A \<and> mydomain s \<in> {[], d}"

lemma hosts_ok_cong:
  "hheap s' = hheap s \<Longrightarrow> hosthash s' = hosthash s \<Longrightarrow> mydomain s' = mydomain s \<Longrightarrow> hosts_ok d A B s' = hosts_ok d A B s"
  by (simp add: hosts_ok_def cache_ok_def)

lemma resolve_hosts:
  assumes ok: "hosts_ok d A B s" and m: "supplied False A m"
  shows "\<exists>nm s' B'. resolve ghba d m aaddr s = Inr (nm, s') \<and> hosts_ok d (A \<union> blocks m) B' s' \<and> host_frame s s' \<and>
    (nm, host_map B') = resolve_spec ghba d s (host_map B) aaddr"
proof -
  obtain y junk where y: "m = Some (y, junk)" using m by (cases m) (auto simp: supplied_def)
  then have "y \<notin> dom (hheap s)" using ok m by (auto simp: hosts_ok_def supplied_def blocks_def)
  with ok y obtain nm s' B' where s': "resolve ghba d m aaddr s = Inr (nm, s')" "cache_ok s' B'" "host_frame s s'"
      "(nm, host_map B') = resolve_spec ghba d s (host_map B) aaddr"
    using resolve_map [of s B y ghba d junk aaddr] by (auto simp: hosts_ok_def)
  moreover have "hosts_ok d (A \<union> blocks m) B' s'"
    using ok s'(2) resolve_dom [OF s'(1)] resolve_domain [OF s'(1)] by (auto simp: hosts_ok_def)
  ultimately show ?thesis by blast
qed

text \<open>A packet and its row, with names in place of the addresses.\<close>

lemma do_packet_named:
  assumes ok: "display_ok s" and ps: "hosts_ok d A B s" "p_domain e = d" "supplied False A (p_malloc1 e)"
      "supplied False (A \<union> blocks (p_malloc1 e)) (p_malloc2 e)"
    and len: "length (ttl p) \<le> 8" and room: "count s \<le> c_LINES s - HEAD_LINES"
  shows "\<exists>s' B' n1 m1 n2. do_packet e p s = Inr s' \<and> display_ok s' \<and> count s' = count s + 1 \<and> same_display s s' \<and>
    resolve_view s' = resolve_view s \<and> hosts_ok d (A \<union> blocks (p_malloc1 e) \<union> blocks (p_malloc2 e)) B' s' \<and>
    resolve_spec (p_ghba e) d s (host_map B) (ip1 p) = (n1, m1) \<and>
    resolve_spec (p_ghba e) d s m1 (ip2 p) = (n2, host_map B') \<and>
    (\<forall>i. row_text s' i =
      (if int i = count s then cstr (packet_text e (p\<lparr>ip1 := n1, ip2 := n2\<rparr>) (nat (format_width s))) else row_text s i))"
proof -
  obtain n1 s1 B1 where s1: "resolve (p_ghba e) d (p_malloc1 e) (ip1 p) s = Inr (n1, s1)"
      "hosts_ok d (A \<union> blocks (p_malloc1 e)) B1 s1" "host_frame s s1"
      "(n1, host_map B1) = resolve_spec (p_ghba e) d s (host_map B) (ip1 p)"
    using resolve_hosts [OF ps(1,3)] by blast
  obtain n2 s2 B2 where s2: "resolve (p_ghba e) d (p_malloc2 e) (ip2 p) s1 = Inr (n2, s2)"
      "hosts_ok d (A \<union> blocks (p_malloc1 e) \<union> blocks (p_malloc2 e)) B2 s2" "host_frame s1 s2"
      "(n2, host_map B2) = resolve_spec (p_ghba e) d s1 (host_map B1) (ip2 p)"
    using resolve_hosts [OF s1(2) ps(4)] by blast
  have spec: "resolve_spec (p_ghba e) d s1 m a = resolve_spec (p_ghba e) d s m a" for m a
    using ps(1) s1(2) host_frame_view [OF s1(3)] by (intro resolve_spec_cong) (simp_all add: hosts_ok_def)
  have fr: "host_frame s s2" using s1(3) s2(3) by (rule host_frame_trans)
  note f = host_frame_fields [OF fr] and h = host_frame_display [OF fr]
  let ?row = "packet_text e (p\<lparr>ip1 := n1, ip2 := n2\<rparr>) (nat (format_width s))"
  have w: "0 \<le> format_width s" using ok by (simp add: display_ok_def)
  have cnt: "0 \<le> count s" "count s < numbuff s" using ok room by (auto simp: display_ok_def)
  have "int (length ?row) = 27 + 2 * format_width s + int (length (ttl p))" using w by (simp add: packet_text_def)
  then have l: "length ?row < nat (cols s)" "length ?row < 512"
    using ok len by (auto simp: display_ok_def zless_nat_eq_int_zless)
  have rows2: "rows_ok s2" using ok h(4) by (simp add: display_ok_def)
  obtain b where b: "get_row (count s) s2 = Inr b" "length b = nat (cols s) + 1"
    using get_row_ok [OF rows2, of "count s"] cnt f by auto
  obtain b' where b': "strncpy b ?row (nat (cols s)) = Inr b'" "length b' = nat (cols s) + 1" "NUL \<in> set b'"
      "cstr b' = cstr ?row"
    using strncpy_fits [OF l(1) b(2)] by blast
  let ?t = "(set_row (count s) b' s2)\<lparr>count := count s + 1\<rparr>"
  have rows: "rows_ok (set_row (count s) b' s2)" using rows2 cnt b' f by (intro rows_ok_set_row) auto
  have "do_packet e p s = Inr ?t"
    using room s1(1) s2(1) w l(2) b(1) b'(1) f ps(2)
    by (simp add: do_packet_def packet_row_def packet_text_def fits_def set_row_def)
  moreover have "display_ok ?t" using ok rows f unfolding display_ok_def by (simp add: set_row_def)
  moreover have "same_display s ?t" using h(2) by (simp add: same_display_def set_row_def)
  moreover have "resolve_view ?t = resolve_view s" using host_frame_view [OF fr] by (simp add: resolve_view_def set_row_def)
  moreover have "hosts_ok d A' B2 ?t = hosts_ok d A' B2 s2" for A' by (rule hosts_ok_cong) (simp_all add: set_row_def)
  moreover have "row_text ?t i = (if int i = count s then cstr ?row else row_text s i)" for i
    using cnt b'(4) f(7) by (auto simp: row_text_def set_row_def)
  ultimately show ?thesis
    using s1(4) s2(2,4) spec by (intro exI [of _ ?t] exI [of _ B2] exI [of _ n1] exI [of _ "host_map B1"] exI [of _ n2]) (simp add: set_row_def)
qed

fun do_packets :: "(packet_env \<times> packet) list \<Rightarrow> client \<Rightarrow> client res" where
  "do_packets [] s = Inr s"
| "do_packets ((e, p) # ps) s = rbind (do_packet e p s) (do_packets ps)"

lemma do_packets_append: "do_packets (ps @ qs) s = rbind (do_packets ps s) (do_packets qs)"
proof (induction ps arbitrary: s)
  case (Cons x ps)
  obtain e p where x: "x = (e, p)" by force
  have "do_packets (ps @ qs) = (\<lambda>s. rbind (do_packets ps s) (do_packets qs))" using Cons.IH by (rule ext)
  then show ?case by (simp add: x rbind_assoc)
qed simp

text \<open>The lines of a list of packets: each packet with the names that \<open>resolve\<close> should give its two
  addresses, given what the cache knows when its turn comes.\<close>

fun packet_lines :: "client \<Rightarrow> (in_addr \<rightharpoonup> string \<times> string \<times> int) \<Rightarrow> (packet_env \<times> packet) list \<Rightarrow> string list" where
  "packet_lines s m [] = []"
| "packet_lines s m ((e, p) # ps) =
     (case resolve_spec (p_ghba e) (p_domain e) s m (ip1 p) of (n1, m1) \<Rightarrow>
        (case resolve_spec (p_ghba e) (p_domain e) s m1 (ip2 p) of (n2, m2) \<Rightarrow>
           packet_text e (p\<lparr>ip1 := n1, ip2 := n2\<rparr>) (nat (format_width s)) # packet_lines s m2 ps))"

lemma packet_lines_cong:
  assumes "resolve_view s' = resolve_view s" "format_width s' = format_width s"
    and "mydomain s \<in> {[], d}" "mydomain s' \<in> {[], d}" "\<forall>(e, p) \<in> set ps. p_domain e = d"
  shows "packet_lines s' m ps = packet_lines s m ps"
  using assms(5)
proof (induction ps arbitrary: m)
  case (Cons x ps)
  obtain e p where x: "x = (e, p)" by force
  have "resolve_spec g d s' m' a = resolve_spec g d s m' a" for g m' a by (rule resolve_spec_cong) fact+
  then show ?case using Cons x assms(2) by (simp split: prod.split)
qed simp

text \<open>Each \<open>malloc\<close> gives a block that is not in use, and the domain is always the same.\<close>

fun fed :: "string \<Rightarrow> addr set \<Rightarrow> (packet_env \<times> packet) list \<Rightarrow> bool" where
  "fed d A [] \<longleftrightarrow> True"
| "fed d A ((e, p) # ps) \<longleftrightarrow> p_domain e = d \<and> supplied False A (p_malloc1 e) \<and>
     supplied False (A \<union> blocks (p_malloc1 e)) (p_malloc2 e) \<and> fed d (A \<union> blocks (p_malloc1 e) \<union> blocks (p_malloc2 e)) ps"

lemma fed_domain: "fed d A ps \<Longrightarrow> \<forall>(e, p) \<in> set ps. p_domain e = d"
  by (induction d A ps rule: fed.induct) auto

lemma do_packets_hidden:
  assumes "c_LINES s - HEAD_LINES < count s" and "display_ok s"
  shows "\<exists>s'. do_packets ps s = Inr s' \<and> display_ok s' \<and> count s' = count s + int (length ps) \<and> same_display s s' \<and>
    row_text s' = row_text s"
  using assms
proof (induction ps arbitrary: s)
  case (Cons x ps)
  obtain e p where x: "x = (e, p)" by force
  let ?s = "s\<lparr>count := count s + 1\<rparr>"
  have ok: "c_LINES ?s - HEAD_LINES < count ?s" "display_ok ?s" using Cons.prems by (simp_all add: display_ok_def)
  have "same_display s ?s" "row_text ?s = row_text s" by (simp_all add: same_display_def row_text_def fun_eq_iff)
  with Cons.IH [OF ok] Cons.prems x show ?case by (auto simp: do_packet_def dest: same_display_trans)
qed auto

lemma do_packets_rows:
  assumes "display_ok s" and "hosts_ok d A B s" and "fed d A ps" and "\<forall>(e, p) \<in> set ps. length (ttl p) \<le> 8"
  shows "\<exists>s'. do_packets ps s = Inr s' \<and> display_ok s' \<and> count s' = count s + int (length ps) \<and> same_display s s' \<and>
    (\<forall>i. row_text s' i =
       (if count s \<le> int i \<and> int i < count s + int (length ps) \<and> int i \<le> c_LINES s - HEAD_LINES
        then cstr (packet_lines s (host_map B) ps ! nat (int i - count s)) else row_text s i))"
  using assms
proof (induction ps arbitrary: s A B)
  case Nil
  then show ?case by auto
next
  case (Cons x ps)
  obtain e p where x: "x = (e, p)" by force
  have nn: "0 \<le> count s" using Cons.prems(1) by (simp add: display_ok_def)
  show ?case
  proof (cases "count s \<le> c_LINES s - HEAD_LINES")
    case False
    with do_packets_hidden [of s "x # ps"] Cons.prems(1) show ?thesis by fastforce
  next
    case True
    let ?A = "A \<union> blocks (p_malloc1 e) \<union> blocks (p_malloc2 e)"
    have fd: "p_domain e = d" "supplied False A (p_malloc1 e)" "supplied False (A \<union> blocks (p_malloc1 e)) (p_malloc2 e)"
        "fed d ?A ps" "length (ttl p) \<le> 8" using Cons.prems(3,4) x by simp_all
    obtain s1 B1 n1 m1 n2 where s1: "do_packet e p s = Inr s1" "display_ok s1" "count s1 = count s + 1" "same_display s s1"
        "resolve_view s1 = resolve_view s" "hosts_ok d ?A B1 s1"
        "resolve_spec (p_ghba e) d s (host_map B) (ip1 p) = (n1, m1)"
        "resolve_spec (p_ghba e) d s m1 (ip2 p) = (n2, host_map B1)"
        "\<forall>i. row_text s1 i = (if int i = count s then cstr (packet_text e (p\<lparr>ip1 := n1, ip2 := n2\<rparr>) (nat (format_width s))) else row_text s i)"
      using do_packet_named [OF Cons.prems(1,2) fd(1-3,5) True] by blast
    obtain s2 where s2: "do_packets ps s1 = Inr s2" "display_ok s2" "count s2 = count s1 + int (length ps)" "same_display s1 s2"
        "\<forall>i. row_text s2 i = (if count s1 \<le> int i \<and> int i < count s1 + int (length ps) \<and> int i \<le> c_LINES s1 - HEAD_LINES
          then cstr (packet_lines s1 (host_map B1) ps ! nat (int i - count s1)) else row_text s1 i)"
      using Cons.IH [OF s1(2,6) fd(4)] Cons.prems(4) by auto
    have w: "format_width s1 = format_width s" "c_LINES s1 = c_LINES s" using s1(4) by (simp_all add: same_display_def)
    have pl: "packet_lines s1 m ps = packet_lines s m ps" for m
      using s1(5,6) w(1) Cons.prems(2) fed_domain [OF fd(4)] by (intro packet_lines_cong) (simp_all add: hosts_ok_def)
    have lines: "packet_lines s (host_map B) (x # ps) =
        packet_text e (p\<lparr>ip1 := n1, ip2 := n2\<rparr>) (nat (format_width s)) # packet_lines s (host_map B1) ps"
      using s1(7,8) fd(1) x by simp
    have "row_text s2 i = (if count s \<le> int i \<and> int i < count s + int (length (x # ps)) \<and> int i \<le> c_LINES s - HEAD_LINES
        then cstr (packet_lines s (host_map B) (x # ps) ! nat (int i - count s)) else row_text s i)" for i
    proof -
      consider "int i < count s" | "int i = count s" | "count s < int i" by linarith
      then show ?thesis
      proof cases
        case 3
        then have "nat (int i - count s) = Suc (nat (int i - count s1))" using s1(3) by linarith
        then show ?thesis using 3 s1(3,9) s2(5) w pl lines by auto
      qed (use True s1(3,9) s2(5) w lines in auto)
    qed
    moreover have "do_packets (x # ps) s = Inr s2" using s1(1) s2(1) x by simp
    ultimately show ?thesis using s2(2,3) s1(3) same_display_trans [OF s1(4) s2(4)] by auto
  qed
qed

lemma show_rows_result:
  assumes "rows_ok s" and "\<forall>i \<in> set is. int i < numbuff s"
  shows "show_rows is s = Inr (s\<lparr>c_out := c_out s @ map (\<lambda>i. Print Sub (int i) 0 (row_text s i)) is\<rparr>)"
  using assms
proof (induction "is" arbitrary: s)
  case (Cons i "is")
  obtain b where b: "get_row (int i) s = Inr b" "NUL \<in> set b" "row_text s i = cstr b"
    using get_row_ok [OF Cons.prems(1), of "int i"] Cons.prems(2) by auto
  let ?s = "say (Print Sub (int i) 0 (cstr b)) s"
  have "rows_ok ?s" using Cons.prems(1) rows_ok_cong [of ?s s] by simp
  moreover have "row_text ?s j = row_text s j" for j by (simp add: row_text_def)
  ultimately show ?case using Cons.IH [of ?s] Cons.prems(2) b by (simp add: say_def)
qed simp

lemma show_packets_total:
  assumes "rows_ok s"
  shows "\<exists>s'. show_packets s = Inr s' \<and> curr_state s' = curr_state s"
proof -
  let ?s = "say (Erase Sub) s"
  have "rows_ok ?s" using assms rows_ok_cong [of ?s s] by simp
  moreover have "\<forall>i \<in> set [0..<nat (min (numbuff ?s) (count ?s))]. int i < numbuff ?s" by auto
  ultimately show ?thesis
    using show_rows_result [of ?s "[0..<nat (min (numbuff ?s) (count ?s))]"]
    by (simp add: show_packets_def Let_def)
qed

lemma do_queue_result:
  assumes "display_ok s"
  shows "\<exists>s'. do_queue t s = Inr s' \<and> display_ok s' \<and> count s' = 0 \<and> (\<forall>i. row_text s' i = []) \<and>
    same_display (say (Erase Sub) s) s' \<and> resolve_view s' = resolve_view (s\<lparr>now := t\<rparr>) \<and>
    hheap s' = hheap s \<and> hosthash s' = hosthash s \<and> mydomain s' = mydomain s"
proof -
  let ?s = "say (Erase Sub) (s\<lparr>now := t, count := 0\<rparr>)"
  have rows: "rows_ok ?s" using assms rows_ok_cong [of ?s s] by (simp add: display_ok_def)
  obtain s' where s': "clear_rows [0..<nat (numbuff ?s)] ?s = Inr s'" "rows_ok s'" "numbuff s' = numbuff ?s"
      "no_rows s' = no_rows ?s" "\<forall>i. row_text s' i = (if i \<in> set [0..<nat (numbuff ?s)] then [] else row_text ?s i)"
    using clear_rows_result [OF rows, of "[0..<nat (numbuff ?s)]"] by (force simp: zless_nat_eq_int_zless)
  have "row_text s' i = []" for i
    using s'(5) rows_ok_none [OF rows, of i] by (auto simp: row_text_def not_less nat_le_iff)
  moreover have fs: "f (no_rows s') = f (no_rows ?s)" for f :: "client \<Rightarrow> 'b" using s'(4) by simp
  from this [of numeric] this [of c_COLS] this [of curr_state] this [of resize_event_p] this [of yacc_eof]
  have "numeric s' = numeric s" "c_COLS s' = c_COLS s" "curr_state s' = curr_state s"
    "resize_event_p s' = resize_event_p s" "yacc_eof s' = yacc_eof s" by (simp_all add: no_rows_def)
  moreover from fs [of resolve_view] fs [of hheap] fs [of hosthash] fs [of mydomain]
  have "resolve_view s' = resolve_view (s\<lparr>now := t\<rparr>)" "hheap s' = hheap s" "hosthash s' = hosthash s" "mydomain s' = mydomain s"
    by (simp_all add: no_rows_def resolve_view_def)
  ultimately show ?thesis using s'(1-3) no_rows_fields [OF s'(4)] assms
    by (auto simp: do_queue_def Let_def display_ok_def same_display_def)
qed

text \<open>The rows behind a packet report, one packet to a row in the order of the report, as far as there is
  room.\<close>

definition packet_rows ::
  "(packet_env \<times> packet) list \<Rightarrow> client \<Rightarrow> (in_addr \<rightharpoonup> string \<times> string \<times> int) \<Rightarrow> nat \<Rightarrow> string" where
  "packet_rows ps s m i =
     (if i < length ps \<and> int i \<le> c_LINES s - HEAD_LINES then cstr (packet_lines s m ps ! i) else [])"

lemma queue_packets_result:
  assumes "display_ok s" and "hosts_ok d A B s" and "fed d A ps" and "\<forall>(e, p) \<in> set ps. length (ttl p) \<le> 8"
  shows "\<exists>s'. rbind (do_queue t s) (do_packets ps) = Inr s' \<and> display_ok s' \<and> count s' = int (length ps) \<and>
    same_display (say (Erase Sub) s) s' \<and> (\<forall>i. row_text s' i = packet_rows ps (s\<lparr>now := t\<rparr>) (host_map B) i)"
proof -
  obtain s1 where s1: "do_queue t s = Inr s1" "display_ok s1" "count s1 = 0" "\<forall>i. row_text s1 i = []"
      "same_display (say (Erase Sub) s) s1" "resolve_view s1 = resolve_view (s\<lparr>now := t\<rparr>)"
      "hheap s1 = hheap s" "hosthash s1 = hosthash s" "mydomain s1 = mydomain s"
    using do_queue_result [OF assms(1), of t] by blast
  have f: "c_LINES s1 = c_LINES s" "format_width s1 = format_width s" using s1(5) by (simp_all add: same_display_def)
  have h: "hosts_ok d A B s1" using assms(2) s1(7-9) by (simp add: hosts_ok_cong [of s1 s])
  obtain s2 where s2: "do_packets ps s1 = Inr s2" "display_ok s2" "count s2 = count s1 + int (length ps)" "same_display s1 s2"
      "\<forall>i. row_text s2 i = (if count s1 \<le> int i \<and> int i < count s1 + int (length ps) \<and> int i \<le> c_LINES s1 - HEAD_LINES
         then cstr (packet_lines s1 (host_map B) ps ! nat (int i - count s1)) else row_text s1 i)"
    using do_packets_rows [OF s1(2) h assms(3,4)] by blast
  have "packet_lines s1 m ps = packet_lines (s\<lparr>now := t\<rparr>) m ps" for m
    using s1(6,9) f assms(2) fed_domain [OF assms(3)] by (intro packet_lines_cong [where d = d]) (simp_all add: hosts_ok_def)
  then show ?thesis
    using s1(1,3,4) s2 f same_display_trans [OF s1(5) s2(4)] by (intro exI [of _ s2]) (simp add: packet_rows_def)
qed

lemma show_packets_result:
  assumes "display_ok s" and "0 < count s"
  shows "show_packets s = Inr (s\<lparr>c_out := c_out s @ Erase Sub #
    map (\<lambda>i. Print Sub (int i) 0 (row_text s i)) [0..<nat (min (numbuff s) (count s))]\<rparr>)"
proof -
  let ?s = "say (Erase Sub) s"
  have "rows_ok ?s" using assms(1) rows_ok_cong [of ?s s] by (simp add: display_ok_def)
  moreover have "\<forall>i \<in> set [0..<nat (min (numbuff ?s) (count ?s))]. int i < numbuff ?s" by auto
  moreover have "row_text ?s i = row_text s i" for i by (simp add: row_text_def)
  ultimately show ?thesis
    using show_rows_result [of ?s "[0..<nat (min (numbuff ?s) (count ?s))]"] assms(2)
    by (simp add: show_packets_def Let_def) (simp add: say_def)
qed

text \<open>A packet and the screen of the example.\<close>

definition ex_packet_env :: packet_env where
  "ex_packet_env = \<lparr>p_ghba = (\<lambda>_. TryAgain), p_domain = [], p_malloc1 = None, p_malloc2 = None,
     p_gsbp = (\<lambda>_ _. None), p_memory = True\<rparr>"

definition ex_packet :: packet where
  "ex_packet = \<lparr>protocol = ''tcp'', ip1 = ''10.0.0.1'', port1 = 80, ip2 = ''192.168.0.7'', port2 = 1042,
     ttl = ''00:09:55''\<rparr>"

lemma ex_display_ok: "display_ok (ex_client\<lparr>numeric := 1\<rparr>)"
  using ex_rows_ok rows_ok_cong [of "ex_client\<lparr>numeric := 1\<rparr>" ex_client]
  by (simp add: display_ok_def) (simp add: ex_client_def HEAD_LINES_def)

lemma ex_packet_text:
  "cstr (packet_text ex_packet_env ex_packet 22) =
     ''tcp                10.0.0.1/80                  192.168.0.7/1042      00:09:55'' @ [LF]"
  by code_simp

section \<open>When the widths do not fit\<close>

text \<open>C36: after the terminal has become narrower, \<open>format\<close> still has the old width.  A row as wide as the
  new screen or wider leaves its buffer without a NUL, and showing the list reads past the end of
  the buffer.\<close>

theorem resize_then_packet_unterminated:
  assumes rows: "rows_ok s" "numbuff s < MAXBUFS" and "count s = 0" "numeric s \<noteq> 0" "0 \<le> format_width s"
    and size: "HEAD_LINES \<le> l" "1 \<le> c" "c \<le> 27 + 2 * format_width s + int (length (ttl p))"
    and "27 + 2 * format_width s + int (length (ttl p)) < 512"
    and nonul: "NUL \<notin> set (packet_text e p (nat (format_width s)))" and junk: "\<And>i j. junk i j \<noteq> NUL"
  shows "rbind (rbind (do_screen_resize junk (l, c) s) (do_packet e p)) show_packets = Inl Unterminated"
proof -
  obtain u where u: "do_screen_resize junk (l, c) s = Inr (screen_init junk (l, c) u)" "\<forall>i. scrbuff u i = None"
      "no_rows u = no_rows (say Reinit s)"
    using do_screen_resize_init [OF rows] by blast
  let ?t = "screen_init junk (l, c) u"
  have l: "0 \<le> l" "0 \<le> c" using size by (simp_all add: HEAD_LINES_def)
  note i = screen_init_result [OF u(2) l, of junk]
  note f = no_rows_fields [OF u(3)]
  have num: "numeric ?t = numeric s"
    using screen_init_numeric [of junk l c u] arg_cong [OF u(3), of numeric] by (simp add: no_rows_def)
  let ?row = "packet_text e p (nat (format_width s))"
  have len: "int (length ?row) = 27 + 2 * format_width s + int (length (ttl p))"
    using assms(5) by (simp add: packet_text_def)
  have row: "scrbuff ?t 0 = Some (fresh_row junk c 0)" using l(1) by (intro screen_init_content) (simp_all add: MAXBUFS_def)
  have "drop (nat c) (fresh_row junk c 0) = [junk 0 (nat c)]"
    using size(2) by (simp add: fresh_row_def drop_Cons' drop_map)
  then have cpy: "strncpy (fresh_row junk c 0) ?row (nat c) = Inr (take (nat c) ?row @ [junk 0 (nat c)])"
    using len size(3) by (simp add: strncpy_def fresh_row_def)
  let ?b = "take (nat c) ?row @ [junk 0 (nat c)]"
  let ?u = "(set_row 0 ?b ?t)\<lparr>count := 1\<rparr>"
  have t: "count ?t = 0" "format_width ?t = format_width s" "cols ?t = c" "c_LINES ?t = l" "get_row 0 ?t = Inr (fresh_row junk c 0)"
    using i f assms(3) row by (simp_all add: get_row_def MAXBUFS_def)
  have "length ?row < 512" using len assms(9) by linarith
  with do_packet_numeric [of ?t e p] t num assms(4,5) size(1) cpy have "do_packet e p ?t = Inr ?u" by simp
  moreover have "NUL \<notin> set ?b" using nonul junk [of 0 "nat c"] by (auto dest: in_set_takeD)
  then have "show_packets ?u = Inl Unterminated"
    using i(2) l(1) by (simp add: show_packets_def get_row_def set_row_def MAXBUFS_def)
  ultimately show ?thesis using u(1) by simp
qed

lemma resize_then_packet_unterminated_witness:
  "rbind (rbind (do_screen_resize (\<lambda>_ _. CHR ''?'') (24, 60) (ex_client\<lparr>numeric := 1\<rparr>))
     (do_packet ex_packet_env ex_packet)) show_packets = Inl Unterminated"
proof (rule resize_then_packet_unterminated)
  show "rows_ok (ex_client\<lparr>numeric := 1\<rparr>)" using ex_display_ok by (simp add: display_ok_def)
  show "NUL \<notin> set (packet_text ex_packet_env ex_packet (nat (format_width (ex_client\<lparr>numeric := 1\<rparr>))))"
    by code_simp
qed (simp_all add: ex_client_def MAXBUFS_def HEAD_LINES_def ex_packet_def)

lemma length_show_nat: "length (show_nat n) \<le> n div 10 + 1"
proof (induction n rule: show_nat.induct)
  case (1 n)
  then show ?case by (subst show_nat.simps) auto
qed

text \<open>The interface line is built in a buffer of the width of the screen.  When interface and
  addresses leave no room between them, the number of blanks turns negative, \<open>sprintf\<close> pads with as many
  blanks all the same, and the buffer overflows: the line is shown exactly when it fits the screen.\<close>

lemma do_interface_fits:
  assumes "40 \<le> c_COLS s" "c_COLS s < 2 ^ 30" and "length ifc + length rem + length loc < 2 ^ 30"
  shows "is_ok (do_interface ifc loc rem s) \<longleftrightarrow>
    32 + int (length ifc + length rem + length loc) \<le> c_COLS s"
proof -
  let ?n = "length ifc + length rem + length loc"
  let ?d = "c_COLS s - 32 - int ?n"
  have spcs: "half_diff (c_COLS s - 32) ?n = ?d div 2" using assms by (intro half_diff_eq) auto
  have len: "length (interface_line w ifc loc rem) = 32 + ?n + 2 * nat \<bar>w\<bar>" for w
    by (simp add: interface_line_def printf_width_def abs_if)
  have fmt: "length (interface_fmt (?d div 2)) < nat (c_COLS s)" if "0 \<le> ?d"
  proof -
    have "length (show_int (?d div 2)) \<le> nat (?d div 2) div 10 + 1"
      using that length_show_nat [of "nat (?d div 2)"] by (simp add: show_int_def)
    then show ?thesis using assms(1) that by (simp add: interface_fmt_def)
  qed
  have "length (interface_line (?d div 2) ifc loc rem) < nat (c_COLS s + 2) \<longleftrightarrow> 0 \<le> ?d"
    unfolding len using assms(1) by (auto simp: abs_if nat_less_iff)
  then show ?thesis using fmt spcs by (auto simp: do_interface_def Let_def fits_def add.commute add.left_commute)
qed

lemma do_interface_fits_witness:
  "is_ok (do_interface ''ppp0'' ''10.0.0.1'' ''10.0.0.2'' ex_client) \<and>
   \<not> is_ok (do_interface (replicate 40 (CHR ''x'')) ''10.0.0.1'' ''10.0.0.2'' ex_client)"
  using do_interface_fits [of ex_client "''ppp0''" "''10.0.0.2''" "''10.0.0.1''"]
    do_interface_fits [of ex_client "replicate 40 (CHR ''x'')" "''10.0.0.2''" "''10.0.0.1''"]
  by (simp add: ex_client_def)

end
