(* ===== verification/MonitorParse.thy ===== *)
theory MonitorParse
  imports MonitorLex Display
begin

text \<open>
  The grammar of the reports (\<open>client/monitor.y\<close>) as the parser yacc makes of it, with its error
  recovery: the tokens of the FIFO go in, the calls of the report handlers come out.  The lemmas show
  that what is printed as a report is read as that report, that a report cut short by a pause is
  dropped, and that after any error the next report is read again.
\<close>

section \<open>The parser\<close>

text \<open>The calls the actions make, with the arguments the grammar gives them.\<close>

datatype call =
    Do_status "int list" "string list"
  | Do_load int int
  | Do_interface string string string
  | Do_state string
  | Do_message string
  | Do_queue
  | Do_packet packet
  | Do_endqueue

text \<open>The symbols a report still needs.  \<open>S_STR\<close> is a string, after which more may follow (\<open>S_MORE\<close>) to be
  put together with it.\<close>

datatype sym = S_NL | S_NUM | S_TIME | S_STR | S_MORE | S_IP | S_PORT

datatype kind = K_status | K_load | K_interface | K_state | K_message

text \<open>Values collected so far.\<close>

record vals =
  v_nums :: "int list"
  v_strs :: "string list"

text \<open>
  Where the parser is, by what is on its stack.  \<open>Top\<close>: \<open>blurbs\<close>.  \<open>In_report\<close>: inside a report, what it still
  needs and has.  \<open>Top_time\<close>, \<open>Top_str\<close>: a time or a string outside of reports.  \<open>Queue_nl\<close>: behind \<open>_QUEUE\<close>.
  \<open>In_queue\<close>: \<open>queue\<close> on top of the stack; \<open>In_packets\<close>: \<open>queue packets\<close>; \<open>In_packet\<close>: inside a packet, which
  may have begun with a number;
  \<open>Queue_status\<close>: \<open>queue _STATUS\<close>; \<open>End_nl\<close>: \<open>queue packets _ENDQUEUE\<close>.  \<open>Skipping\<close>: \<open>queue error\<close>;
  \<open>Skip_nl\<close>: \<open>queue error _ENDQUEUE\<close>.
\<close>

datatype pstate =
    Top
  | Top_time
  | Top_str
  | In_report kind "sym list" vals
  | Queue_nl
  | In_queue
  | In_packets
  | In_packet bool "sym list" vals
  | Queue_status
  | End_nl
  | Skipping
  | Skip_nl

fun needs :: "kind \<Rightarrow> sym list" where
  "needs K_status = concat (replicate 6 [S_NUM, S_NL]) @ concat (replicate 3 [S_TIME, S_NL])"
| "needs K_load = [S_NUM, S_NL, S_NUM, S_NL]"
| "needs K_interface = [S_STR, S_NL, S_IP, S_NL, S_IP, S_NL]"
| "needs K_state = [S_STR, S_NL]"
| "needs K_message = [S_STR, S_NL]"

definition packet_needs :: "sym list" where
  "packet_needs = [S_IP, S_PORT, S_IP, S_PORT, S_TIME, S_NL]"

text \<open>The call at the end of a report.\<close>

fun report_call :: "kind \<Rightarrow> vals \<Rightarrow> call" where
  "report_call K_status v = Do_status (v_nums v) (v_strs v)"
| "report_call K_load v = Do_load (v_nums v ! 0) (v_nums v ! 1)"
| "report_call K_interface v = Do_interface (v_strs v ! 0) (v_strs v ! 1) (v_strs v ! 2)"
| "report_call K_state v = Do_state (v_strs v ! 0)"
| "report_call K_message v = Do_message (v_strs v ! 0)"

text \<open>What the parser meets: \<open>-q\<close>, the answer of \<open>lex_testkey\<close> after the calls made so far, and the number a
  pointer to a string prints as.\<close>

record parse_env =
  pe_quit :: bool
  pe_key :: "call list \<Rightarrow> bool"
  pe_pointer :: "string \<Rightarrow> int"

text \<open>A packet of a protocol without a name: \<open>num_string\<close> is printed from \<open>$2\<close>, the pointer to the address.\<close>

definition packet_call :: "parse_env \<Rightarrow> bool \<Rightarrow> vals \<Rightarrow> call" where
  "packet_call e numbered v =
     (let ws = (if numbered then show_int (pe_pointer e (v_strs v ! 0)) # v_strs v else v_strs v)
      in Do_packet \<lparr>protocol = ws ! 0, ip1 = ws ! 1, port1 = v_nums v ! 0, ip2 = ws ! 2, port2 = v_nums v ! 1,
           ttl = ws ! 3\<rparr>)"

definition add_num :: "int \<Rightarrow> vals \<Rightarrow> vals" where
  "add_num n v = v\<lparr>v_nums := v_nums v @ [n]\<rparr>"

definition add_str :: "string \<Rightarrow> vals \<Rightarrow> vals" where
  "add_str w v = v\<lparr>v_strs := v_strs v @ [w]\<rparr>"

text \<open>The action of \<open>string: string _STRING\<close>.\<close>

definition join_str :: "string \<Rightarrow> vals \<Rightarrow> vals" where
  "join_str w v = v\<lparr>v_strs := butlast (v_strs v) @ [last (v_strs v) @ w]\<rparr>"

text \<open>A token where symbols are needed: the new needs and values, or \<open>None\<close> when it does not fit.\<close>

fun take_sym :: "token \<Rightarrow> sym list \<Rightarrow> vals \<Rightarrow> (sym list \<times> vals) option" where
  "take_sym t (S_MORE # ss) v =
     (case t of T_STRING w \<Rightarrow> Some (S_MORE # ss, join_str w v) | _ \<Rightarrow> take_sym t ss v)"
| "take_sym T_NEWLINE (S_NL # ss) v = Some (ss, v)"
| "take_sym (T_NUM n) (S_NUM # ss) v = Some (ss, add_num n v)"
| "take_sym (T_TIME w) (S_TIME # ss) v = Some (ss, add_str w v)"
| "take_sym (T_IP w) (S_IP # ss) v = Some (ss, add_str w v)"
| "take_sym (T_PORT n) (S_PORT # ss) v = Some (ss, add_num n v)"
| "take_sym (T_STRING w) (S_STR # ss) v = Some (S_MORE # ss, add_str w v)"
| "take_sym _ _ _ = None"

text \<open>How a run ends: by \<open>YYACCEPT\<close> behind a report, by \<open>YYACCEPT\<close> where the scanner would block, at the end of
  the file, in the same place while skipping tokens, or in \<open>yyerror\<close>.\<close>

datatype outcome = Accepted | Blocked | Ended | Aborted | Exited

datatype move = Go pstate nat "call list" | Stop outcome "call list"

text \<open>
  One token.  \<open>es\<close> is \<open>yyerrstatus\<close>: 3 at an error, one less for each token shifted, and \<open>yyerror\<close> is called
  only at 0.  A token that does not fit takes the parser back to where \<open>error\<close> may stand.  Outside of
  queues that is the start of \<open>blurbs\<close>, where every token is welcome; inside a queue tokens are thrown
  away up to \<open>_ENDQUEUE\<close>.
\<close>

definition no_vals :: vals where
  "no_vals = \<lparr>v_nums = [], v_strs = []\<rparr>"

fun top_step :: "nat \<Rightarrow> call list \<Rightarrow> token \<Rightarrow> move" where
  "top_step es cs T_STATUS = Go (In_report K_status (S_NL # needs K_status) no_vals) (es - 1) cs"
| "top_step es cs T_LOAD = Go (In_report K_load (S_NL # needs K_load) no_vals) (es - 1) cs"
| "top_step es cs T_INTERFACE = Go (In_report K_interface (S_NL # needs K_interface) no_vals) (es - 1) cs"
| "top_step es cs T_STATE = Go (In_report K_state (S_NL # needs K_state) no_vals) (es - 1) cs"
| "top_step es cs T_MESSAGE = Go (In_report K_message (S_NL # needs K_message) no_vals) (es - 1) cs"
| "top_step es cs T_QUEUE = Go Queue_nl (es - 1) cs"
| "top_step es cs (T_TIME w) = Go Top_time (es - 1) cs"
| "top_step es cs (T_STRING w) = Go Top_str (es - 1) cs"
| "top_step es cs T_WOULDBLOCK = Stop Blocked cs"
| "top_step es cs _ = Go Top (es - 1) cs"

definition yyerror_exits :: "parse_env \<Rightarrow> nat \<Rightarrow> token \<Rightarrow> bool" where
  "yyerror_exits e es t \<longleftrightarrow> es = 0 \<and> t \<noteq> T_WOULDBLOCK \<and> pe_quit e"

definition top_error :: "parse_env \<Rightarrow> nat \<Rightarrow> call list \<Rightarrow> token \<Rightarrow> move" where
  "top_error e es cs t = (if yyerror_exits e es t then Stop Exited cs else top_step 3 cs t)"

definition queue_error :: "parse_env \<Rightarrow> nat \<Rightarrow> call list \<Rightarrow> token \<Rightarrow> move" where
  "queue_error e es cs t =
     (if yyerror_exits e es t then Stop Exited cs else if t = T_ENDQUEUE then Go Skip_nl 2 cs else Go Skipping 3 cs)"

text \<open>The end of a report.  Behind a load report the parser always returns.\<close>

definition finish :: "parse_env \<Rightarrow> nat \<Rightarrow> call list \<Rightarrow> bool \<Rightarrow> move" where
  "finish e es cs always = (if always \<or> pe_key e cs then Stop Accepted cs else Go Top es cs)"

fun packets_step :: "parse_env \<Rightarrow> nat \<Rightarrow> call list \<Rightarrow> token \<Rightarrow> move" where
  "packets_step e es cs (T_STRING w) = Go (In_packet False (S_MORE # packet_needs) (add_str w no_vals)) (es - 1) cs"
| "packets_step e es cs (T_NUM n) = Go (In_packet True packet_needs no_vals) (es - 1) cs"
| "packets_step e es cs T_WOULDBLOCK = Go In_packets (es - 1) cs"
| "packets_step e es cs T_ENDQUEUE = Go End_nl (es - 1) cs"
| "packets_step e es cs t = queue_error e es cs t"

definition waits_for_time :: "sym list \<Rightarrow> bool" where
  "waits_for_time ss \<longleftrightarrow> ss \<noteq> [] \<and> hd ss = S_TIME"

fun pstep :: "parse_env \<Rightarrow> pstate \<Rightarrow> nat \<Rightarrow> call list \<Rightarrow> token \<Rightarrow> move" where
  "pstep e Top es cs t = top_step es cs t"
| "pstep e Top_time es cs t = (if t = T_NEWLINE then Go Top (es - 1) cs else top_error e es cs t)"
| "pstep e Top_str es cs t = top_step es cs t"
| "pstep e (In_report k ss v) es cs t =
     (if t = T_WOULDBLOCK \<and> waits_for_time ss then Stop Blocked cs
      else (case take_sym t ss v of None \<Rightarrow> top_error e es cs t
            | Some ([], v') \<Rightarrow> finish e (es - 1) (cs @ [report_call k v']) (k = K_load)
            | Some (ss', v') \<Rightarrow> Go (In_report k ss' v') (es - 1) cs))"
| "pstep e Queue_nl es cs t = (if t = T_NEWLINE then Go In_queue (es - 1) (cs @ [Do_queue]) else top_error e es cs t)"
| "pstep e In_queue es cs t = (if t = T_STATUS then Go Queue_status (es - 1) cs else packets_step e es cs t)"
| "pstep e In_packets es cs t = packets_step e es cs t"
| "pstep e (In_packet numbered ss v) es cs t =
     (if t = T_WOULDBLOCK \<and> waits_for_time ss then Stop Blocked cs
      else (case take_sym t ss v of None \<Rightarrow> queue_error e es cs t
            | Some ([], v') \<Rightarrow> Go In_packets (es - 1) (cs @ [packet_call e numbered v'])
            | Some (ss', v') \<Rightarrow> Go (In_packet numbered ss' v') (es - 1) cs))"
| "pstep e Queue_status es cs t =
     (if t = T_NEWLINE then Go (In_report K_status (needs K_status) no_vals) (es - 1) cs else queue_error e es cs t)"
| "pstep e End_nl es cs t =
     (if t = T_NEWLINE then finish e (es - 1) (cs @ [Do_endqueue]) False else queue_error e es cs t)"
| "pstep e Skipping es cs t = (if t = T_ENDQUEUE then Go Skip_nl 2 cs else Go Skipping 3 cs)"
| "pstep e Skip_nl es cs t =
     (if t = T_NEWLINE then finish e (es - 1) (cs @ [Do_endqueue]) False else queue_error e es cs t)"

text \<open>The end of the file, which is an error inside a report, and one that cannot be skipped inside a
  queue.\<close>

fun at_eof :: "parse_env \<Rightarrow> pstate \<Rightarrow> nat \<Rightarrow> outcome" where
  "at_eof e Top es = Ended"
| "at_eof e Top_str es = Ended"
| "at_eof e Top_time es = (if es = 0 \<and> pe_quit e then Exited else Ended)"
| "at_eof e (In_report _ _ _) es = (if es = 0 \<and> pe_quit e then Exited else Ended)"
| "at_eof e Queue_nl es = (if es = 0 \<and> pe_quit e then Exited else Ended)"
| "at_eof e _ es = (if es = 0 \<and> pe_quit e then Exited else Aborted)"

fun yyloop :: "parse_env \<Rightarrow> pstate \<Rightarrow> nat \<Rightarrow> call list \<Rightarrow> token list \<Rightarrow> outcome \<times> call list \<times> token list" where
  "yyloop e st es cs [] = (at_eof e st es, cs, [])"
| "yyloop e st es cs (t # ts) =
     (case pstep e st es cs t of Stop out cs' \<Rightarrow> (out, cs', ts) | Go st' es' cs' \<Rightarrow> yyloop e st' es' cs' ts)"

definition monitor_parse :: "parse_env \<Rightarrow> token list \<Rightarrow> outcome \<times> call list \<times> token list" where
  "monitor_parse e ts = yyloop e Top 0 [] ts"

section \<open>Printed reports\<close>

text \<open>Reports as diald writes them, a queue with its packets as one.\<close>

datatype block = Report call | Queued "packet list"

fun block_calls :: "block \<Rightarrow> call list" where
  "block_calls (Report c) = [c]"
| "block_calls (Queued ps) = Do_queue # map Do_packet ps @ [Do_endqueue]"

definition nl :: "string \<Rightarrow> string" where
  "nl w = w @ [LF]"

definition num_line :: "int \<Rightarrow> string" where
  "num_line n = nl (show_nat (nat n))"

definition packet_line :: "packet \<Rightarrow> string" where
  "packet_line p = protocol p @ SP # ip1 p @ CHR ''/'' # show_nat (nat (port1 p)) @ SP #
     ip2 p @ CHR ''/'' # show_nat (nat (port2 p)) @ SP # ttl p @ [LF]"

fun call_text :: "call \<Rightarrow> string" where
  "call_text (Do_status ns ws) = nl ''STATUS'' @ concat (map num_line ns) @ concat (map nl ws)"
| "call_text (Do_load a b) = nl ''LOAD'' @ num_line a @ num_line b"
| "call_text (Do_interface i l r) = nl ''INTERFACE'' @ nl i @ nl l @ nl r"
| "call_text (Do_state w) = nl ''STATE'' @ nl w"
| "call_text (Do_message m) = nl ''MESSAGE'' @ nl m"
| "call_text _ = []"

fun block_text :: "block \<Rightarrow> string" where
  "block_text (Report c) = call_text c"
| "block_text (Queued ps) = nl ''QUEUE'' @ concat (map packet_line ps) @ nl ''END QUEUE''"

text \<open>Their tokens.\<close>

definition nums_tokens :: "int list \<Rightarrow> token list" where
  "nums_tokens ns = concat (map (\<lambda>n. [T_NUM n, T_NEWLINE]) ns)"

definition packet_tokens :: "packet \<Rightarrow> token list" where
  "packet_tokens p = [T_STRING (protocol p), T_IP (ip1 p), T_PORT (port1 p), T_IP (ip2 p), T_PORT (port2 p),
     T_TIME (ttl p), T_NEWLINE]"

fun call_tokens :: "call \<Rightarrow> token list" where
  "call_tokens (Do_status ns ws) = [T_STATUS, T_NEWLINE] @ nums_tokens ns @ concat (map (\<lambda>w. [T_TIME w, T_NEWLINE]) ws)"
| "call_tokens (Do_load a b) = [T_LOAD, T_NEWLINE] @ nums_tokens [a, b]"
| "call_tokens (Do_interface i l r) =
     [T_INTERFACE, T_NEWLINE, T_STRING i, T_NEWLINE, T_IP l, T_NEWLINE, T_IP r, T_NEWLINE]"
| "call_tokens (Do_state w) = [T_STATE, T_NEWLINE, T_STRING w, T_NEWLINE]"
| "call_tokens (Do_message m) = [T_MESSAGE, T_NEWLINE, T_STRING m, T_NEWLINE]"
| "call_tokens _ = []"

fun block_tokens :: "block \<Rightarrow> token list" where
  "block_tokens (Report c) = call_tokens c"
| "block_tokens (Queued ps) = [T_QUEUE, T_NEWLINE] @ concat (map packet_tokens ps) @ [T_ENDQUEUE, T_NEWLINE]"

text \<open>Which reports can be printed and read: numbers a C integer holds, dotted addresses, words, ports
  above 0, and messages of one non-empty line.\<close>

definition is_ip :: "string \<Rightarrow> bool" where
  "is_ip w \<longleftrightarrow> inet_pton w \<noteq> None"

definition is_num :: "int \<Rightarrow> bool" where
  "is_num n \<longleftrightarrow> 0 \<le> n \<and> n < 2 ^ 31"

definition packet_ok :: "packet \<Rightarrow> bool" where
  "packet_ok p \<longleftrightarrow> is_word (protocol p) \<and> is_ip (ip1 p) \<and> is_ip (ip2 p) \<and> is_num (port1 p) \<and> 0 < port1 p \<and>
     is_num (port2 p) \<and> 0 < port2 p \<and> is_time (ttl p)"

fun call_ok :: "call \<Rightarrow> bool" where
  "call_ok (Do_status ns ws) \<longleftrightarrow> length ns = 6 \<and> list_all is_num ns \<and> length ws = 3 \<and> list_all is_time ws"
| "call_ok (Do_load a b) \<longleftrightarrow> is_num a \<and> is_num b"
| "call_ok (Do_interface i l r) \<longleftrightarrow> is_word i \<and> is_ip l \<and> is_ip r"
| "call_ok (Do_state w) \<longleftrightarrow> is_word w"
| "call_ok (Do_message m) \<longleftrightarrow> m \<noteq> [] \<and> LF \<notin> set m"
| "call_ok _ \<longleftrightarrow> False"

fun block_ok :: "block \<Rightarrow> bool" where
  "block_ok (Report c) \<longleftrightarrow> call_ok c"
| "block_ok (Queued ps) \<longleftrightarrow> list_all packet_ok ps"

fun is_load :: "block \<Rightarrow> bool" where
  "is_load (Report (Do_load _ _)) \<longleftrightarrow> True"
| "is_load _ \<longleftrightarrow> False"


section \<open>Reading reports\<close>

lemmas val_simps = no_vals_def add_num_def add_str_def waits_for_time_def nums_tokens_def

lemma parse_call:
  assumes "call_ok c" and "\<not> is_load (Report c)"
  shows "yyloop e Top es cs (call_tokens c @ ts) =
    (if pe_key e (cs @ [c]) then (Accepted, cs @ [c], ts) else yyloop e Top (es - length (call_tokens c)) (cs @ [c]) ts)"
proof (cases c)
  case (Do_status ns ws)
  obtain n1 n2 n3 n4 n5 n6 where ns: "ns = [n1, n2, n3, n4, n5, n6]"
    using assms(1) Do_status by (auto simp: length_Suc_conv numeral_eq_Suc)
  obtain w1 w2 w3 where ws: "ws = [w1, w2, w3]"
    using assms(1) Do_status by (auto simp: length_Suc_conv numeral_eq_Suc)
  show ?thesis
    by (simp add: Do_status ns ws val_simps finish_def numeral_eq_Suc)
qed (use assms in \<open>simp_all add: val_simps finish_def\<close>)

lemma parse_load:
  "yyloop e Top es cs (call_tokens (Do_load a b) @ ts) = (Accepted, cs @ [Do_load a b], ts)"
  by (simp add: val_simps finish_def)

lemma parse_packet:
  assumes "st = In_queue \<or> st = In_packets"
  shows "yyloop e st es cs (packet_tokens p @ ts) = yyloop e In_packets (es - 7) (cs @ [Do_packet p]) ts"
  using assms by (cases p) (auto simp: packet_tokens_def packet_needs_def packet_call_def val_simps numeral_eq_Suc)

lemma parse_packets:
  assumes "st = In_queue \<or> st = In_packets" and "ps \<noteq> [] \<or> st = In_packets"
  shows "yyloop e st es cs (concat (map packet_tokens ps) @ ts) =
    yyloop e In_packets (es - 7 * length ps) (cs @ map Do_packet ps) ts"
  using assms
proof (induction ps arbitrary: st es cs)
  case (Cons p ps)
  then show ?case by (simp add: parse_packet)
qed auto

lemma parse_queue:
  "yyloop e Top es cs (block_tokens (Queued ps) @ ts) =
    (if pe_key e (cs @ block_calls (Queued ps)) then (Accepted, cs @ block_calls (Queued ps), ts)
     else yyloop e Top (es - length (block_tokens (Queued ps))) (cs @ block_calls (Queued ps)) ts)"
proof -
  have len: "length (concat (map packet_tokens ps)) = 7 * length ps" by (induction ps) (simp_all add: packet_tokens_def)
  have "yyloop e In_queue es' cs' (concat (map packet_tokens ps) @ [T_ENDQUEUE, T_NEWLINE] @ ts) =
      (if pe_key e (cs' @ map Do_packet ps @ [Do_endqueue]) then (Accepted, cs' @ map Do_packet ps @ [Do_endqueue], ts)
       else yyloop e Top (es' - 7 * length ps - 2) (cs' @ map Do_packet ps @ [Do_endqueue]) ts)" for es' cs'
  proof (cases "ps = []")
    case False
    then show ?thesis by (simp add: parse_packets finish_def)
  qed (simp add: finish_def numeral_2_eq_2)
  then show ?thesis by (simp add: len)
qed

text \<open>A run goes on behind a report unless a key waits.\<close>

lemma parse_block_key:
  assumes "block_ok b" and "\<not> is_load b"
  shows "yyloop e Top es cs (block_tokens b @ ts) =
    (if pe_key e (cs @ block_calls b) then (Accepted, cs @ block_calls b, ts)
     else yyloop e Top (es - length (block_tokens b)) (cs @ block_calls b) ts)"
proof (cases b)
  case (Report c)
  with assms parse_call show ?thesis by simp
qed (use parse_queue in simp)

lemma parse_block:
  assumes "block_ok b" and "\<not> is_load b" and "\<not> pe_key e (cs @ block_calls b)"
  shows "yyloop e Top es cs (block_tokens b @ ts) = yyloop e Top (es - length (block_tokens b)) (cs @ block_calls b) ts"
  using parse_block_key [OF assms(1,2), of e es cs ts] assms(3) by simp

lemma parse_blocks:
  assumes "list_all block_ok bs" and "\<not> list_ex is_load bs" and "\<And>cs. \<not> pe_key e cs"
  shows "yyloop e Top 0 cs (concat (map block_tokens bs) @ ts) = yyloop e Top 0 (cs @ concat (map block_calls bs)) ts"
  using assms(1,2)
proof (induction bs arbitrary: cs)
  case (Cons b bs)
  then show ?case using parse_block [of b e cs 0 "concat (map block_tokens bs) @ ts"] assms(3) by simp
qed simp

section \<open>Scanning reports\<close>

lemma is_ip_dotted:
  assumes "is_ip w"
  obtains ds where "w = dotted ds" "length ds = 4" "list_all digits ds"
proof -
  obtain a where "w = inet_ntoa a" using assms by (auto simp: is_ip_def inet_pton_iff)
  then show thesis using that [of "map (\<lambda>k. show_nat (unat (octet a k))) [0, 1, 2, 3]"]
    by (simp add: inet_ntoa_dotted digits_octet)
qed

text \<open>Lines that are scanned as one token and a line end.\<close>

definition scans :: "string \<Rightarrow> token list \<Rightarrow> bool" where
  "scans w ts \<longleftrightarrow> (\<forall>r. lex_all (lexer_at INITIAL True (w @ r)) =
     map_option (\<lambda>(us, q). (ts @ us, q)) (lex_all (lexer_at INITIAL True r)))"

lemma scans_append: "scans v ts \<Longrightarrow> scans w us \<Longrightarrow> scans (v @ w) (ts @ us)"
  by (simp add: scans_def option.map_comp comp_def case_prod_unfold)

lemma scans_Nil: "scans [] []"
  by (simp add: scans_def option.map_id)

lemma scans_concat: "(\<And>x. x \<in> set xs \<Longrightarrow> scans (f x) (g x)) \<Longrightarrow> scans (concat (map f xs)) (concat (map g xs))"
  by (induction xs) (auto simp: scans_Nil intro: scans_append)

lemma scans_line:
  assumes "\<And>r. lex_step (lexer_at INITIAL True (w @ LF # r)) = Some (Some t, lexer_at INITIAL False (LF # r))"
  shows "scans (nl w) [t, T_NEWLINE]"
  using assms by (simp add: scans_def nl_def lex_all_step [OF assms] lex_all_step [OF step_newline]
      option.map_comp comp_def case_prod_unfold)


lemma scans_key:
  assumes "t \<in> {T_STATE, T_INTERFACE, T_STATUS, T_LOAD, T_QUEUE, T_ENDQUEUE}"
  shows "scans (nl (keyword t)) [t, T_NEWLINE]"
  by (rule scans_line) (use assms step_key [of t] in auto)

lemma scans_num: "is_num n \<Longrightarrow> scans (num_line n) [T_NUM n, T_NEWLINE]"
  unfolding num_line_def by (rule scans_line) (use step_num [of "nat n"] in \<open>auto simp: is_num_def\<close>)

lemma scans_time: "is_time w \<Longrightarrow> scans (nl w) [T_TIME w, T_NEWLINE]"
  by (rule scans_line) (simp add: step_time)

lemma scans_ip: "is_ip w \<Longrightarrow> scans (nl w) [T_IP w, T_NEWLINE]"
  by (rule scans_line) (auto elim!: is_ip_dotted simp: step_ip)

lemma scans_word: "is_word w \<Longrightarrow> scans (nl w) [T_STRING w, T_NEWLINE]"
  by (rule scans_line) (simp add: step_word)

lemma scans_message:
  assumes "LF \<notin> set m" and "m \<noteq> []"
  shows "scans (nl ''MESSAGE'' @ nl m) [T_MESSAGE, T_NEWLINE, T_STRING m, T_NEWLINE]"
  using step_key [of T_MESSAGE] step_message [OF assms]
  by (simp add: scans_def nl_def lex_all_step step_newline option.map_comp comp_def case_prod_unfold)

lemma scans_packet:
  assumes "packet_ok p"
  shows "scans (packet_line p) (packet_tokens p)"
proof -
  have ok: "is_word (protocol p)" "is_time (ttl p)" using assms by (simp_all add: packet_ok_def)
  have ports: "0 < nat (port1 p)" "nat (port1 p) < 2 ^ 31" "0 < nat (port2 p)" "nat (port2 p) < 2 ^ 31"
      "0 \<le> port1 p" "0 \<le> port2 p"
    using assms by (auto simp: packet_ok_def is_num_def)
  have ip: "lex_step (lexer_at INITIAL b (w @ CHR ''/'' # r)) = Some (Some (T_IP w), lexer_at INITIAL False (CHR ''/'' # r))"
    if "is_ip w" for w b r using that by (auto elim!: is_ip_dotted simp: step_ip)
  have ips: "is_ip (ip1 p)" "is_ip (ip2 p)" using assms by (simp_all add: packet_ok_def)
  note port = step_port [OF ports(1,2) disjI1 [OF refl]] step_port [OF ports(3,4) disjI1 [OF refl]]
  show ?thesis
    unfolding scans_def packet_line_def packet_tokens_def
    by (simp add: ok ports ips lex_all_step [OF step_word] lex_all_blank [OF step_blank] lex_all_step [OF ip]
        lex_all_step [OF port(1)] lex_all_step [OF port(2)] lex_all_step [OF step_time] lex_all_step [OF step_newline]
        option.map_comp comp_def case_prod_unfold)
qed

lemma scans_block:
  assumes "block_ok b"
  shows "scans (block_text b) (block_tokens b)"
proof (cases b)
  case (Queued ps)
  have "scans (concat (map packet_line ps)) (concat (map packet_tokens ps))"
    using assms Queued by (intro scans_concat scans_packet) (auto simp: list_all_iff)
  then have "scans (nl (keyword T_QUEUE) @ concat (map packet_line ps) @ nl (keyword T_ENDQUEUE))
      ([T_QUEUE, T_NEWLINE] @ concat (map packet_tokens ps) @ [T_ENDQUEUE, T_NEWLINE])"
    by (intro scans_append scans_key) simp_all
  then show ?thesis using Queued by simp
next
  case (Report c)
  show ?thesis
  proof (cases c)
    case (Do_status ns ws)
    have "scans (concat (map num_line ns)) (nums_tokens ns)" "scans (concat (map nl ws)) (concat (map (\<lambda>w. [T_TIME w, T_NEWLINE]) ws))"
      unfolding nums_tokens_def using assms Report Do_status
      by (auto intro!: scans_concat scans_num scans_time simp: list_all_iff)
    with scans_append [OF scans_key [of T_STATUS] scans_append] Report Do_status show ?thesis by simp
  next
    case (Do_load x y)
    with assms Report scans_append [OF scans_key [of T_LOAD] scans_append [OF scans_num [of x] scans_num [of y]]] show ?thesis
      by (simp add: nums_tokens_def)
  next
    case (Do_interface i l r)
    with assms Report scans_append [OF scans_key [of T_INTERFACE] scans_append [OF scans_word [of i]
        scans_append [OF scans_ip [of l] scans_ip [of r]]]] show ?thesis by simp
  next
    case (Do_state w)
    with assms Report scans_append [OF scans_key [of T_STATE] scans_word [of w]] show ?thesis by simp
  next
    case (Do_message m)
    with assms Report scans_message [of m] show ?thesis by simp
  qed (use assms Report in simp_all)
qed

definition reports_text :: "block list \<Rightarrow> string" where
  "reports_text bs = concat (map block_text bs)"

lemma lex_reports:
  assumes "list_all block_ok bs"
  shows "lex_all (lexer_at INITIAL True (reports_text bs)) = Some (concat (map block_tokens bs), INITIAL)"
proof -
  have "scans (reports_text bs) (concat (map block_tokens bs))"
    unfolding reports_text_def using assms by (intro scans_concat scans_block) (auto simp: list_all_iff)
  moreover have "lex_all (lexer_at INITIAL True []) = Some ([], INITIAL)" by (subst lex_all.simps) (simp add: lex_step_def)
  ultimately show ?thesis unfolding scans_def by (metis (mono_tags, lifting) append.right_neutral case_prod_conv option.map(2))
qed

lemma lex_input_reports:
  assumes "list_all block_ok bs" and "concat ws = reports_text bs" "[] \<notin> set ws" and "lex_input INITIAL ins = Some us"
  shows "lex_input INITIAL (arrive ws @ pause # ins) = Some (concat (map block_tokens bs) @ T_WOULDBLOCK # us)"
  using assms(4) lex_reports [OF assms(1)] by (simp add: lex_input_arrive [OF assms(3)] assms(2)) (simp add: lex_input_def)

section \<open>Properties\<close>

text \<open>The parser run after run, as the main loop calls it, until a run ends where the scanner would block.
  Each run has an environment of its own, in which a key may be waiting.\<close>

fun parse_runs :: "parse_env list \<Rightarrow> token list \<Rightarrow> outcome \<times> call list \<times> token list" where
  "parse_runs [] ts = (Accepted, [], ts)"
| "parse_runs (e # es) ts = (case monitor_parse e ts of
      (Accepted, cs, us) \<Rightarrow> (case parse_runs es us of (r, ds, vs) \<Rightarrow> (r, cs @ ds, vs))
    | r \<Rightarrow> r)"

text \<open>One run in front of printed reports gets through all of them, or returns behind one of them, behind
  a load report or because a key waits.\<close>

lemma yyloop_blocks:
  assumes "list_all block_ok bs"
  shows "(let ts = concat (map block_tokens bs) @ T_WOULDBLOCK # us in
    yyloop e Top es cs ts = (Blocked, cs @ concat (map block_calls bs), us) \<or>
    (\<exists>b ys zs. bs = ys @ b # zs \<and> yyloop e Top es cs ts =
      (Accepted, cs @ concat (map block_calls (ys @ [b])), concat (map block_tokens zs) @ T_WOULDBLOCK # us)))"
  using assms
proof (induction bs arbitrary: es cs)
  case Nil
  show ?case by simp
next
  case (Cons b bs)
  let ?ts = "concat (map block_tokens bs) @ T_WOULDBLOCK # us"
  have ok: "block_ok b" "list_all block_ok bs" using Cons.prems by simp_all
  consider (stop) "yyloop e Top es cs (block_tokens b @ ?ts) = (Accepted, cs @ block_calls b, ?ts)"
    | (more) es' where "yyloop e Top es cs (block_tokens b @ ?ts) = yyloop e Top es' (cs @ block_calls b) ?ts"
  proof (cases "is_load b")
    case True
    then obtain tx rx where "b = Report (Do_load tx rx)" by (cases b rule: is_load.cases) simp_all
    with parse_load that(1) show ?thesis by simp
  next
    case False
    with parse_block_key [OF ok(1), of e es cs ?ts] that show ?thesis by (auto split: if_splits)
  qed
  then show ?case
  proof cases
    case stop
    then have "b # bs = [] @ b # bs \<and> yyloop e Top es cs (concat (map block_tokens (b # bs)) @ T_WOULDBLOCK # us) =
        (Accepted, cs @ concat (map block_calls ([] @ [b])), ?ts)" by simp
    then show ?thesis unfolding Let_def by blast
  next
    case (more es')
    from Cons.IH [OF ok(2), of es' "cs @ block_calls b"]
    consider (all) "yyloop e Top es' (cs @ block_calls b) ?ts = (Blocked, (cs @ block_calls b) @ concat (map block_calls bs), us)"
      | (some) c ys zs where "bs = ys @ c # zs" "yyloop e Top es' (cs @ block_calls b) ?ts =
          (Accepted, (cs @ block_calls b) @ concat (map block_calls (ys @ [c])), concat (map block_tokens zs) @ T_WOULDBLOCK # us)"
      unfolding Let_def by blast
    then show ?thesis
    proof cases
      case all
      with more show ?thesis by (simp add: Let_def)
    next
      case some
      then have "b # bs = (b # ys) @ c # zs \<and> yyloop e Top es cs (concat (map block_tokens (b # bs)) @ T_WOULDBLOCK # us) =
          (Accepted, cs @ concat (map block_calls ((b # ys) @ [c])), concat (map block_tokens zs) @ T_WOULDBLOCK # us)"
        using more by simp
      then show ?thesis unfolding Let_def by blast
    qed
  qed
qed

lemma parse_runs_blocks:
  assumes "list_all block_ok bs" and "length bs < length es"
  shows "parse_runs es (concat (map block_tokens bs) @ T_WOULDBLOCK # us) = (Blocked, concat (map block_calls bs), us)"
  using assms
proof (induction es arbitrary: bs)
  case (Cons e es)
  let ?ts = "concat (map block_tokens bs) @ T_WOULDBLOCK # us"
  from yyloop_blocks [OF Cons.prems(1), of us e 0 "[]"]
  consider (all) "monitor_parse e ?ts = (Blocked, concat (map block_calls bs), us)"
    | (some) b ys zs where "bs = ys @ b # zs" "monitor_parse e ?ts =
        (Accepted, concat (map block_calls (ys @ [b])), concat (map block_tokens zs) @ T_WOULDBLOCK # us)"
    unfolding Let_def monitor_parse_def by (simp only: append_Nil) blast
  then show ?case
  proof cases
    case all
    then show ?thesis by simp
  next
    case some
    then have "parse_runs es (concat (map block_tokens zs) @ T_WOULDBLOCK # us) = (Blocked, concat (map block_calls zs), us)"
      using Cons.prems by (intro Cons.IH) auto
    with some show ?thesis by simp
  qed
qed simp

text \<open>C8: what diald reports arrives.  Any sequence of reports and packet queues, load reports among them,
  printed and read through the FIFO in whatever chunks it comes, makes the parser call the handlers with
  exactly the printed values in exactly that order.  A run of the parser returns behind a load report, and
  behind any report when a key waits; whichever runs that happens in, the runs together make these calls,
  and no more than one run for each report and one for the end are needed until a run returns because no
  more characters are there, with the input behind the pause untouched.  (A packet has two ports
  above 0, a message is one non-empty line, as \<open>block_ok\<close> says.)\<close>

theorem reports_read_back:
  assumes "list_all block_ok bs" and "length bs < length es"
    and "concat ws = reports_text bs" "[] \<notin> set ws" and "lex_input INITIAL ins = Some us"
  shows "\<exists>ts. lex_input INITIAL (arrive ws @ pause # ins) = Some ts \<and>
    parse_runs es ts = (Blocked, concat (map block_calls bs), us)"
proof -
  have "lex_input INITIAL (arrive ws @ pause # ins) = Some (concat (map block_tokens bs) @ T_WOULDBLOCK # us)"
    using assms(1,3-5) by (rule lex_input_reports)
  with parse_runs_blocks [OF assms(1,2)] show ?thesis by blast
qed

lemma lex_input_Nil: "lex_input INITIAL [] = Some []"
  by (simp add: lex_input_def, subst lex_all.simps) (simp add: lex_step_def)

definition ex_read_packet :: packet where
  "ex_read_packet = \<lparr>protocol = ''tcp'', ip1 = ''10.0.0.1'', port1 = 80, ip2 = ''10.0.0.2'', port2 = 1024,
     ttl = ''00:09:59''\<rparr>"

definition ex_reports :: "block list" where
  "ex_reports = [Report (Do_state ''UP''), Report (Do_load 1200 64), Report (Do_message ''Connected at 56000''),
     Queued [ex_read_packet]]"

definition ex_parse_env :: parse_env where
  "ex_parse_env = \<lparr>pe_quit = False, pe_key = (\<lambda>_. False), pe_pointer = (\<lambda>_. 134520832)\<rparr>"

lemma ex_read_packet_ok: "packet_ok ex_read_packet" "packet_ok (ex_read_packet\<lparr>port1 := 1\<rparr>)"
proof -
  have "inet_pton ''10.0.0.1'' = Some 16777226" "inet_pton ''10.0.0.2'' = Some 33554442"
    by (simp only: inet_pton_iff, code_simp)+
  then show "packet_ok ex_read_packet" "packet_ok (ex_read_packet\<lparr>port1 := 1\<rparr>)"
    by (simp_all add: ex_read_packet_def packet_ok_def is_ip_def is_num_def is_word_def is_time_def nondigit_def noslash_def is_digit_def)
qed

lemma ex_reports_ok: "list_all block_ok ex_reports"
  using ex_read_packet_ok by (simp add: ex_reports_def is_num_def is_word_def nondigit_def noslash_def is_digit_def)

text \<open>In the second of the five runs a key waits.\<close>

definition ex_runs :: "parse_env list" where
  "ex_runs = [ex_parse_env, ex_parse_env\<lparr>pe_key := (\<lambda>_. True)\<rparr>, ex_parse_env, ex_parse_env, ex_parse_env]"

lemma reports_read_back_witness:
  "\<exists>ts. lex_input INITIAL (arrive [''STA'', drop 3 (reports_text ex_reports)] @ [pause]) = Some ts \<and>
    parse_runs ex_runs ts = (Blocked, [Do_state ''UP'', Do_load 1200 64, Do_message ''Connected at 56000'',
      Do_queue, Do_packet ex_read_packet, Do_endqueue], [])"
proof -
  have "concat [''STA'', drop 3 (reports_text ex_reports)] = reports_text ex_reports" "drop 3 (reports_text ex_reports) \<noteq> []"
    by (simp_all add: reports_text_def ex_reports_def nl_def)
  with reports_read_back [OF ex_reports_ok, of ex_runs "[''STA'', drop 3 (reports_text ex_reports)]" "[]" "[]"] lex_input_Nil
  show ?thesis by (simp add: ex_runs_def ex_reports_def)
qed

lemmas cut_simps = upt_rec val_simps monitor_parse_def top_error_def yyerror_exits_def numeral_eq_Suc

lemma cut_reports:
  assumes "call_ok c"
  shows "\<forall>n \<in> set [1..<length (call_tokens c)].
    monitor_parse e (take n (call_tokens c) @ T_WOULDBLOCK # ts) = (Blocked, [], ts)"
proof (cases c)
  case (Do_status ns ws)
  obtain n1 n2 n3 n4 n5 n6 where ns: "ns = [n1, n2, n3, n4, n5, n6]"
    using assms Do_status by (auto simp: length_Suc_conv numeral_eq_Suc)
  obtain w1 w2 w3 where ws: "ws = [w1, w2, w3]"
    using assms Do_status by (auto simp: length_Suc_conv numeral_eq_Suc)
  show ?thesis by (simp add: Do_status ns ws cut_simps)
qed (simp_all add: cut_simps)

text \<open>A report that is cut short by a pause is dropped.  Whatever part of it had come, no handler is
  called, and the parser returns.\<close>

lemma cut_report_dropped:
  assumes "call_ok c" and "0 < n" "n < length (call_tokens c)"
  shows "monitor_parse e (take n (call_tokens c) @ T_WOULDBLOCK # ts) = (Blocked, [], ts)"
  using cut_reports [OF assms(1)] assms(2,3) by simp

lemma cut_report_dropped_witness:
  "monitor_parse ex_parse_env [T_STATE, T_NEWLINE, T_STRING ''U'', T_WOULDBLOCK, T_STRING ''P'', T_NEWLINE] =
    (Blocked, [], [T_STRING ''P'', T_NEWLINE])"
proof -
  have "call_ok (Do_state ''U'')" by (simp add: is_word_def nondigit_def noslash_def is_digit_def)
  from cut_report_dropped [OF this, of 3 ex_parse_env "[T_STRING ''P'', T_NEWLINE]"] show ?thesis by (simp add: numeral_3_eq_3)
qed


fun in_queue :: "pstate \<Rightarrow> bool" where
  "in_queue Top \<longleftrightarrow> False"
| "in_queue Top_time \<longleftrightarrow> False"
| "in_queue Top_str \<longleftrightarrow> False"
| "in_queue (In_report _ _ _) \<longleftrightarrow> False"
| "in_queue Queue_nl \<longleftrightarrow> False"
| "in_queue _ \<longleftrightarrow> True"

lemma to_top:
  assumes key: "\<And>cs. \<not> pe_key e cs" and quit: "\<not> pe_quit e"
  shows "\<exists>es'. yyloop e st es cs (T_ENDQUEUE # T_NEWLINE # ts) =
    yyloop e Top es' (cs @ (if in_queue st then [Do_endqueue] else [])) ts"
proof -
  have take: "take_sym T_ENDQUEUE ss v = None" for ss v
  proof (induction ss)
    case (Cons x ss)
    then show ?case by (cases x) simp_all
  qed simp
  show ?thesis
    by (cases st) (simp_all add: take key quit top_error_def queue_error_def yyerror_exits_def finish_def,
        (rule exI, rule refl)+)
qed

text \<open>C20: the parser finds back.  Whatever it was in the middle of, behind the next end of a queue it
  reads the reports again: the handlers are called for a report that follows as if nothing had
  happened.\<close>

theorem parser_resynchronises:
  assumes "block_ok b" "\<not> is_load b" and "\<And>cs. \<not> pe_key e cs" and "\<not> pe_quit e"
  shows "\<exists>cs' es'. set cs' \<subseteq> {Do_endqueue} \<and>
    yyloop e st es cs (T_ENDQUEUE # T_NEWLINE # block_tokens b @ ts) = yyloop e Top es' (cs @ cs' @ block_calls b) ts"
proof -
  let ?c = "if in_queue st then [Do_endqueue] else []"
  obtain es' where "yyloop e st es cs (T_ENDQUEUE # T_NEWLINE # block_tokens b @ ts) =
      yyloop e Top es' (cs @ ?c) (block_tokens b @ ts)"
    using to_top [OF assms(3,4), of st es cs "block_tokens b @ ts"] by (rule exE)
  also have "\<dots> = yyloop e Top (es' - length (block_tokens b)) (cs @ ?c @ block_calls b) ts"
    using parse_block [OF assms(1,2,3)] by simp
  finally have "yyloop e st es cs (T_ENDQUEUE # T_NEWLINE # block_tokens b @ ts) =
      yyloop e Top (es' - length (block_tokens b)) (cs @ ?c @ block_calls b) ts" .
  moreover have "set ?c \<subseteq> {Do_endqueue}" by auto
  ultimately show ?thesis by (intro exI conjI)
qed

lemma parser_resynchronises_witness:
  "\<exists>cs' es'. set cs' \<subseteq> {Do_endqueue} \<and>
    yyloop ex_parse_env (In_packet False packet_needs no_vals) 0 [Do_queue]
      (T_ENDQUEUE # T_NEWLINE # block_tokens (Report (Do_state ''UP'')) @ []) =
    yyloop ex_parse_env Top es' ([Do_queue] @ cs' @ [Do_state ''UP'']) []"
  using parser_resynchronises [of "Report (Do_state ''UP'')" ex_parse_env "In_packet False packet_needs no_vals" 0 "[Do_queue]" "[]"]
  by (simp add: ex_parse_env_def is_word_def nondigit_def noslash_def is_digit_def)

text \<open>The port 0 is no port for the scanner, but a string.\<close>

lemma step_port_zero:
  "lex_step (lexer_at INITIAL False (''/0'' @ SP # r)) = Some (Some (T_STRING ''/0''), lexer_at INITIAL False (SP # r))"
proof -
  have "rule_match Port (CHR ''/'' # CHR ''0'' # SP # r) = None" by (simp add: rule_match.simps)
  then have "pick (candidates INITIAL False (''/0'' @ SP # r)) = Some (length ''/0'', Str)"
    by (simp add: scan_simps)
  from lex_step_rule [OF this] show ?thesis by simp
qed


definition zero_port_tokens :: "packet \<Rightarrow> token list" where
  "zero_port_tokens p = [T_STRING (protocol p), T_IP (ip1 p), T_STRING ''/0'', T_IP (ip2 p), T_PORT (port2 p),
     T_TIME (ttl p), T_NEWLINE]"

lemma scans_packet_port_zero:
  assumes "packet_ok (p\<lparr>port1 := 1\<rparr>)" and "port1 p = 0"
  shows "scans (packet_line p) (zero_port_tokens p)"
proof -
  have ok: "is_word (protocol p)" "is_time (ttl p)" "is_ip (ip1 p)" "is_ip (ip2 p)"
    using assms(1) by (simp_all add: packet_ok_def)
  have ports: "0 < nat (port2 p)" "nat (port2 p) < 2 ^ 31" "0 \<le> port2 p"
    using assms(1) by (auto simp: packet_ok_def is_num_def)
  have zero: "show_nat 0 = ''0''" by code_simp
  have ip: "lex_step (lexer_at INITIAL b (w @ CHR ''/'' # r)) = Some (Some (T_IP w), lexer_at INITIAL False (CHR ''/'' # r))"
    if "is_ip w" for w b r using that by (auto elim!: is_ip_dotted simp: step_ip)
  show ?thesis
    unfolding scans_def packet_line_def zero_port_tokens_def
    by (simp add: ok ports assms(2) zero lex_all_step [OF step_word] lex_all_blank [OF step_blank] lex_all_step [OF ip]
        lex_all_step [OF step_port_zero [simplified]] lex_all_step [OF step_port [OF ports(1,2) disjI1 [OF refl]]]
        lex_all_step [OF step_time] lex_all_step [OF step_newline] option.map_comp comp_def case_prod_unfold)
qed

lemma parse_skipping:
  assumes "T_ENDQUEUE \<notin> set us" and "\<And>cs. \<not> pe_key e cs"
  shows "yyloop e Skipping 3 cs (us @ T_ENDQUEUE # T_NEWLINE # ts) = yyloop e Top 1 (cs @ [Do_endqueue]) ts"
  using assms(1) by (induction us) (auto simp: finish_def assms(2))

text \<open>C39: one packet with the destination port 0, as protocols without ports have it, costs the rest of the
  list.  The scanner takes the port for a string, the parser throws away everything up to the end of
  the queue, and no packet behind the first such packet is shown.\<close>

theorem port_zero_hides_packets:
  assumes "list_all packet_ok ps" "list_all packet_ok qs" and "packet_ok (p\<lparr>port1 := 1\<rparr>)" "port1 p = 0"
    and "ps \<noteq> []" and "\<And>cs. \<not> pe_key e cs" and "\<not> pe_quit e"
  shows "\<exists>ts. lex_pieces INITIAL [nl ''QUEUE'' @ concat (map packet_line (ps @ p # qs)) @ nl ''END QUEUE''] = Some ts \<and>
    monitor_parse e ts = (Ended, Do_queue # map Do_packet ps @ [Do_endqueue], [])"
proof -
  let ?line = "\<lambda>qs. concat (map packet_line qs)" and ?tok = "\<lambda>qs. concat (map packet_tokens qs)"
  let ?ts = "[T_QUEUE, T_NEWLINE] @ ?tok ps @ zero_port_tokens p @ ?tok qs @ [T_ENDQUEUE, T_NEWLINE]"
  have "scans (nl (keyword T_QUEUE) @ ?line ps @ packet_line p @ ?line qs @ nl (keyword T_ENDQUEUE)) ?ts"
    using assms(1-4) by (intro scans_append scans_key scans_concat scans_packet scans_packet_port_zero) (auto simp: list_all_iff)
  then have "lex_all (lexer_at INITIAL True (nl ''QUEUE'' @ ?line (ps @ p # qs) @ nl ''END QUEUE'')) =
      map_option (\<lambda>(us, q). (?ts @ us, q)) (lex_all (lexer_at INITIAL True []))"
    unfolding scans_def by (metis (no_types, lifting) append.assoc append.right_neutral concat.simps(2) concat_append keyword.simps(5,6) list.simps(9) map_append)
  moreover have "lex_all (lexer_at INITIAL True []) = Some ([], INITIAL)" by (subst lex_all.simps) (simp add: lex_step_def)
  ultimately have lex: "lex_pieces INITIAL [nl ''QUEUE'' @ ?line (ps @ p # qs) @ nl ''END QUEUE''] = Some ?ts" by simp
  have no_end: "T_ENDQUEUE \<notin> set ([T_IP (ip2 p), T_PORT (port2 p), T_TIME (ttl p), T_NEWLINE] @ ?tok qs)"
    by (auto simp: packet_tokens_def)
  have "monitor_parse e ?ts = yyloop e In_packets (0 - 7 * length ps) (Do_queue # map Do_packet ps)
      (zero_port_tokens p @ ?tok qs @ [T_ENDQUEUE, T_NEWLINE])"
    using assms(5) by (simp add: monitor_parse_def parse_packets)
  also have "\<dots> = yyloop e Skipping 3 (Do_queue # map Do_packet ps)
      (([T_IP (ip2 p), T_PORT (port2 p), T_TIME (ttl p), T_NEWLINE] @ ?tok qs) @ T_ENDQUEUE # T_NEWLINE # [])"
    using assms(7) by (simp add: zero_port_tokens_def packet_needs_def val_simps queue_error_def yyerror_exits_def)
  also have "\<dots> = (Ended, Do_queue # map Do_packet ps @ [Do_endqueue], [])"
    by (subst parse_skipping [OF no_end assms(6)]) simp
  finally show ?thesis using lex by blast
qed

lemma port_zero_hides_packets_witness:
  "\<exists>ts. lex_pieces INITIAL [nl ''QUEUE'' @ concat (map packet_line [ex_read_packet, ex_read_packet\<lparr>port1 := 0\<rparr>, ex_read_packet]) @
      nl ''END QUEUE''] = Some ts \<and>
    monitor_parse ex_parse_env ts = (Ended, [Do_queue, Do_packet ex_read_packet, Do_endqueue], [])"
  using port_zero_hides_packets [of "[ex_read_packet]" "[ex_read_packet]" "ex_read_packet\<lparr>port1 := 0\<rparr>" ex_parse_env] ex_read_packet_ok
  by (simp add: ex_parse_env_def)

end
