(* ===== verification/Commands.thy ===== *)
theory Commands
  imports Screen
begin

text \<open>
  Commands for diald: recognising what the user typed and sending it (\<open>validate_command\<close>,
  \<open>strstrip\<close> and \<open>fifo_command\<close> of \<open>client/pipe.c\<close>), and the keyboard (\<open>get_command\<close> and
  \<open>parse_keyboard\<close> of \<open>client/screen.c\<close>).  The lemmas show that nothing but one of the nine commands
  is ever sent, when a command is recognised, and that the user can say it in any case.
\<close>

definition cmd :: "string list" where
  "cmd = [''up'', ''down'', ''force'', ''unforce'', ''block'', ''unblock'', ''quit'', ''delayed-quit'', ''reset'']"

text \<open>\<open>isspace\<close> in the C locale.\<close>

definition isspace :: "char \<Rightarrow> bool" where
  "isspace c = (let n = (of_char c :: nat) in n = 32 \<or> 9 \<le> n \<and> n \<le> 13)"

definition strstrip :: "string \<Rightarrow> string" where
  "strstrip line = takeWhile (\<lambda>c. \<not> isspace c) line"

text \<open>\<open>strncmp\<close>: the difference at the first position where the strings differ.  \<open>strtcmp\<close>, which nothing calls.\<close>

fun strncmp :: "string \<Rightarrow> string \<Rightarrow> nat \<Rightarrow> int" where
  "strncmp s t 0 = 0"
| "strncmp [] [] (Suc n) = 0"
| "strncmp (x # xs) [] (Suc n) = of_char x"
| "strncmp [] (y # ys) (Suc n) = - of_char y"
| "strncmp (x # xs) (y # ys) (Suc n) = (if x = y then strncmp xs ys n else of_char x - of_char y)"

definition strtcmp :: "string \<Rightarrow> string \<Rightarrow> int" where
  "strtcmp str1 str2 = strncmp str1 str2 (length str2)"

text \<open>The loop of \<open>validate_command\<close>, and what it leaves in the buffer.  \<open>strstrip\<close> cuts the buffer in
  place at every turn.\<close>

fun find_cmd :: "string list \<Rightarrow> string \<Rightarrow> string" where
  "find_cmd [] command = []"
| "find_cmd (c # cs) command =
     (let command' = strstrip command in
      if strncasecmp c command' (length c) = 0 then c else find_cmd cs command')"

definition validate_command :: "string \<Rightarrow> string" where
  "validate_command command = find_cmd cmd command"

definition fifo_command :: "string \<Rightarrow> client \<Rightarrow> int \<times> client" where
  "fifo_command command s =
     (if length command = 0 then (1, s) else (0, say (Send (command @ [LF])) s))"

text \<open>\<open>get_command\<close>: \<open>mvwgetstr\<close> puts what the user types into the 256 bytes of \<open>line\<close>, without a limit.\<close>

definition get_command :: "string \<Rightarrow> client \<Rightarrow> (string \<times> client) res" where
  "get_command typed s =
     (let s1 = update_screen (say (Print Full LINE_COMMAND 0 ''FIFO Command:'') s)
      in rbind (fits LINELENGTH typed) (\<lambda>line. Inr (line, s1)))"

text \<open>\<open>get_timeout\<close>, which nothing calls; \<open>cap\<close> is the size of the buffer it is given.\<close>

definition get_timeout :: "nat \<Rightarrow> string \<Rightarrow> client \<Rightarrow> (string \<times> client) res" where
  "get_timeout cap typed s =
     (let s1 = update_screen (say (Print Full LINE_COMMAND 0 ''Timeout (in us):'') s)
      in rbind (fits cap typed) (\<lambda>line. Inr (line, s1)))"

text \<open>\<open>parse_keyboard\<close> for a key, and what the user types when asked.\<close>

definition parse_keyboard :: "char \<Rightarrow> string \<Rightarrow> client \<Rightarrow> client res" where
  "parse_keyboard key typed s =
     (if key = CHR ''q'' then Inr (s\<lparr>quit := 1\<rparr>)
      else if key = CHR ''h'' then Inr (update_screen (say (Clear Sub) (helpscreen s)))
      else if key = CHR ''c'' then
        rbind (get_command typed s) (\<lambda>(line, s1).
          let s2 = snd (fifo_command (validate_command line) s1)
          in Inr (update_screen (say (ClrToEol LINE_COMMAND) s2)))
      else if key = CHR ''n'' then Inr (s\<lparr>numeric := 1 - numeric s\<rparr>)
      else if key = CHR ''l'' then Inr (s\<lparr>trunc_local_hosts := 1 - trunc_local_hosts s\<rparr>)
      else if key = CHR 0x12 then Inr (update_screen (say (Clear Full) s))
      else Inr s)"

section \<open>What is recognised\<close>

text \<open>\<open>strtcmp\<close> tests for a prefix.\<close>

lemma strtcmp_prefix: "NUL \<notin> set str2 \<Longrightarrow> strtcmp str1 str2 = 0 \<longleftrightarrow> take (length str2) str1 = str2"
proof (induction str2 arbitrary: str1)
  case Nil
  show ?case by (simp add: strtcmp_def)
next
  case (Cons y ys)
  have inj: "(of_char a :: int) = of_char b \<longleftrightarrow> a = b" for a b :: char by (simp add: of_char_eq_iff)
  have "(of_char y :: int) \<noteq> of_char NUL" using Cons.prems inj by (metis list.set_intros(1))
  then have "(of_char y :: int) \<noteq> 0" by simp
  with Cons show ?case by (cases str1) (auto simp: strtcmp_def inj)
qed

text \<open>A typed line starts with a word, in any case.\<close>

definition starts_with :: "string \<Rightarrow> string \<Rightarrow> bool" where
  "starts_with c line \<longleftrightarrow> length c \<le> length line \<and> map to_lower (take (length c) line) = map to_lower c"

lemma strstrip_idem [simp]: "strstrip (strstrip l) = strstrip l"
  unfolding strstrip_def by (metis takeWhile_takeWhile takeWhile_idem)

lemma find_cmd_strstrip: "find_cmd cs (strstrip l) = find_cmd cs l"
  by (cases cs) (simp_all add: Let_def)

lemma NUL_notin_strstrip: "NUL \<notin> set l \<Longrightarrow> NUL \<notin> set (strstrip l)"
  by (auto simp: strstrip_def dest: set_takeWhileD)

lemma strncasecmp_starts_with:
  assumes "NUL \<notin> set c" and "NUL \<notin> set l"
  shows "strncasecmp c l (length c) = 0 \<longleftrightarrow> starts_with c l"
proof -
  have "strncasecmp c l (length c) = 0 \<longleftrightarrow> map to_lower c = map to_lower (take (length c) l)"
    using assms by (simp add: strncasecmp_eq_0)
  moreover have "map to_lower c = map to_lower (take (length c) l) \<Longrightarrow> length c \<le> length l"
    by (drule arg_cong [of _ _ length]) simp
  ultimately show ?thesis by (auto simp: starts_with_def)
qed

lemma find_cmd_eq:
  assumes "\<forall>c \<in> set cs. NUL \<notin> set c" and "NUL \<notin> set l"
  shows "find_cmd cs l = (case find (\<lambda>c. starts_with c (strstrip l)) cs of None \<Rightarrow> [] | Some c \<Rightarrow> c)"
  using assms
  by (induction cs) (simp_all add: Let_def strncasecmp_starts_with NUL_notin_strstrip find_cmd_strstrip)

lemma cmd_no_NUL: "\<forall>c \<in> set cmd. NUL \<notin> set c"
  by code_simp

text \<open>C24: \<open>validate_command\<close> replaces what the user typed by the first command of the list that the
  first word of the line starts with, whatever its case, and by the empty string when there is none.\<close>

theorem validate_command_spec:
  assumes "NUL \<notin> set l"
  shows "validate_command l =
    (case find (\<lambda>c. starts_with c (takeWhile (\<lambda>x. \<not> isspace x) l)) cmd of None \<Rightarrow> [] | Some c \<Rightarrow> c)"
  using find_cmd_eq [OF cmd_no_NUL assms] by (simp add: validate_command_def strstrip_def)

lemma validate_command_spec_witness: "validate_command ''UnBlock now'' = ''unblock''"
proof -
  have "NUL \<notin> set ''UnBlock now''" by code_simp
  moreover have "(case find (\<lambda>c. starts_with c (takeWhile (\<lambda>x. \<not> isspace x) ''UnBlock now'')) cmd of None \<Rightarrow> [] | Some c \<Rightarrow> c) = ''unblock''"
    by code_simp
  ultimately show ?thesis using validate_command_spec [of "''UnBlock now''"] by simp
qed

lemma find_cmd_member: "find_cmd cs l \<noteq> [] \<Longrightarrow> find_cmd cs l \<in> set cs"
  by (induction cs arbitrary: l) (auto simp: Let_def split: if_splits)

lemma parse_keyboard_sent:
  assumes "parse_keyboard key typed s = Inr s'"
  shows "sent (c_out s') = sent (c_out s) \<or>
    key = CHR ''c'' \<and> list_ex (\<lambda>c. sent (c_out s') = sent (c_out s) @ [c @ [LF]]) cmd"
proof -
  have hl: "sent (c_out (help_lines ls u)) = sent (c_out u)" for ls u
    by (induction ls arbitrary: u) (auto simp: help_lines_def print_help_def Let_def)
  have p0: "sent (c_out (print_help 0 None u)) = sent (c_out u)" for u by (simp add: print_help_def)
  have "sent (c_out (helpscreen s)) = sent (c_out s)"
    by (simp add: helpscreen_def Let_def show_help_commands_def update_screen_def hl p0)
  then show ?thesis using assms find_cmd_member [of cmd typed]
    by (auto simp: parse_keyboard_def get_command_def fifo_command_def update_screen_def validate_command_def
        list_ex_iff Let_def split: if_splits)
qed

text \<open>Whatever keys are pressed and whatever is typed, what the client sends to diald or to the server
  is one of the nine commands and a line end, one for each request.\<close>

lemma parse_keyboard_sends:
  assumes "parse_keyboard key typed s = Inr s'"
  shows "sent (c_out s') = sent (c_out s) \<or>
    key = CHR ''c'' \<and> list_ex (\<lambda>c. sent (c_out s') = sent (c_out s) @ [c @ [LF]]) cmd"
  by (rule parse_keyboard_sent [OF assms])

lemma parse_keyboard_sends_witness:
  "\<exists>s'. parse_keyboard (CHR ''c'') ''Up'' ex_client = Inr s' \<and> sent (c_out s') = [''up'' @ [LF]]"
proof -
  have run: "is_ok (parse_keyboard (CHR ''c'') ''Up'' ex_client)" by code_simp
  then obtain s' where s': "parse_keyboard (CHR ''c'') ''Up'' ex_client = Inr s'" by (auto simp: is_ok_iff)
  have "case parse_keyboard (CHR ''c'') ''Up'' ex_client of Inl _ \<Rightarrow> False | Inr s' \<Rightarrow> sent (c_out s') = [''up'' @ [LF]]"
    by code_simp
  with s' parse_keyboard_sends [OF s'] show ?thesis by simp
qed

text \<open>The help page and the manual offer the command \<open>delay-quit\<close>; the program only knows
  \<open>delayed-quit\<close>, and what the help page offers is dropped.\<close>

lemma delay_quit_unknown:
  "filter (\<lambda>c. validate_command c = [])
     (map (\<lambda>(x, t). takeWhile (\<lambda>ch. ch \<noteq> SP) t) (tl help_commands)) = [''delay-quit'']"
  by code_simp

end
