(* ===== verification/ClientFrame.thy ===== *)
theory ClientFrame
  imports MonitorParse Commands
begin

text \<open>
  What the operations of the client leave alone.  The globals of the client are one record, so a
  statement about a part of it needs that most operations do not touch that part; this is proved once,
  for any view of the state that does not depend on the fields an operation changes, and used for the
  lines sent, the settings and the row buffers.
\<close>

section \<open>Views\<close>

text \<open>A view that depends neither on what is printed nor on the variables that keys change.\<close>

locale quiet =
  fixes f :: "client \<Rightarrow> 'a"
  assumes say: "\<forall>l. e \<noteq> Send l \<Longrightarrow> f (say e s) = f s"
    and flags: "f (s\<lparr>quit := x\<rparr>) = f s" "f (s\<lparr>numeric := x\<rparr>) = f s" "f (s\<lparr>trunc_local_hosts := x\<rparr>) = f s"
      "f (s\<lparr>yacc_eof := x\<rparr>) = f s" "f (s\<lparr>resize_event_p := x\<rparr>) = f s" "f (s\<lparr>currline := x\<rparr>) = f s"
begin

lemma show_rows_kept: "show_rows is s = Inr s' \<Longrightarrow> f s' = f s"
  by (induction "is" arbitrary: s) (auto simp: say split: if_splits)

lemma show_packets_kept: "show_packets s = Inr s' \<Longrightarrow> f s' = f s"
  by (auto simp: show_packets_def Let_def say dest!: show_rows_kept split: if_splits)

lemma do_interface_kept: "do_interface ifc loc rem s = Inr s' \<Longrightarrow> f s' = f s"
  by (auto simp: do_interface_def Let_def say)

lemma do_message_kept: "f (do_message m s) = f s"
  by (simp add: do_message_def Let_def say)

lemma update_screen_kept: "f (update_screen s) = f s"
  by (simp add: update_screen_def say)

end

text \<open>A view that does not depend on the cache of host names.\<close>

locale cacheless = quiet +
  assumes hosts: "f (s\<lparr>hheap := h\<rparr>) = f s" "f (s\<lparr>hosthash := t\<rparr>) = f s" "f (s\<lparr>mydomain := w\<rparr>) = f s"
begin

lemma cache_kept:
  "get_hr m a hr s = Inr (x, s') \<Longrightarrow> f s' = f s"
  "set_rec x a nm tr s = Inr s' \<Longrightarrow> f s' = f s"
  "f (snd (truncate_hostname mydom nm s)) = f s"
  by (auto simp: get_hr_def gettab_def set_rec_def truncate_hostname_def Let_def hosts split: option.splits if_splits)

lemma query_host_kept: "query_host ghba mydom m aaddr a hr s = Inr (nm, s') \<Longrightarrow> f s' = f s"
  by (auto simp: query_host_def case_prod_beta cache_kept dest!: cache_kept(1,2) split: hostent.splits)

lemma resolve_kept: "resolve ghba mydom m aaddr s = Inr (nm, s') \<Longrightarrow> f s' = f s"
  by (auto simp: resolve_def gettab_def hosts dest!: query_host_kept split: option.splits if_splits)

end

text \<open>A view that does not depend on what reports change.\<close>

locale linkless = quiet +
  assumes link: "f (s\<lparr>curr_state := w\<rparr>) = f s" "f (s\<lparr>count := x\<rparr>) = f s" "f (s\<lparr>now := x\<rparr>) = f s"
      "f (s\<lparr>rxload := ld\<rparr>) = f s" "f (s\<lparr>txload := ld\<rparr>) = f s"
begin

lemma do_state_kept: "do_state w s = Inr s' \<Longrightarrow> f s' = f s"
  by (auto simp: do_state_def Let_def say link)

lemma do_load_kept: "f (do_load tx rx s) = f s"
  by (simp add: do_load_def link split: prod.splits)

end

text \<open>A view that does not depend on the screen and its row buffers either.\<close>

locale rowless = linkless +
  assumes rows: "f (s\<lparr>scrbuff := b\<rparr>) = f s" "f (s\<lparr>numbuff := x\<rparr>) = f s" "f (s\<lparr>cols := x\<rparr>) = f s"
    "f (s\<lparr>c_LINES := x\<rparr>) = f s" "f (s\<lparr>c_COLS := x\<rparr>) = f s" "f (s\<lparr>ip_width := x\<rparr>) = f s"
begin

lemma clear_rows_kept: "clear_rows is s = Inr s' \<Longrightarrow> f s' = f s"
  by (induction "is" arbitrary: s) (auto simp: set_row_def rows split: if_splits)

lemma do_queue_kept: "do_queue t s = Inr s' \<Longrightarrow> f s' = f s"
  by (auto simp: do_queue_def Let_def say link dest!: clear_rows_kept)

lemma free_rows_kept: "free_rows s = Inr s' \<Longrightarrow> f s' = f s"
proof (induction s rule: free_rows.induct)
  case (1 s)
  then show ?case by (subst (asm) free_rows.simps) (auto simp: rows split: if_splits)
qed

lemma screen_init_kept: "f (screen_init junk sz s) = f s"
proof -
  have "f (alloc_rows junk l u) = f u" for l u
    by (induction junk l u rule: alloc_rows.induct) (subst alloc_rows.simps, simp add: Let_def rows)
  then show ?thesis by (simp add: screen_init_def Let_def say update_screen_kept link rows split: prod.split)
qed

lemma do_screen_resize_kept: "do_screen_resize junk sz s = Inr s' \<Longrightarrow> f s' = f s"
  by (auto simp: do_screen_resize_def screen_init_kept say rows dest!: free_rows_kept)

end

text \<open>Views that do not depend on the cache either.\<close>

locale kept = cacheless + linkless
begin

lemmas view_simps = say flags link hosts

end

locale kept_rows = kept + rowless
begin

lemma do_packet_kept: "do_packet e p s = Inr s' \<Longrightarrow> f s' = f s"
  by (auto simp: do_packet_def set_row_def Let_def rows link dest!: resolve_kept split: if_splits)

end

text \<open>A view that does not depend on what is sent: no key changes it.\<close>

locale kept_keys = quiet +
  assumes send: "f (say (Send l) s) = f s"
begin

lemma say_any: "f (say e s) = f s"
  by (cases e) (simp_all add: say send)

lemma print_help_kept: "f (print_help x l s) = f s"
  by (cases l) (simp_all add: print_help_def Let_def say flags)

lemma help_lines_kept: "f (help_lines ls s) = f s"
proof (induction ls arbitrary: s)
  case (Cons l ls)
  then show ?case by (cases l) (simp add: help_lines_def print_help_kept)
qed (simp add: help_lines_def)

lemma helpscreen_kept: "f (helpscreen s) = f s"
  by (simp add: helpscreen_def show_help_commands_def help_lines_kept print_help_kept update_screen_kept say Let_def)

lemma parse_keyboard_kept: "parse_keyboard key typed s = Inr s' \<Longrightarrow> f s' = f s"
  by (auto simp: parse_keyboard_def get_command_def fifo_command_def Let_def helpscreen_kept update_screen_kept
      say_any flags split: if_splits)

end

section \<open>The views in use\<close>

text \<open>The lines sent.\<close>

interpretation sn: kept_rows "\<lambda>s. sent (c_out s)"
proof unfold_locales
  fix e :: client_event and s
  assume "\<forall>l. e \<noteq> Send l"
  then show "sent (c_out (say e s)) = sent (c_out s)" by (cases e) simp_all
qed simp_all

text \<open>The settings: what the command line and the set-up of the connection decide.\<close>

definition settings :: "client \<Rightarrow> int \<times> int \<times> string \<times> string \<times> string \<times> string \<times> int \<times> int \<times> int" where
  "settings s = (remotemode s, quit_if_parse_error s, remoteip s, revision s, c_control s, c_monitor s,
     c_controlfd s, c_monitorfd s, format_width s)"

interpretation st: kept_rows settings
  by unfold_locales (simp_all add: settings_def say_def)

interpretation st: kept_keys settings
  by unfold_locales (simp add: settings_def say_def)

text \<open>The row buffers.\<close>

definition rows_of :: "client \<Rightarrow> (nat \<Rightarrow> string option) \<times> int \<times> int \<times> int" where
  "rows_of s = (scrbuff s, numbuff s, cols s, c_LINES s)"

interpretation rw: kept rows_of
  by unfold_locales (simp_all add: rows_of_def say_def)

interpretation rw: kept_keys rows_of
  by unfold_locales (simp_all add: rows_of_def say_def)

text \<open>What the display depends on: the rows, the widths, the number of packets and the state of the link.\<close>

definition display_of :: "client \<Rightarrow> (nat \<Rightarrow> string option) \<times> int \<times> int \<times> int \<times> int \<times> int \<times> int \<times> string" where
  "display_of s = (scrbuff s, numbuff s, cols s, c_LINES s, c_COLS s, format_width s, count s, curr_state s)"

interpretation dp: cacheless display_of
  by unfold_locales (simp_all add: display_of_def say_def)

interpretation dp: kept_keys display_of
  by unfold_locales (simp add: display_of_def say_def)

text \<open>The cache of host names.\<close>

definition cache_of :: "client \<Rightarrow> hostrec heap \<times> (nat \<Rightarrow> addr option)" where
  "cache_of s = (hheap s, hosthash s)"

interpretation hc: rowless cache_of
  by unfold_locales (simp_all add: cache_of_def say_def)

interpretation hc: kept_keys cache_of
  by unfold_locales (simp add: cache_of_def say_def)

end
