(* ===== verification/ClientMain.thy ===== *)
theory ClientMain
  imports ClientFrame
begin

text \<open>
  The client as a whole: its options and main loop (\<open>client/diald-top.c\<close>), connecting to diald or to
  a server, and reading reports (\<open>init_fifo\<close>, \<open>read_fifo\<close> and \<open>close_fifo\<close> of \<open>client/pipe.c\<close>).
  The lemmas show that what diald writes into the FIFO is shown on the screen, that the main loop
  never sends anything but commands, and what a resize does to the link state.
\<close>

section \<open>Options\<close>

text \<open>What \<open>getopt\<close> returns: the options in order, each with its argument; \<open>log_ok\<close> says whether the log
  file can be opened.  An option that is not known shows the usage text and exits.\<close>

fun read_options :: "bool \<Rightarrow> (char \<times> string) list \<Rightarrow> client \<Rightarrow> client res" where
  "read_options log_ok [] s = Inr s"
| "read_options log_ok ((opt, optarg) # os) s =
     (if opt = CHR ''q'' then read_options log_ok os (s\<lparr>quit_if_parse_error := 1\<rparr>)
      else if opt = CHR ''n'' then read_options log_ok os (s\<lparr>numeric := 1\<rparr>)
      else if opt = CHR ''l'' then read_options log_ok os (s\<lparr>trunc_local_hosts := 1\<rparr>)
      else if opt = CHR ''c'' then read_options log_ok os (s\<lparr>c_control := optarg\<rparr>)
      else if opt = CHR ''r'' then read_options log_ok os (s\<lparr>remoteip := optarg, remotemode := 1\<rparr>)
      else if opt = CHR ''L'' then (if log_ok then read_options log_ok os s else Inl (Exit 1))
      else Inl (Exit 2))"

definition read_command_line :: "string \<Rightarrow> string \<Rightarrow> bool \<Rightarrow> (char \<times> string) list \<Rightarrow> client \<Rightarrow> client res" where
  "read_command_line tmp control_fifo log_ok os s =
     read_options log_ok os (s\<lparr>c_monitor := tmp, c_control := control_fifo, numeric := 0, remotemode := 0\<rparr>)"

text \<open>What is printed: the usage text, at the first option that is not known; \<open>argv0\<close> is the name of the
  program.\<close>

fun options_output :: "string \<Rightarrow> string \<Rightarrow> bool \<Rightarrow> (char \<times> string) list \<Rightarrow> client \<Rightarrow> string" where
  "options_output argv0 control_fifo log_ok [] s = []"
| "options_output argv0 control_fifo log_ok ((opt, optarg) # os) s =
     (if opt \<in> set ''qnlcr'' then options_output argv0 control_fifo log_ok os s
      else if opt = CHR ''L'' then (if log_ok then options_output argv0 control_fifo log_ok os s else [])
      else fst (display_usage (revision s) argv0 control_fifo))"

lemma options_output_exit:
  "read_options log_ok os s' = Inl (snd (display_usage (revision s) argv0 control_fifo)) \<longleftrightarrow>
   options_output argv0 control_fifo log_ok os s \<noteq> []"
  by (induction log_ok os s' rule: read_options.induct) (auto simp: display_usage_def usagetext_def)

section \<open>pipe.c\<close>

text \<open>What \<open>init_fifo\<close> meets: the results of \<open>socket\<close>, \<open>bind\<close>, \<open>connect\<close> and \<open>dup\<close>, the descriptors
  \<open>open\<close> returns, the result of \<open>select\<close>, and whether \<open>fdopen\<close> succeeds.\<close>

record fifo_env =
  f_socket :: int
  f_bound :: bool
  f_connected :: bool
  f_dup :: int
  f_control :: int
  f_monitor :: int
  f_select :: int
  f_fdopen :: bool

definition connect_remote :: "fifo_env \<Rightarrow> client \<Rightarrow> (string \<times> client) res" where
  "connect_remote e s =
     (if inet_pton (remoteip s) = None then Inl (Exit 1)
      else if \<not> f_bound e then Inl (Exit 1)
      else if \<not> f_connected e then Inl (Exit 1)
      else Inr (''monitor on'', s\<lparr>c_monitorfd := f_socket e, c_controlfd := f_dup e\<rparr>))"

definition open_local :: "fifo_env \<Rightarrow> client \<Rightarrow> (string \<times> client) res" where
  "open_local e s =
     (if f_control e < 0 then Inl (Exit 1)
      else
        let s1 = say (MakeFifo (c_monitor s)) (s\<lparr>c_controlfd := f_control e\<rparr>) in
        if f_monitor e < 0 then Inl (Exit 1)
        else rbind (fits LINELENGTH (''monitor '' @ c_monitor s1))
               (\<lambda>line. Inr (line, s1\<lparr>c_monitorfd := f_monitor e\<rparr>)))"

definition init_fifo :: "fifo_env \<Rightarrow> client \<Rightarrow> client res" where
  "init_fifo e s =
     (let s0 = s\<lparr>yacc_eof := 0, count := 0\<rparr> in
      rbind (if remotemode s0 \<noteq> 0 then connect_remote e s0 else open_local e s0) (\<lambda>(line, s1).
        let s2 = snd (fifo_command line s1) in
        if remotemode s2 = 0 \<and> f_select e \<le> 0 then Inl (Exit 1)
        else if \<not> f_fdopen e then Inl (Exit 1)
        else Inr (s2\<lparr>format_width := ip_width s2\<rparr>)))"

definition close_fifo :: "client \<Rightarrow> client" where
  "close_fifo s = say (RemoveFifo (c_monitor s)) (say (CloseFd (c_monitorfd s)) (say (CloseFd (c_controlfd s)) s))"

text \<open>The calls of the parser are carried out; \<open>now\<close> is the time at a call, \<open>e\<close> what a packet meets.\<close>

fun do_report :: "int \<times> packet_env \<Rightarrow> call \<Rightarrow> client \<Rightarrow> client res" where
  "do_report (t, e) (Do_status ns ws) s = Inr (do_status ns ws s)"
| "do_report (t, e) (Do_load tx rx) s = Inr (do_load tx rx s)"
| "do_report (t, e) (Do_interface ifc loc rem) s = do_interface ifc loc rem s"
| "do_report (t, e) (Do_state st) s = do_state st s"
| "do_report (t, e) (Do_message m) s = Inr (do_message m s)"
| "do_report (t, e) Do_queue s = do_queue t s"
| "do_report (t, e) (Do_packet p) s = do_packet e p s"
| "do_report (t, e) Do_endqueue s = Inr (do_endqueue s)"

fun do_reports :: "(nat \<Rightarrow> int \<times> packet_env) \<Rightarrow> nat \<Rightarrow> call list \<Rightarrow> client \<Rightarrow> client res" where
  "do_reports ce n [] s = Inr s"
| "do_reports ce n (c # cs) s = rbind (do_report (ce n) c s) (do_reports ce (Suc n) cs)"

text \<open>What a run of \<open>yyparse\<close> meets: the surroundings of the parser, and of each of its calls, and what \<open>select\<close>
  on the keyboard returns after the calls made so far.\<close>

record run_env =
  r_parse :: parse_env
  r_calls :: "nat \<Rightarrow> int \<times> packet_env"
  r_ready :: "call list \<Rightarrow> int"

definition run_parse_env :: "run_env \<Rightarrow> client \<Rightarrow> parse_env" where
  "run_parse_env r s = (r_parse r)\<lparr>pe_quit := quit_if_parse_error s \<noteq> 0, pe_key := (\<lambda>cs. lex_testkey (r_ready r cs) \<noteq> 0)\<rparr>"

text \<open>A run on the tokens \<open>ts\<close>.  The result says whether it ends because no more input is there
  (\<open>yacc_block\<close>), and which tokens it leaves.  The parser stops before the first call that fails.\<close>

definition yyparse :: "run_env \<Rightarrow> token list \<Rightarrow> client \<Rightarrow> (bool \<times> token list \<times> client) res" where
  "yyparse r ts s =
     (case monitor_parse (run_parse_env r s) ts of (out, cs, us) \<Rightarrow>
        rbind (do_reports (r_calls r) 0 cs s) (\<lambda>s1.
          if out = Exited then Inl (Exit 1)
          else Inr (out = Blocked, us, if out = Ended \<or> out = Aborted then s1\<lparr>yacc_eof := 1\<rparr> else s1)))"

text \<open>The loop of \<open>read_fifo\<close>, which parses at most four times; \<open>n\<close> counts the turns left.\<close>

fun parse_loop :: "nat \<Rightarrow> (nat \<Rightarrow> run_env) \<Rightarrow> nat \<Rightarrow> token list \<Rightarrow> client \<Rightarrow> (token list \<times> client) res" where
  "parse_loop 0 runs i ts s = Inl Diverges"
| "parse_loop (Suc n) runs i ts s =
     rbind (yyparse (runs i) ts s) (\<lambda>(yacc_block, us, s1).
       if \<not> yacc_block \<and> i + 1 \<le> 3 then parse_loop n runs (i + 1) us s1 else Inr (us, s1))"

text \<open>The result is what \<open>read_fifo\<close> returns, with the tokens that are left; \<open>junk\<close> and \<open>sz\<close> are for a
  resize.\<close>

definition read_fifo ::
  "(nat \<Rightarrow> run_env) \<Rightarrow> (nat \<Rightarrow> nat \<Rightarrow> char) \<Rightarrow> int \<times> int \<Rightarrow> token list \<Rightarrow> client \<Rightarrow> (int \<times> token list \<times> client) res"
where
  "read_fifo runs junk sz ts s =
     rbind (parse_loop 4 runs 0 ts (s\<lparr>yacc_eof := 0\<rparr>)) (\<lambda>(us, s1).
       if yacc_eof s1 \<noteq> 0 then Inr (-1, us, say (Stderr (''diald-top: end of file on monitor pipe'' @ [LF])) s1)
       else
         rbind (if resize_event_p s1 \<noteq> 0
                then rbind (do_screen_resize junk sz s1) (\<lambda>s2. Inr (s2\<lparr>resize_event_p := 0\<rparr>)) else Inr s1)
           (\<lambda>s3. rbind (do_state (curr_state s3) s3) (\<lambda>s4.
              rbind (show_packets s4) (\<lambda>s5. Inr (1, us, s5)))))"

section \<open>diald-top.c\<close>

text \<open>What a turn of the main loop meets.\<close>

record turn =
  t_select :: int
  t_error :: bool
  t_winch :: bool
  t_key :: "(char \<times> string) option"
  t_fifo :: "(nat \<Rightarrow> run_env) option"
  t_junk :: "nat \<Rightarrow> nat \<Rightarrow> char"
  t_size :: "int \<times> int"

text \<open>The handler of SIGWINCH.\<close>

definition handlesig_winch :: "client \<Rightarrow> client" where
  [simp]: "handlesig_winch s = s\<lparr>resize_event_p := 1\<rparr>"

text \<open>A turn; the result says whether the loop is left by \<open>break\<close>, and which tokens of the FIFO are left.  A
  window change signal interrupts \<open>select\<close>.\<close>

definition client_turn :: "turn \<Rightarrow> token list \<Rightarrow> client \<Rightarrow> (bool \<times> token list \<times> client) res" where
  "client_turn e ts s0 =
     (let s = (if t_winch e then handlesig_winch s0 else s0) in
      if t_select e = -1 then Inr (False, ts, s)
      else if t_error e then Inr (False, ts, s\<lparr>quit := 1\<rparr>)
      else
        rbind (case t_key e of None \<Rightarrow> Inr s | Some (key, typed) \<Rightarrow> parse_keyboard key typed s) (\<lambda>s1.
          case t_fifo e of None \<Rightarrow> Inr (False, ts, s1)
          | Some runs \<Rightarrow>
              rbind (read_fifo runs (t_junk e) (t_size e) ts s1) (\<lambda>(ret, us, s2).
                if ret = -1 then Inr (True, us, s2)
                else if ret = 1 then Inr (False, us, update_screen s2) else Inr (False, us, s2))))"

text \<open>The loop over the turns the outside provides; \<open>ts\<close> are the tokens of all that is written into the
  FIFO while it runs.\<close>

fun main_loop :: "turn list \<Rightarrow> token list \<Rightarrow> client \<Rightarrow> client res" where
  "main_loop [] ts s = Inr s"
| "main_loop (e # es) ts s =
     (if quit s \<noteq> 0 then Inr s
      else rbind (client_turn e ts s) (\<lambda>(stop, us, s1). if stop then Inr s1 else main_loop es us s1))"

section \<open>What is shown\<close>

text \<open>What \<open>do_state\<close> prints.\<close>

definition state_lines :: "string \<Rightarrow> client \<Rightarrow> client_event list" where
  "state_lines w s =
     (let line = ''   Packets Queued:  '' @ show_int (count s) @ ''   '' in
      [ClrToEol LINE_STATE, Print Full LINE_STATE 0 (''Link Status:  '' @ w @ replicate 10 SP),
       Print Full LINE_STATE (half_diff (c_COLS s) (length line)) line])"

lemma do_state_result:
  assumes "length w < 230" and "0 \<le> count s" "count s < 10 ^ 9"
  shows "do_state w s = Inr (s\<lparr>curr_state := w, c_out := c_out s @ state_lines w s\<rparr>)"
proof -
  have "nat (count s) < 10 ^ Suc 8" using assms(2,3) by simp
  from length_show_nat_less [OF this] assms(2) have "length (show_int (count s)) \<le> 9" by (simp add: show_int_def)
  with assms(1) show ?thesis by (simp add: do_state_def fits_def LINELENGTH_def state_lines_def Let_def say_def)
qed

lemma do_reports_append:
  "do_reports ce n (cs @ ds) s = rbind (do_reports ce n cs s) (do_reports ce (n + length cs) ds)"
proof (induction cs arbitrary: n s)
  case (Cons c cs)
  have "do_reports ce (Suc n) (cs @ ds) = (\<lambda>s. rbind (do_reports ce (Suc n) cs s) (do_reports ce (Suc (n + length cs)) ds))"
    using Cons.IH by (intro ext) simp
  then show ?case by (simp add: rbind_assoc)
qed simp

text \<open>Each packet with what its call meets.\<close>

definition with_env :: "(nat \<Rightarrow> int \<times> packet_env) \<Rightarrow> nat \<Rightarrow> packet list \<Rightarrow> (packet_env \<times> packet) list" where
  "with_env ce n ps = zip (map (snd \<circ> ce) [n..<n + length ps]) ps"

lemma with_env_simps [simp]:
  "with_env ce n [] = []" "with_env ce n (p # ps) = (snd (ce n), p) # with_env ce (Suc n) ps"
  "length (with_env ce n ps) = length ps"
  by (simp_all add: with_env_def upt_conv_Cons del: upt_Suc)

lemma do_reports_packets: "do_reports ce n (map Do_packet ps) s = do_packets (with_env ce n ps) s"
proof (induction ps arbitrary: n s)
  case (Cons p ps)
  have "do_reports ce (Suc n) (map Do_packet ps) = do_packets (with_env ce (Suc n) ps)" using Cons.IH by (rule ext)
  then show ?case by (cases "ce n") simp
qed simp

lemma packet_ok_ttl: "packet_ok p \<Longrightarrow> length (ttl p) \<le> 8"
  by (auto simp: packet_ok_def is_time_def)

lemma with_env_ttl: "list_all packet_ok ps \<Longrightarrow> \<forall>(e, p) \<in> set (with_env ce n ps). length (ttl p) \<le> 8"
  by (induction ps arbitrary: n) (auto simp: packet_ok_ttl)

text \<open>Carrying out the calls of a queue: the first call of \<open>ce\<close> is that of \<open>do_queue\<close>, whose time counts for the
  packets, and each of the others meets a packet.\<close>

lemma do_reports_Suc: "do_reports ce (Suc n) cs s = do_reports (\<lambda>i. ce (Suc i)) n cs s"
proof (induction cs arbitrary: n s)
  case (Cons c cs)
  have "do_reports ce (Suc (Suc n)) cs = do_reports (\<lambda>i. ce (Suc i)) (Suc n) cs" using Cons.IH by (rule ext)
  then show ?case by simp
qed simp

lemma do_reports_queue:
  assumes "display_ok s" and "hosts_ok d A B s" and "fed d A (with_env ce 1 ps)" and "list_all packet_ok ps"
  shows "\<exists>s'. do_reports ce 0 (Do_queue # map Do_packet ps @ [Do_endqueue]) s = Inr s' \<and> display_ok s' \<and>
    count s' = int (length ps) \<and> same_display (say (Erase Sub) s) s' \<and>
    (\<forall>i. row_text s' i = packet_rows (with_env ce 1 ps) (s\<lparr>now := fst (ce 0)\<rparr>) (host_map B) i)"
proof -
  have q: "do_report te Do_queue u = do_queue (fst te) u" for te u by (cases te) simp
  have e: "do_report te Do_endqueue u = Inr u" for te u by (cases te) simp
  obtain s' where s': "rbind (do_queue (fst (ce 0)) s) (do_packets (with_env ce 1 ps)) = Inr s'"
      "display_ok s'" "count s' = int (length (with_env ce 1 ps))" "same_display (say (Erase Sub) s) s'"
      "\<forall>i. row_text s' i = packet_rows (with_env ce 1 ps) (s\<lparr>now := fst (ce 0)\<rparr>) (host_map B) i"
    using queue_packets_result [OF assms(1-3) with_env_ttl [OF assms(4)]] by blast
  then obtain s1 where "do_queue (fst (ce 0)) s = Inr s1" "do_packets (with_env ce 1 ps) s1 = Inr s'" by auto
  then have "do_reports ce 0 (Do_queue # map Do_packet ps @ [Do_endqueue]) s = Inr s'"
    by (simp add: q e do_reports_append do_reports_packets)
  with s' show ?thesis by (intro exI [of _ s'] conjI) simp_all
qed

text \<open>A turn of the loop around the parser.\<close>

lemma parse_loop_blocked:
  assumes "monitor_parse (run_parse_env (runs i) s) ts = (Blocked, cs, us)" and "do_reports (r_calls (runs i)) 0 cs s = Inr s'"
  shows "parse_loop (Suc n) runs i ts s = Inr (us, s')"
  using assms by (simp add: yyparse_def)

lemma parse_loop_accepted:
  assumes "monitor_parse (run_parse_env (runs i) s) ts = (Accepted, cs, vs)" and "do_reports (r_calls (runs i)) 0 cs s = Inr s'"
    and "i < 3"
  shows "parse_loop (Suc n) runs i ts s = parse_loop n runs (Suc i) vs s'"
  using assms by (simp add: yyparse_def)

lemma parse_loop_pause: "parse_loop (Suc n) runs i (T_WOULDBLOCK # us) s = Inr (us, s)"
  by (rule parse_loop_blocked [where cs = "[]"]) (simp_all add: monitor_parse_def)

text \<open>What the calls for a queue behind a state report meet: they are made by the first run of the parser, or by the
  second when a key waits behind the state report.\<close>

definition queue_calls :: "(nat \<Rightarrow> run_env) \<Rightarrow> string \<Rightarrow> nat \<Rightarrow> int \<times> packet_env" where
  "queue_calls runs w =
     (if lex_testkey (r_ready (runs 0) [Do_state w]) = 0 then (\<lambda>i. r_calls (runs 0) (Suc i)) else r_calls (runs 1))"

lemma parse_loop_state_queue:
  assumes "list_all packet_ok ps" "is_word w" and st: "\<And>te. do_report te (Do_state w) s = Inr s1"
    and q: "do_reports (queue_calls runs w) 0 (Do_queue # map Do_packet ps @ [Do_endqueue]) s1 = Inr u"
  shows "parse_loop 4 runs 0 (concat (map block_tokens [Report (Do_state w), Queued ps]) @ T_WOULDBLOCK # us) s = Inr (us, u)"
proof -
  let ?q = "Do_queue # map Do_packet ps @ [Do_endqueue]" and ?key = "\<lambda>i cs. lex_testkey (r_ready (runs i) cs) \<noteq> 0"
  let ?qs = "block_tokens (Queued ps) @ T_WOULDBLOCK # us"
  have ok: "block_ok (Report (Do_state w))" "block_ok (Queued ps)" using assms(1,2) by simp_all
  have key: "pe_key (run_parse_env (runs i) u) cs = ?key i cs" for i u cs by (simp add: run_parse_env_def)
  have queue: "yyloop (run_parse_env (runs i) u) Top es cs ?qs =
      (if ?key i (cs @ ?q) then Accepted else Blocked, cs @ ?q, if ?key i (cs @ ?q) then T_WOULDBLOCK # us else us)" for i u es cs
    using parse_block_key [OF ok(2), of "run_parse_env (runs i) u" es cs "T_WOULDBLOCK # us"] by (simp add: key)
  have state: "monitor_parse (run_parse_env (runs i) u) (block_tokens (Report (Do_state w)) @ ?qs) =
      (if ?key i [Do_state w] then (Accepted, [Do_state w], ?qs) else
        (if ?key i (Do_state w # ?q) then Accepted else Blocked, Do_state w # ?q,
         if ?key i (Do_state w # ?q) then T_WOULDBLOCK # us else us))" for i u
    using parse_block_key [OF ok(1), of "run_parse_env (runs i) u" 0 "[]" ?qs] queue [of i u _ "[Do_state w]"]
    by (simp add: monitor_parse_def key del: block_tokens.simps)
  show ?thesis
  proof (cases "?key 0 [Do_state w]")
    case False
    then have "do_reports (r_calls (runs 0)) 0 (Do_state w # ?q) s = Inr u"
      using q by (simp add: st do_reports_Suc queue_calls_def del: append.simps)
    with False state [of 0 s] parse_loop_pause show ?thesis
      by (cases "?key 0 (Do_state w # ?q)")
        (simp_all add: numeral_eq_Suc parse_loop_accepted parse_loop_blocked del: block_tokens.simps parse_loop.simps append_Cons)
  next
    case True
    have "parse_loop 4 runs 0 (block_tokens (Report (Do_state w)) @ ?qs) s = parse_loop 3 runs 1 ?qs s1"
      using True state [of 0 s] by (simp add: numeral_eq_Suc parse_loop_accepted [where s' = s1] st del: block_tokens.simps parse_loop.simps)
    also have "do_reports (r_calls (runs 1)) 0 ?q s1 = Inr u" using q True by (simp add: queue_calls_def)
    then have "parse_loop 3 runs 1 ?qs s1 = Inr (us, u)"
      using queue [of 1 s1 0 "[]"] parse_loop_pause
      by (cases "?key 1 ?q") (simp_all add: numeral_eq_Suc monitor_parse_def parse_loop_accepted parse_loop_blocked
          del: block_tokens.simps parse_loop.simps)
    finally show ?thesis by simp
  qed
qed

text \<open>From the FIFO to the screen.  When diald writes a state report and a list of packets and then
  pauses, the client reads them, remembers the state and shows it with the number of packets, and
  shows the packets one to a row in the order they were written, as far as there is room.\<close>

lemma reports_shown:
  fixes w d and runs :: "nat \<Rightarrow> run_env" and ps :: "packet list" and B :: "nat \<Rightarrow> bucket"
  defines "eps \<equiv> with_env (queue_calls runs w) 1 ps" and "tm \<equiv> fst (queue_calls runs w 0)"
  assumes "display_ok s" and "resize_event_p s = 0" and "count s < 10 ^ 9"
    and cache: "cache_ok s B" "mydomain s \<in> {[], d}" "fed d (dom (hheap s)) eps"
    and "list_all packet_ok ps" "ps \<noteq> []" "length ps < 10 ^ 9" and "is_word w" "length w < 230"
    and chunks: "concat ws = reports_text [Report (Do_state w), Queued ps]" "[] \<notin> set ws"
    and "lex_input INITIAL ins = Some us"
  shows "\<exists>ts s' es. lex_input INITIAL (arrive ws @ pause # ins) = Some ts \<and>
    read_fifo runs junk sz ts s = Inr (1, us, s') \<and> curr_state s' = w \<and>
    c_out s' = es @ state_lines w (s\<lparr>count := int (length ps)\<rparr>) @ Erase Sub #
      map (\<lambda>i. Print Sub (int i) 0 (packet_rows eps (s\<lparr>curr_state := w, now := tm\<rparr>) (host_map B) i))
        [0..<min (nat (numbuff s)) (length ps)]"
proof -
  let ?bs = "[Report (Do_state w), Queued ps]" and ?ce = "queue_calls runs w" and ?s = "s\<lparr>yacc_eof := 0\<rparr>"
  let ?ts = "concat (map block_tokens ?bs) @ T_WOULDBLOCK # us"
  let ?s1 = "?s\<lparr>curr_state := w, c_out := c_out ?s @ state_lines w ?s\<rparr>"
  have lex: "lex_input INITIAL (arrive ws @ pause # ins) = Some ?ts"
    using assms(9,12,16) by (intro lex_input_reports [OF _ chunks]) simp_all
  have cnt: "0 \<le> count s" using assms(3) by (simp add: display_ok_def)
  have st: "do_report te (Do_state w) ?s = Inr ?s1" for te
    using do_state_result [OF assms(13), of ?s] assms(5) cnt by (cases te) simp
  have "rows_ok ?s1 = rows_ok s" by (rule rows_ok_cong) simp_all
  with assms(3) have ok: "display_ok ?s1" by (simp add: display_ok_def)
  have h: "hosts_ok d (dom (hheap s)) B ?s1" using cache(1,2) by (simp add: hosts_ok_def cache_ok_def)
  obtain u where u: "do_reports ?ce 0 (Do_queue # map Do_packet ps @ [Do_endqueue]) ?s1 = Inr u"
      "display_ok u" "count u = int (length ps)" "same_display (say (Erase Sub) ?s1) u"
      "\<forall>i. row_text u i = packet_rows eps (?s1\<lparr>now := tm\<rparr>) (host_map B) i"
    using do_reports_queue [OF ok h cache(3) [unfolded eps_def] assms(9)] unfolding eps_def tm_def by blast
  have f: "curr_state u = w" "yacc_eof u = 0" "resize_event_p u = 0" "c_COLS u = c_COLS s" "numbuff u = numbuff s"
    using u(4) assms(4) by (simp_all add: same_display_def)
  let ?v = "u\<lparr>curr_state := w, c_out := c_out u @ state_lines w u\<rparr>"
  have v: "do_state w u = Inr ?v" using do_state_result [OF assms(13)] u(3) assms(11) by simp
  have "rows_ok ?v = rows_ok u" by (rule rows_ok_cong) simp_all
  with u(2) have "display_ok ?v" by (simp add: display_ok_def)
  from show_packets_result [OF this] u(3) assms(10)
  have sh: "show_packets ?v = Inr (?v\<lparr>c_out := c_out ?v @ Erase Sub #
    map (\<lambda>i. Print Sub (int i) 0 (row_text ?v i)) [0..<nat (min (numbuff ?v) (count ?v))]\<rparr>)" by simp
  have "packet_lines (?s1\<lparr>now := tm\<rparr>) m eps = packet_lines (s\<lparr>curr_state := w, now := tm\<rparr>) m eps" for m
    using cache(2) fed_domain [OF cache(3)] by (intro packet_lines_cong [where d = d]) (simp_all add: resolve_view_def)
  then have rows: "row_text ?v i = packet_rows eps (s\<lparr>curr_state := w, now := tm\<rparr>) (host_map B) i" for i
    using u(5) by (simp add: row_text_def packet_rows_def)
  have "parse_loop 4 runs 0 ?ts ?s = Inr (us, u)"
    by (rule parse_loop_state_queue [OF assms(9,12) st u(1)])
  then have "read_fifo runs junk sz ?ts s = Inr (1, us, ?v\<lparr>c_out := c_out ?v @ Erase Sub #
    map (\<lambda>i. Print Sub (int i) 0 (row_text ?v i)) [0..<nat (min (numbuff ?v) (count ?v))]\<rparr>)"
    using f v sh by (simp add: read_fifo_def del: block_tokens.simps parse_loop.simps)
  moreover have "nat (min (numbuff ?v) (count ?v)) = min (nat (numbuff s)) (length ps)" using f(5) u(3) by auto
  moreover have "state_lines w u = state_lines w (s\<lparr>count := int (length ps)\<rparr>)"
    using u(3) f(4) by (simp add: state_lines_def)
  ultimately show ?thesis using lex rows by (intro exI [of _ ?ts] exI [of _ "?v\<lparr>c_out := _\<rparr>"] exI [of _ "c_out u"]) simp
qed

definition ex_run_env :: run_env where
  "ex_run_env = \<lparr>r_parse = ex_parse_env, r_calls = (\<lambda>_. (0, ex_packet_env)), r_ready = (\<lambda>_. 0)\<rparr>"

lemma ex_packet_ok: "packet_ok ex_packet"
proof -
  have "inet_pton ''10.0.0.1'' = Some 16777226" "inet_pton ''192.168.0.7'' = Some 117483712"
    by (simp only: inet_pton_iff, code_simp)+
  then show ?thesis
    by (simp add: ex_packet_def packet_ok_def is_ip_def is_num_def is_word_def is_time_def nondigit_def noslash_def is_digit_def)
qed

section \<open>What is sent\<close>

text \<open>What a turn does: nothing but note a signal or an error, handle a key, or handle a key and read the
  FIFO.\<close>

definition noted :: "turn \<Rightarrow> client \<Rightarrow> client" where
  "noted e s = (if t_winch e then handlesig_winch s else s)"

definition key_step :: "turn \<Rightarrow> client \<Rightarrow> client res" where
  "key_step e s = (case t_key e of None \<Rightarrow> Inr s | Some (key, typed) \<Rightarrow> parse_keyboard key typed s)"

lemma client_turn_eq:
  "client_turn e ts s =
     (if t_select e = -1 then Inr (False, ts, noted e s)
      else if t_error e then Inr (False, ts, (noted e s)\<lparr>quit := 1\<rparr>)
      else rbind (key_step e (noted e s)) (\<lambda>s1.
        case t_fifo e of None \<Rightarrow> Inr (False, ts, s1)
        | Some runs \<Rightarrow> rbind (read_fifo runs (t_junk e) (t_size e) ts s1) (\<lambda>(ret, us, s2).
            if ret = -1 then Inr (True, us, s2)
            else if ret = 1 then Inr (False, us, update_screen s2) else Inr (False, us, s2))))"
  by (simp add: client_turn_def noted_def key_step_def Let_def)

lemma client_turn_cases:
  assumes "client_turn e ts s = Inr (stop, us, s')"
  obtains (idle) "s' = noted e s" | (error) "s' = (noted e s)\<lparr>quit := 1\<rparr>" | (key) "key_step e (noted e s) = Inr s'"
    | (read) s1 runs ret s2 where "key_step e (noted e s) = Inr s1"
        "read_fifo runs (t_junk e) (t_size e) ts s1 = Inr (ret, us, s2)" "s' = s2 \<or> s' = update_screen s2"
proof -
  from assms consider "s' = noted e s" | "s' = (noted e s)\<lparr>quit := 1\<rparr>"
    | s1 where "key_step e (noted e s) = Inr s1"
        "(case t_fifo e of None \<Rightarrow> Inr (False, ts, s1)
          | Some runs \<Rightarrow>
              rbind (read_fifo runs (t_junk e) (t_size e) ts s1) (\<lambda>(ret, us, s2).
                if ret = -1 then Inr (True, us, s2)
                else if ret = 1 then Inr (False, us, update_screen s2) else Inr (False, us, s2))) = Inr (stop, us, s')"
    unfolding client_turn_eq by (auto split: if_splits)
  then show thesis
  proof cases
    case (3 s1)
    then show thesis
    proof (cases "t_fifo e")
      case None
      with 3 key show thesis by simp
    next
      case (Some runs)
      with 3(2) obtain ret s2 where "read_fifo runs (t_junk e) (t_size e) ts s1 = Inr (ret, us, s2)"
          "s' = s2 \<or> s' = update_screen s2" by (auto split: if_splits)
      with read [OF 3(1)] show thesis by blast
    qed
  qed (use idle error in simp_all)
qed

text \<open>Reading and showing reports changes no view that depends neither on what is shown nor on the
  variables of the reports; the lines sent are such a view.\<close>

context kept_rows
begin

lemma do_report_kept: "do_report te c s = Inr s' \<Longrightarrow> f s' = f s"
  by (cases te; cases c) (auto simp: do_load_kept do_message_kept do_queue_kept
      dest: do_state_kept do_interface_kept do_queue_kept do_packet_kept)

lemma do_reports_kept: "do_reports ce n cs s = Inr s' \<Longrightarrow> f s' = f s"
  by (induction cs arbitrary: n s) (auto dest!: do_report_kept)

lemma yyparse_kept: "yyparse r ts s = Inr (b, us, s') \<Longrightarrow> f s' = f s"
  by (auto simp: yyparse_def flags dest!: do_reports_kept split: prod.splits if_splits)

lemma parse_loop_kept: "parse_loop n runs i ts s = Inr (us, s') \<Longrightarrow> f s' = f s"
proof (induction n arbitrary: i ts s)
  case (Suc n)
  from Suc.prems obtain b vs s1 where s1: "yyparse (runs i) ts s = Inr (b, vs, s1)"
      "(if \<not> b \<and> i + 1 \<le> 3 then parse_loop n runs (i + 1) vs s1 else Inr (vs, s1)) = Inr (us, s')"
    by auto
  with yyparse_kept [OF s1(1)] Suc.IH [of "i + 1" vs s1] show ?case by (auto split: if_splits)
qed simp

lemma read_fifo_kept: "read_fifo runs junk sz ts s = Inr (ret, us, s') \<Longrightarrow> f s' = f s"
  by (auto simp: read_fifo_def say flags
      dest!: parse_loop_kept do_screen_resize_kept do_state_kept show_packets_kept split: if_splits)

end

text \<open>A view that does not depend on what is sent either is the same after any turn.\<close>

context quiet
begin

lemma noted_kept: "f (noted e s) = f s"
  by (simp add: noted_def flags)

end

context kept_keys
begin

lemma key_step_kept: "key_step e s = Inr s' \<Longrightarrow> f s' = f s"
  by (auto simp: key_step_def dest: parse_keyboard_kept split: option.splits)

end

locale kept_all = kept_rows + kept_keys
begin

lemma client_turn_kept:
  assumes "client_turn e ts s = Inr (stop, us, s')"
  shows "f s' = f s"
  using assms
proof (cases rule: client_turn_cases)
  case (read s1 runs ret s2)
  then show ?thesis using key_step_kept read_fifo_kept noted_kept update_screen_kept by metis
qed (use key_step_kept noted_kept in \<open>auto simp: flags\<close>)

lemma main_loop_kept: "main_loop es ts s = Inr s' \<Longrightarrow> f s' = f s"
  by (induction es arbitrary: ts s) (auto dest!: client_turn_kept split: if_splits)

end

interpretation st: kept_all settings
  by unfold_locales

lemma key_step_sent:
  assumes "key_step e s = Inr s'"
  shows "\<exists>cs. sent (c_out s') = sent (c_out s) @ map (\<lambda>c. c @ [LF]) cs \<and> set cs \<subseteq> set cmd"
proof (cases "t_key e")
  case None
  with assms show ?thesis by (intro exI [of _ "[]"]) (simp add: key_step_def)
next
  case (Some k)
  then have "parse_keyboard (fst k) (snd k) s = Inr s'" using assms by (simp add: key_step_def case_prod_beta)
  from parse_keyboard_sent [OF this] consider "sent (c_out s') = sent (c_out s)"
    | c where "c \<in> set cmd" "sent (c_out s') = sent (c_out s) @ [c @ [LF]]"
    by (auto simp only: list_ex_iff)
  then show ?thesis
  proof cases
    case 1
    then show ?thesis by (intro exI [of _ "[]"]) simp
  next
    case (2 c)
    then show ?thesis by (intro exI [of _ "[c]"]) simp
  qed
qed

lemma client_turn_sent:
  assumes "client_turn e ts s = Inr (stop, us, s')"
  shows "\<exists>cs. sent (c_out s') = sent (c_out s) @ map (\<lambda>c. c @ [LF]) cs \<and> set cs \<subseteq> set cmd"
  using assms
proof (cases rule: client_turn_cases)
  case key
  then show ?thesis using key_step_sent [OF key] by (simp add: sn.noted_kept)
next
  case (read s1 runs ret s2)
  then have "sent (c_out s') = sent (c_out s1)" using sn.read_fifo_kept [OF read(2)] sn.update_screen_kept by auto
  then show ?thesis using key_step_sent [OF read(1)] by (simp add: sn.noted_kept)
qed (intro exI [of _ "[]"], simp add: sn.noted_kept sn.flags)+

lemma main_loop_sent:
  assumes "main_loop es ts s = Inr s'"
  shows "\<exists>cs. sent (c_out s') = sent (c_out s) @ map (\<lambda>c. c @ [LF]) cs \<and> set cs \<subseteq> set cmd"
  using assms
proof (induction es arbitrary: ts s)
  case Nil
  then show ?case by (intro exI [of _ "[]"]) simp
next
  case (Cons e es)
  show ?case
  proof (cases "quit s \<noteq> 0")
    case True
    with Cons.prems show ?thesis by (intro exI [of _ "[]"]) simp
  next
    case False
    with Cons.prems obtain stop us s1 where s1: "client_turn e ts s = Inr (stop, us, s1)"
        "(if stop then Inr s1 else main_loop es us s1) = Inr s'"
      by auto
    obtain cs where cs: "sent (c_out s1) = sent (c_out s) @ map (\<lambda>c. c @ [LF]) cs" "set cs \<subseteq> set cmd"
      using client_turn_sent [OF s1(1)] by blast
    show ?thesis
    proof (cases stop)
      case True
      with s1(2) cs show ?thesis by auto
    next
      case False
      with s1(2) Cons.IH [of us s1] obtain ds where
        "sent (c_out s') = sent (c_out s1) @ map (\<lambda>c. c @ [LF]) ds" "set ds \<subseteq> set cmd" by auto
      with cs show ?thesis by (intro exI [of _ "cs @ ds"]) auto
    qed
  qed
qed

definition ex_turn :: turn where
  "ex_turn = \<lparr>t_select = 1, t_error = False, t_winch = False, t_key = Some (CHR ''c'', ''DOWN''), t_fifo = None,
     t_junk = (\<lambda>_ _. NUL), t_size = (24, 80)\<rparr>"

section \<open>Starting and resizing\<close>

text \<open>Opening the connection fixes the width of the addresses and counts from 0.\<close>

lemma init_fifo_display:
  assumes "init_fifo e s = Inr s'"
  shows "scrbuff s' = scrbuff s" "numbuff s' = numbuff s" "cols s' = cols s" "c_LINES s' = c_LINES s" "c_COLS s' = c_COLS s"
    "curr_state s' = curr_state s" "format_width s' = ip_width s" "count s' = 0" "cache_of s' = cache_of s"
  using assms by (auto simp: cache_of_def init_fifo_def connect_remote_def open_local_def fifo_command_def Let_def split: if_splits)

text \<open>When the client has set up its screen, of 36 to 512 columns and up to 264 lines, and opened its
  connection, the widths fit: every packet report with times of eight characters can be shown.\<close>

lemma start_display_ok:
  assumes "\<forall>i. scrbuff s i = None" and "0 \<le> l" "l \<le> 264" and "36 \<le> c" "c \<le> 512"
    and "init_fifo e (screen_init junk (l, c) s) = Inr s'"
  shows "display_ok s'"
proof -
  let ?t = "screen_init junk (l, c) s"
  note i = screen_init_result [OF assms(1,2), of c junk]
  have sd: "(c - 36) sdiv 2 = (c - 36) div 2" using assms(4) by (cases "c = 36") (simp_all add: signed_divide_int_def)
  note keep = init_fifo_display [OF assms(6)]
  have "rows_ok s'" using i(1) assms(4) keep rows_ok_cong [of s' ?t] by simp
  then show ?thesis using assms i keep sd by (intro display_ok_after_init) simp_all
qed

definition ex_fifo_env :: fifo_env where
  "ex_fifo_env = \<lparr>f_socket = 3, f_bound = True, f_connected = True, f_dup = 4, f_control = 4, f_monitor = 3,
     f_select = 1, f_fdopen = True\<rparr>"

lemma start_display_ok_witness:
  "\<exists>s'. init_fifo ex_fifo_env (screen_init (\<lambda>_ _. NUL) (24, 80) (ex_client\<lparr>scrbuff := (\<lambda>_. None)\<rparr>)) = Inr s' \<and> display_ok s'"
proof -
  let ?t = "screen_init (\<lambda>_ _. NUL) (24, 80) (ex_client\<lparr>scrbuff := (\<lambda>_. None)\<rparr>)"
  have "is_ok (init_fifo ex_fifo_env ?t)" by code_simp
  then obtain s' where s': "init_fifo ex_fifo_env ?t = Inr s'" by (auto simp: is_ok_iff)
  moreover have "display_ok s'" by (rule start_display_ok [OF _ _ _ _ _ s']) simp_all
  ultimately show ?thesis by blast
qed

text \<open>A resize forgets the link state.  The screen is set up anew, which empties \<open>curr_state\<close>, and the
  empty state is shown; until diald reports the next change the client believes that the link is not
  up and resolves no names.\<close>

lemma resize_forgets_state:
  assumes "parse_loop 4 runs 0 ts (s\<lparr>yacc_eof := 0\<rparr>) = Inr (us, s1)" and "yacc_eof s1 = 0" "resize_event_p s1 \<noteq> 0"
    and "rows_ok s1" "numbuff s1 < MAXBUFS" and "0 \<le> l" "0 \<le> c" and "length (show_int (count s1)) \<le> 12"
  shows "\<exists>s'. read_fifo runs junk (l, c) ts s = Inr (1, us, s') \<and> curr_state s' = [] \<and> \<not> may_query s'"
proof -
  obtain s0 where s0: "do_screen_resize junk (l, c) s1 = Inr (screen_init junk (l, c) s0)" "\<forall>i. scrbuff s0 i = None"
      "no_rows s0 = no_rows (say Reinit s1)"
    using do_screen_resize_init [OF assms(4,5)] by blast
  let ?t = "(screen_init junk (l, c) s0)\<lparr>resize_event_p := 0\<rparr>"
  note i = screen_init_result [OF s0(2) assms(6,7), of junk]
  have cnt: "count ?t = count s1" using i(8) no_rows_fields(5) [OF s0(3)] by simp
  obtain u where u: "do_state (curr_state ?t) ?t = Inr u" "curr_state u = []" "scrbuff u = scrbuff ?t"
      "numbuff u = numbuff ?t" "cols u = cols ?t"
    using i(11) cnt assms(8) by (auto simp: do_state_def fits_def LINELENGTH_def Let_def)
  have "rows_ok u" using i(1) u rows_ok_cong [of u "screen_init junk (l, c) s0"] by simp
  from show_packets_total [OF this] u(2) obtain v where v: "show_packets u = Inr v" "curr_state v = []" by auto
  have "read_fifo runs junk (l, c) ts s = Inr (1, us, v)"
    using assms(1-3) s0(1) u(1) v(1) by (simp add: read_fifo_def)
  with v(2) show ?thesis by (simp add: may_query_def split: prod.splits)
qed

lemma resize_forgets_state_witness:
  "\<exists>s'. read_fifo (\<lambda>_. ex_run_env) (\<lambda>_ _. NUL) (30, 100) [T_WOULDBLOCK] (ex_client\<lparr>resize_event_p := 1\<rparr>) =
    Inr (1, [], s') \<and> curr_state s' = [] \<and> \<not> may_query s'"
proof (rule resize_forgets_state)
  let ?s = "ex_client\<lparr>resize_event_p := 1, yacc_eof := 0\<rparr>"
  show "parse_loop 4 (\<lambda>_. ex_run_env) 0 [T_WOULDBLOCK] (ex_client\<lparr>resize_event_p := 1, yacc_eof := 0\<rparr>) = Inr ([], ?s)"
    by (simp add: numeral_eq_Suc yyparse_def monitor_parse_def)
  show "rows_ok ?s" using ex_rows_ok rows_ok_cong [of ?s ex_client] by simp
  show "length (show_int (count ?s)) \<le> 12" by code_simp
qed (simp_all add: ex_client_def MAXBUFS_def)

end
