(* ===== verification/ClientProgram.thy ===== *)
theory ClientProgram
  imports ClientMain
begin

text \<open>
  The whole run of the client (\<open>main\<close> of \<open>client/diald-top.c\<close>): set-up, main loop, signals and the exit
  handlers.  The lemmas show what a run says to diald and how it leaves the system, and that the row
  buffers fit the screen throughout.
\<close>

section \<open>main\<close>

definition handlesig :: "int \<Rightarrow> client \<Rightarrow> client" where
  "handlesig signum s = say (Stderr (''Received signal '' @ show_int signum @ '' - aborting'' @ [LF, LF])) s"

text \<open>What a run meets: the command line, the screen, the connection, the turns of the main loop and the
  input, and the signal that ends the program where the turns end.  The input is given as the tokens that the
  scanner returns for it, a finite list: it is one for which \<open>lex_input\<close> has a value.  A run in which the scanner
  never comes to the end of the characters (behind an empty message, see \<open>MonitorLex\<close>) is no
  run of this function.\<close>

record program_env =
  pr_tmp :: string
  pr_control_fifo :: string
  pr_log_ok :: bool
  pr_options :: "(char \<times> string) list"
  pr_junk :: "nat \<Rightarrow> nat \<Rightarrow> char"
  pr_size :: "int \<times> int"
  pr_fifo :: fifo_env
  pr_turns :: "turn list"
  pr_tokens :: "token list"
  pr_signal :: int

text \<open>The functions given to \<open>atexit\<close> run in the reverse order, behind the end of \<open>main\<close> as well as in
  the \<open>exit\<close> of \<open>handlesig\<close>.\<close>

definition client_main :: "program_env \<Rightarrow> client \<Rightarrow> client res" where
  "client_main p s =
     rbind (read_command_line (pr_tmp p) (pr_control_fifo p) (pr_log_ok p) (pr_options p) s) (\<lambda>s1.
     let s2 = screen_init (pr_junk p) (pr_size p) s1 in
     rbind (init_fifo (pr_fifo p) s2) (\<lambda>s3.
     rbind (main_loop (pr_turns p) (pr_tokens p) (s3\<lparr>quit := 0\<rparr>)) (\<lambda>s4.
     let s5 = (if quit s4 \<noteq> 0 \<or> yacc_eof s4 \<noteq> 0 then s4 else handlesig (pr_signal p) s4)
     in Inr (close_screen (close_fifo s5)))))"

section \<open>A run as a conversation\<close>

lemma read_options_kept:
  "read_options log_ok os s = Inr s' \<Longrightarrow> c_monitor s' = c_monitor s \<and> c_out s' = c_out s \<and> rows_of s' = rows_of s \<and> cache_of s' = cache_of s"
  by (induction log_ok os s rule: read_options.induct) (auto simp: rows_of_def cache_of_def split: if_splits)

text \<open>The line that asks for reports.\<close>

definition monitor_request :: "client \<Rightarrow> string" where
  "monitor_request s = (if remotemode s \<noteq> 0 then ''monitor on'' else ''monitor '' @ c_monitor s)"

lemma init_fifo_kept:
  assumes "init_fifo e s = Inr s'"
  shows "c_monitor s' = c_monitor s" "remotemode s' = remotemode s" "rows_of s' = rows_of s"
    "sent (c_out s') = sent (c_out s) @ [monitor_request s @ [LF]]"
  using assms
  by (auto simp: init_fifo_def connect_remote_def open_local_def fifo_command_def Let_def rows_of_def
      monitor_request_def say_def fits_def split: if_splits)

lemma monitor_request_settings: "settings s' = settings s \<Longrightarrow> monitor_request s' = monitor_request s"
  by (simp add: settings_def monitor_request_def)

text \<open>The three parts of a run that ends.\<close>

lemma client_main_parts:
  assumes "client_main p s = Inr s'"
  obtains s1 s3 s4 s5 where
    "read_command_line (pr_tmp p) (pr_control_fifo p) (pr_log_ok p) (pr_options p) s = Inr s1"
    "init_fifo (pr_fifo p) (screen_init (pr_junk p) (pr_size p) s1) = Inr s3"
    "main_loop (pr_turns p) (pr_tokens p) (s3\<lparr>quit := 0\<rparr>) = Inr s4"
    "s5 = s4 \<or> s5 = handlesig (pr_signal p) s4" "s' = close_screen (close_fifo s5)"
  using assms by (auto simp: client_main_def Let_def split: if_splits)

text \<open>The conversation of a run, from what its main loop keeps and sends.\<close>

lemma run_conversation:
  assumes "read_command_line (pr_tmp p) (pr_control_fifo p) (pr_log_ok p) (pr_options p) s = Inr s1"
    and "init_fifo (pr_fifo p) (screen_init (pr_junk p) (pr_size p) s1) = Inr s3" and "c_out s = []"
    and s4: "settings s4 = settings s3" "sent (c_out s4) = sent (c_out s3) @ map (\<lambda>c. c @ [LF]) cs" "set cs \<subseteq> set cmd"
    and "s5 = s4 \<or> s5 = handlesig (pr_signal p) s4" and "s' = close_screen (close_fifo s5)"
  shows "sent (c_out s') = (monitor_request s' @ [LF]) # map (\<lambda>c. c @ [LF]) cs \<and> set cs \<subseteq> set cmd \<and>
    c_monitor s' = pr_tmp p \<and>
    c_out s' = c_out s5 @ [CloseFd (c_controlfd s'), CloseFd (c_monitorfd s'), RemoveFifo (pr_tmp p), EndWin]"
proof -
  let ?s2 = "screen_init (pr_junk p) (pr_size p) s1"
  have s1: "c_monitor s1 = pr_tmp p" "c_out s1 = []"
    using read_options_kept [OF assms(1) [unfolded read_command_line_def]] assms(3) by simp_all
  have s2: "settings ?s2 = settings s1" "sent (c_out ?s2) = []"
    using st.screen_init_kept sn.screen_init_kept s1(2) by simp_all
  note s3 = init_fifo_kept [OF assms(2)]
  have s5: "settings s5 = settings s4" "sent (c_out s5) = sent (c_out s4)"
    using assms(7) by (auto simp: handlesig_def st.say)
  have fds: "c_controlfd (say ev u) = c_controlfd u" "c_monitorfd (say ev u) = c_monitorfd u" "c_monitor (say ev u) = c_monitor u"
    for ev u by (simp_all add: say_def)
  have s': "settings s' = settings s5"
    "c_out s' = c_out s5 @ [CloseFd (c_controlfd s5), CloseFd (c_monitorfd s5), RemoveFifo (c_monitor s5), EndWin]"
    by (simp_all add: assms(8) close_screen_def close_fifo_def st.say fds)
  have "monitor_request s' = monitor_request s3" using s' s5 s4 by (intro monitor_request_settings) simp
  also have "\<dots> = monitor_request ?s2" using s3(1,2) by (simp add: monitor_request_def)
  finally have "sent (c_out s') = (monitor_request s' @ [LF]) # map (\<lambda>c. c @ [LF]) cs"
    using s'(2) s5(2) s4(2) s3(4) s2(2) by simp
  moreover have "c_monitor s' = c_monitor s5" "c_monitor s5 = pr_tmp p" "c_controlfd s' = c_controlfd s5"
    "c_monitorfd s' = c_monitorfd s5"
    using s'(1) s5(1) s4 s3(1) s2(1) s1(1) by (simp_all add: settings_def)
  ultimately show ?thesis using s4(3) s'(2) by simp
qed

text \<open>A run in which the user takes the link down, on the example screen.\<close>

definition ex_program :: program_env where
  "ex_program = \<lparr>pr_tmp = ''/tmp/m'', pr_control_fifo = ''/etc/diald/diald.ctl'', pr_log_ok = True, pr_options = [(CHR ''n'', '''')],
     pr_junk = (\<lambda>_ _. NUL), pr_size = (24, 80), pr_fifo = ex_fifo_env, pr_turns = [ex_turn], pr_tokens = [], pr_signal = 15\<rparr>"

definition ex_globals :: client where
  "ex_globals = ex_client\<lparr>scrbuff := (\<lambda>_. None)\<rparr>"

lemma ex_turn_runs: "quit s = 0 \<Longrightarrow> \<exists>s'. main_loop [ex_turn] [] s = Inr s'"
  by (simp add: ex_turn_def client_turn_def parse_keyboard_def get_command_def fits_def LINELENGTH_def)

lemma ex_program_runs: "\<exists>s'. client_main ex_program ex_globals = Inr s'"
proof -
  let ?s1 = "ex_globals\<lparr>c_monitor := ''/tmp/m'', c_control := ''/etc/diald/diald.ctl'', numeric := 1, remotemode := 0\<rparr>"
  let ?s2 = "screen_init (\<lambda>_ _. NUL) (24, 80) ?s1"
  have 1: "read_command_line (pr_tmp ex_program) (pr_control_fifo ex_program) (pr_log_ok ex_program) (pr_options ex_program) ex_globals = Inr ?s1"
    by (simp add: read_command_line_def ex_program_def ex_globals_def ex_client_def)
  have "remotemode ?s2 = 0" "c_monitor ?s2 = ''/tmp/m''"
    using st.screen_init_kept [of "\<lambda>_ _. NUL" "(24, 80)" ?s1] by (simp_all add: settings_def)
  then obtain s3 where "init_fifo ex_fifo_env ?s2 = Inr s3"
    by (auto simp: init_fifo_def open_local_def ex_fifo_env_def fifo_command_def fits_def LINELENGTH_def Let_def say_def)
  moreover obtain s4 where "main_loop [ex_turn] [] (s3\<lparr>quit := 0\<rparr>) = Inr s4" using ex_turn_runs [of "s3\<lparr>quit := 0\<rparr>"] by auto
  ultimately show ?thesis using 1 by (simp add: client_main_def ex_program_def Let_def del: main_loop.simps)
qed

section \<open>The row buffers\<close>

text \<open>There is a row for each line of the screen and one more, up to the size of the array; each has room
  for a line of the screen and a NUL.\<close>

definition rows_typed :: "client \<Rightarrow> bool" where
  "rows_typed s \<longleftrightarrow> 0 \<le> c_LINES s \<and> numbuff s = min (c_LINES s + 1) MAXBUFS \<and>
     (\<forall>i. if int i < numbuff s then \<exists>b. scrbuff s i = Some b \<and> length b = nat (cols s) + 1 else scrbuff s i = None)"

lemma rows_typed_cong: "rows_of s' = rows_of s \<Longrightarrow> rows_typed s' = rows_typed s"
  by (simp add: rows_of_def rows_typed_def)

lemma rows_typed_row: "rows_typed s \<Longrightarrow> int i < numbuff s \<Longrightarrow> \<exists>b. scrbuff s i = Some b \<and> length b = nat (cols s) + 1"
  unfolding rows_typed_def by metis

lemma rows_typed_none: "rows_typed s \<Longrightarrow> numbuff s \<le> int i \<Longrightarrow> scrbuff s i = None"
  unfolding rows_typed_def by (metis not_less)

lemma rows_typedI:
  assumes "0 \<le> c_LINES s" "numbuff s = min (c_LINES s + 1) MAXBUFS"
    and "\<And>i. int i < numbuff s \<Longrightarrow> \<exists>b. scrbuff s i = Some b \<and> length b = nat (cols s) + 1"
    and "\<And>i. numbuff s \<le> int i \<Longrightarrow> scrbuff s i = None"
  shows "rows_typed s"
  unfolding rows_typed_def using assms by (metis not_less)

lemma rows_typed_screen_init:
  assumes "\<forall>i. scrbuff s i = None" and "0 \<le> l" "0 \<le> c"
  shows "rows_typed (screen_init junk (l, c) s)"
proof -
  note i = screen_init_result [OF assms, of junk]
  show ?thesis using rows_ok_row [OF i(1)] rows_ok_none [OF i(1)] i(2,4) assms(2) by (intro rows_typedI) auto
qed

lemma rows_typed_set_row:
  assumes "rows_typed s" and "get_row i s = Inr b" and "length b' = length b"
  shows "rows_typed (set_row i b' s)"
proof -
  have b: "scrbuff s (nat i) = Some b" using assms(2) by (auto simp: get_row_def split: if_splits option.splits)
  have i: "int (nat i) < numbuff s" using rows_typed_none [OF assms(1), of "nat i"] b by (cases "int (nat i) < numbuff s") auto
  have l: "length b' = nat (cols s) + 1" using rows_typed_row [OF assms(1) i] b assms(3) by simp
  show ?thesis
  proof (rule rows_typedI)
    fix j assume "int j < numbuff (set_row i b' s)"
    then show "\<exists>b. scrbuff (set_row i b' s) j = Some b \<and> length b = nat (cols (set_row i b' s)) + 1"
      using rows_typed_row [OF assms(1), of j] l by (cases "j = nat i") (simp_all add: set_row_def)
  next
    fix j assume "numbuff (set_row i b' s) \<le> int j"
    then show "scrbuff (set_row i b' s) j = None"
      using rows_typed_none [OF assms(1), of j] i by (cases "j = nat i") (simp_all add: set_row_def)
  qed (use assms(1) in \<open>simp_all add: rows_typed_def set_row_def\<close>)
qed

lemma length_strncpy: "strncpy dst src n = Inr b \<Longrightarrow> length b = length dst"
  by (auto simp: strncpy_def split: if_splits)

lemma clear_rows_typed: "rows_typed s \<Longrightarrow> clear_rows is s = Inr s' \<Longrightarrow> rows_typed s'"
proof (induction "is" arbitrary: s)
  case (Cons i "is")
  from Cons.prems(2) obtain b where b: "get_row (int i) s = Inr b" "b \<noteq> []"
      "clear_rows is (set_row (int i) (NUL # tl b) s) = Inr s'"
    by (auto split: if_splits)
  from b(2) have "length (NUL # tl b) = length b" by (cases b) simp_all
  from Cons.IH [OF rows_typed_set_row [OF Cons.prems(1) b(1) this] b(3)] show ?case .
qed simp

lemma do_packet_typed:
  assumes "rows_typed s" and "do_packet e p s = Inr s'"
  shows "rows_typed s'"
proof (cases "count s \<le> c_LINES s - HEAD_LINES")
  case False
  then have "s' = s\<lparr>count := count s + 1\<rparr>" using assms(2) by (simp add: do_packet_def)
  then show ?thesis using assms(1) rows_typed_cong [of s' s] by (simp add: rw.link)
next
  case True
  then obtain n1 s1 n2 s2 row buf b b' where
    r: "resolve (p_ghba e) (p_domain e) (p_malloc1 e) (ip1 p) s = Inr (n1, s1)"
       "resolve (p_ghba e) (p_domain e) (p_malloc2 e) (ip2 p) s1 = Inr (n2, s2)"
    and b: "get_row (count s2) s2 = Inr b" "strncpy b buf (nat (cols s2)) = Inr b'"
       "s' = (set_row (count s2) b' s2)\<lparr>count := count (set_row (count s2) b' s2) + 1\<rparr>"
    using assms(2) by (auto simp: do_packet_def Let_def)
  have "rows_typed s2" using assms(1) rw.resolve_kept [OF r(1)] rw.resolve_kept [OF r(2)] rows_typed_cong [of s2 s] by simp
  from rows_typed_set_row [OF this b(1) length_strncpy [OF b(2)]] show ?thesis
    by (simp add: b(3) rows_typed_cong [of "_\<lparr>count := _\<rparr>"] rows_of_def)
qed

lemma do_screen_resize_typed:
  assumes "rows_typed s" and "do_screen_resize junk (l, c) s = Inr s'" and "0 \<le> l" "0 \<le> c"
  shows "rows_typed s'"
proof -
  obtain s1 where s1: "free_rows s = Inr s1" "s' = screen_init junk (l, c) (say Reinit (s1\<lparr>numbuff := 0\<rparr>))"
    using assms(2) by (auto simp: do_screen_resize_def)
  have "0 \<le> numbuff s" "\<forall>i. numbuff s < int i \<longrightarrow> scrbuff s i = None"
    using rows_typed_none [OF assms(1)] assms(1) by (auto simp: rows_typed_def MAXBUFS_def)
  moreover from this(1) have "numbuff s < MAXBUFS"
    using s1(1) by (subst (asm) free_rows.simps) (auto split: if_splits)
  ultimately have "\<forall>i. scrbuff s1 i = None" using free_rows_result [of s] s1(1) by auto
  then show ?thesis using assms(3,4) by (simp add: s1(2) rows_typed_screen_init)
qed

lemma do_report_typed: "rows_typed s \<Longrightarrow> do_report te c s = Inr s' \<Longrightarrow> rows_typed s'"
proof (cases te; cases c)
  assume s: "rows_typed s" "do_report te c s = Inr s'"
  note kept = rows_typed_cong [of s' s] rw.do_load_kept rw.do_message_kept
  fix t e assume te: "te = (t, e)"
  show ?thesis if "c = Do_status ns ws" for ns ws using s te that by simp
  show ?thesis if "c = Do_load tx rx" for tx rx using s te that kept by auto
  show ?thesis if "c = Do_interface i l r" for i l r using s te that kept(1) rw.do_interface_kept by simp
  show ?thesis if "c = Do_state w" for w using s te that kept(1) rw.do_state_kept by simp
  show ?thesis if "c = Do_message m" for m using s te that kept by auto
  show ?thesis if "c = Do_queue"
    using s te that clear_rows_typed rows_typed_cong [of "say (Erase Sub) (s\<lparr>now := t, count := 0\<rparr>)" s]
    by (auto simp: do_queue_def Let_def rw.view_simps)
  show ?thesis if "c = Do_packet p" for p using s te that do_packet_typed by simp
  show ?thesis if "c = Do_endqueue" using s te that by simp
qed

lemma do_reports_typed: "rows_typed s \<Longrightarrow> do_reports ce n cs s = Inr s' \<Longrightarrow> rows_typed s'"
  by (induction cs arbitrary: n s) (auto intro: do_report_typed)

lemma yyparse_typed: "rows_typed s \<Longrightarrow> yyparse r ts s = Inr (b, us, s') \<Longrightarrow> rows_typed s'"
  by (auto simp: yyparse_def rows_typed_cong [of "_\<lparr>yacc_eof := _\<rparr>"] rw.flags dest: do_reports_typed split: prod.splits if_splits)

lemma parse_loop_typed: "rows_typed s \<Longrightarrow> parse_loop n runs i ts s = Inr (us, s') \<Longrightarrow> rows_typed s'"
proof (induction n arbitrary: i ts s)
  case (Suc n)
  from Suc.prems(2) obtain b vs s1 where s1: "yyparse (runs i) ts s = Inr (b, vs, s1)"
      "(if \<not> b \<and> i + 1 \<le> 3 then parse_loop n runs (i + 1) vs s1 else Inr (vs, s1)) = Inr (us, s')"
    by auto
  with yyparse_typed [OF Suc.prems(1) s1(1)] Suc.IH [of s1 "i + 1" vs] show ?case by (auto split: if_splits)
qed simp

lemma read_fifo_typed:
  assumes "rows_typed s" and "read_fifo runs junk (l, c) ts s = Inr (ret, us, s')" and "0 \<le> l" "0 \<le> c"
  shows "rows_typed s'"
proof -
  let ?s = "s\<lparr>yacc_eof := 0\<rparr>"
  obtain vs s1 where p: "parse_loop 4 runs 0 ts ?s = Inr (vs, s1)" using assms(2) by (auto simp: read_fifo_def)
  have "rows_typed ?s" using assms(1) rows_typed_cong [of ?s s] rw.flags by simp
  from parse_loop_typed [OF this p] have s1: "rows_typed s1" .
  consider (eof) "s' = say (Stderr (''diald-top: end of file on monitor pipe'' @ [LF])) s1"
    | (shown) s3 where "rows_typed s3" "rows_of s' = rows_of s3"
  proof (cases "yacc_eof s1 \<noteq> 0")
    case True
    then show ?thesis using assms(2) p that(1) by (simp add: read_fifo_def)
  next
    case False
    then obtain s3 s4 where s3: "(if resize_event_p s1 \<noteq> 0
          then rbind (do_screen_resize junk (l, c) s1) (\<lambda>s2. Inr (s2\<lparr>resize_event_p := 0\<rparr>)) else Inr s1) = Inr s3"
        "do_state (curr_state s3) s3 = Inr s4" "show_packets s4 = Inr s'"
      using assms(2) p by (auto simp: read_fifo_def)
    have "rows_typed s3"
      using s3(1) s1 do_screen_resize_typed [OF s1 _ assms(3,4)] rows_typed_cong [of "_\<lparr>resize_event_p := 0\<rparr>"] rw.flags
      by (auto split: if_splits)
    then show ?thesis using that(2) rw.do_state_kept [OF s3(2)] rw.show_packets_kept [OF s3(3)] by simp
  qed
  then show ?thesis
  proof cases
    case eof
    then show ?thesis using s1 rows_typed_cong [of s' s1] rw.say by simp
  qed (simp add: rows_typed_cong [of s'])
qed

lemma client_turn_typed:
  assumes "rows_typed s" and "client_turn e ts s = Inr (stop, us, s')" and "0 \<le> fst (t_size e)" "0 \<le> snd (t_size e)"
  shows "rows_typed s'"
  using assms(2)
proof (cases rule: client_turn_cases)
  case key
  then show ?thesis using assms(1) rows_typed_cong [of s' s] rw.key_step_kept [OF key] rw.noted_kept by simp
next
  case (read s1 runs ret s2)
  have "rows_typed s1" using assms(1) rows_typed_cong [of s1 s] rw.key_step_kept [OF read(1)] rw.noted_kept by simp
  from read_fifo_typed [OF this _ assms(3,4)] read(2) have "rows_typed s2" by simp
  then show ?thesis using read(3) rows_typed_cong [of s' s2] rw.update_screen_kept by auto
qed (use assms(1) rows_typed_cong [of s' s] rw.noted_kept rw.flags in simp_all)

lemma main_loop_typed:
  assumes "rows_typed s" and "main_loop es ts s = Inr s'" and "\<forall>e \<in> set es. 0 \<le> fst (t_size e) \<and> 0 \<le> snd (t_size e)"
  shows "rows_typed s'"
  using assms
proof (induction es arbitrary: ts s)
  case (Cons e es)
  show ?case
  proof (cases "quit s \<noteq> 0")
    case False
    with Cons.prems(2) obtain stop us s1 where s1: "client_turn e ts s = Inr (stop, us, s1)"
        "(if stop then Inr s1 else main_loop es us s1) = Inr s'" by auto
    have "rows_typed s1" using client_turn_typed [OF Cons.prems(1) s1(1)] Cons.prems(3) by simp
    with s1(2) Cons.IH [of s1 us] Cons.prems(3) show ?thesis by (cases stop) simp_all
  qed (use Cons.prems in simp)
qed simp

text \<open>C19: in a run of the client, through all reports, keys and resizes, there is always exactly one row
  buffer for each line of the screen and one more, up to the size of the array, and each is as long as
  a line of the present screen and its NUL: no row that is written or shown is missing or too short.\<close>

theorem client_rows_typed:
  assumes "client_main p s = Inr s'" and "\<forall>i. scrbuff s i = None"
    and "\<forall>sz \<in> set (pr_size p # map t_size (pr_turns p)). 0 \<le> fst sz \<and> 0 \<le> snd sz"
  shows "rows_typed s'"
proof -
  obtain s1 s3 s4 s5 where
    p: "read_command_line (pr_tmp p) (pr_control_fifo p) (pr_log_ok p) (pr_options p) s = Inr s1"
      "init_fifo (pr_fifo p) (screen_init (pr_junk p) (pr_size p) s1) = Inr s3"
      "main_loop (pr_turns p) (pr_tokens p) (s3\<lparr>quit := 0\<rparr>) = Inr s4"
      "s5 = s4 \<or> s5 = handlesig (pr_signal p) s4" "s' = close_screen (close_fifo s5)"
    using client_main_parts [OF assms(1)] by blast
  let ?s2 = "screen_init (pr_junk p) (pr_size p) s1"
  have "\<forall>i. scrbuff s1 i = None"
    using read_options_kept [OF p(1) [unfolded read_command_line_def]] assms(2) by (simp add: rows_of_def)
  then have "rows_typed ?s2"
    using rows_typed_screen_init [of s1 "fst (pr_size p)" "snd (pr_size p)" "pr_junk p"] assms(3) by simp
  then have "rows_typed (s3\<lparr>quit := 0\<rparr>)"
    using init_fifo_kept(3) [OF p(2)] rows_typed_cong [of "s3\<lparr>quit := 0\<rparr>" ?s2] rw.flags by simp
  from main_loop_typed [OF this p(3)] assms(3) have "rows_typed s4" by simp
  moreover have "rows_of s' = rows_of s4"
    using p(4) by (auto simp: p(5) handlesig_def close_screen_def close_fifo_def rw.say)
  ultimately show ?thesis by (simp add: rows_typed_cong [of s' s4])
qed

lemma client_rows_typed_witness: "\<exists>s'. client_main ex_program ex_globals = Inr s' \<and> rows_typed s'"
proof -
  obtain s' where s': "client_main ex_program ex_globals = Inr s'" using ex_program_runs by blast
  with client_rows_typed [OF s'] show ?thesis by (simp add: ex_globals_def ex_program_def ex_turn_def)
qed

end
