(* ===== verification/ClientSafety.thy ===== *)
theory ClientSafety
  imports ClientProgram HostMemory
begin

text \<open>
  The buffers of the client hold.  As long as the screen does not become narrower than it was at the
  start, reports are short enough for it and the user types less than a line, no run of the client
  writes outside a buffer, reads a row without an end, or uses a row that is not there.  What can still
  go wrong is the memory of the cache of host names.
\<close>

section \<open>Results\<close>

text \<open>A result that is one of the errors \<open>ok\<close> allows, or a value that has the property \<open>P\<close>.\<close>

definition safe :: "(c_error \<Rightarrow> bool) \<Rightarrow> ('a \<Rightarrow> bool) \<Rightarrow> 'a res \<Rightarrow> bool" where
  "safe ok P r \<longleftrightarrow> (case r of Inl e \<Rightarrow> ok e | Inr x \<Rightarrow> P x)"

lemma safe_simps [simp]: "safe ok P (Inl e) \<longleftrightarrow> ok e" "safe ok P (Inr x) \<longleftrightarrow> P x"
  by (simp_all add: safe_def)

lemma safe_rbind: "safe ok Q m \<Longrightarrow> (\<And>x. m = Inr x \<Longrightarrow> Q x \<Longrightarrow> safe ok P (f x)) \<Longrightarrow> safe ok P (rbind m f)"
  by (cases m) simp_all

lemma safe_mono: "safe ok Q r \<Longrightarrow> (\<And>x. r = Inr x \<Longrightarrow> Q x \<Longrightarrow> P x) \<Longrightarrow> safe ok P r"
  by (cases r) simp_all

section \<open>The display\<close>

text \<open>The invariant: the widths and the rows fit a screen that is at least \<open>w\<close> wide, the state of the link
  fits its buffer, and the number of packets is below \<open>k\<close>.\<close>

definition display_fits :: "int \<Rightarrow> client \<Rightarrow> bool" where
  "display_fits w s \<longleftrightarrow> display_ok s \<and> 40 \<le> w \<and> w \<le> cols s \<and> c_COLS s = cols s \<and> 35 + 2 * format_width s < w \<and>
     numbuff s < MAXBUFS \<and> length (curr_state s) < 230"

lemma display_fits_cong: "display_of s' = display_of s \<Longrightarrow> display_fits w s' = display_fits w s"
  by (simp add: display_of_def display_fits_def display_ok_def rows_ok_def)

lemma display_fits_count: "display_fits w s \<Longrightarrow> 0 \<le> x \<Longrightarrow> display_fits w (s\<lparr>count := x\<rparr>)"
  by (simp add: display_fits_def display_ok_def)

text \<open>A report that fits a screen of width \<open>w\<close>.\<close>

fun report_fits :: "int \<Rightarrow> call \<Rightarrow> bool" where
  "report_fits w (Do_state st) \<longleftrightarrow> length st < 230"
| "report_fits w (Do_interface ifc loc rem) \<longleftrightarrow> 32 + int (length ifc + length rem + length loc) \<le> w"
| "report_fits w (Do_packet p) \<longleftrightarrow> length (ttl p) \<le> 8"
| "report_fits w _ \<longleftrightarrow> True"

lemma get_row_safe:
  assumes "display_ok s" and "count s \<le> c_LINES s - HEAD_LINES"
  obtains b where "get_row (count s) s = Inr b" "length b = nat (cols s) + 1"
  using get_row_ok [of s "count s"] assms by (auto simp: display_ok_def)

lemma set_row_fits:
  assumes "display_fits w s" and "count s \<le> c_LINES s - HEAD_LINES" and "length b = nat (cols s) + 1" "NUL \<in> set b"
  shows "display_fits w (set_row (count s) b s)"
proof -
  have "rows_ok (set_row (count s) b s)"
    using assms by (intro rows_ok_set_row) (auto simp: display_fits_def display_ok_def)
  then show ?thesis using assms(1) by (simp add: display_fits_def display_ok_def set_row_def)
qed

lemma display_fits_say [simp]: "display_fits w (say e s) = display_fits w s"
  by (rule display_fits_cong) (rule dp.say_any)

lemma display_fits_state: "display_fits w s \<Longrightarrow> length st < 230 \<Longrightarrow> display_fits w (s\<lparr>curr_state := st, c_out := es\<rparr>)"
  using rows_ok_cong [of "s\<lparr>curr_state := st, c_out := es\<rparr>" s] by (simp add: display_fits_def display_ok_def)

lemma do_state_safe:
  assumes "display_fits w s" and "count s < 10 ^ 9" and "length st < 230"
  shows "safe ok (\<lambda>s'. display_fits w s' \<and> count s' = count s) (do_state st s)"
proof -
  have "0 \<le> count s" using assms(1) by (simp add: display_fits_def display_ok_def)
  with do_state_result [OF assms(3) _ assms(2)] display_fits_state [OF assms(1,3)] show ?thesis by simp
qed

lemma do_interface_safe:
  assumes "display_fits w s" and "32 + int (length ifc + length rem + length loc) \<le> w"
  shows "safe ok (\<lambda>s'. display_fits w s' \<and> count s' = count s) (do_interface ifc loc rem s)"
proof -
  have c: "40 \<le> c_COLS s" "c_COLS s \<le> 512" "32 + int (length ifc + length rem + length loc) \<le> c_COLS s"
    using assms by (simp_all add: display_fits_def display_ok_def)
  then have "is_ok (do_interface ifc loc rem s)" by (subst do_interface_fits) simp_all
  then obtain s' where s': "do_interface ifc loc rem s = Inr s'" by (auto simp: is_ok_iff)
  with dp.do_interface_kept [OF s'] display_fits_cong [of s' s] assms(1) show ?thesis by (simp add: display_of_def)
qed

lemma do_queue_safe:
  assumes "display_fits w s"
  shows "safe ok (\<lambda>s'. display_fits w s' \<and> count s' = 0) (do_queue t s)"
proof -
  obtain s' where s': "do_queue t s = Inr s'" "display_ok s'" "count s' = 0" "same_display (say (Erase Sub) s) s'"
    using do_queue_result [of s t] assms by (auto simp: display_fits_def)
  then show ?thesis using assms by (simp add: display_fits_def same_display_def)
qed

section \<open>The parser\<close>

text \<open>A token makes at most one call.\<close>

lemma top_step_calls: "top_step es cs t = Go st es' cs' \<or> top_step es cs t = Stop out cs' \<Longrightarrow> cs' = cs"
  by (cases t) auto

lemma pstep_calls:
  "pstep e st es cs t = Go st' es' cs' \<or> pstep e st es cs t = Stop out cs' \<Longrightarrow> length cs' \<le> Suc (length cs)"
proof -
  assume a: "pstep e st es cs t = Go st' es' cs' \<or> pstep e st es cs t = Stop out cs'"
  have pk: "packets_step e es cs t = Go st' es' cs' \<or> packets_step e es cs t = Stop out cs' \<Longrightarrow> cs' = cs"
    by (cases t) (auto simp: queue_error_def split: if_splits)
  from a top_step_calls [of es cs t st' es' cs' out] top_step_calls [of 3 cs t st' es' cs' out] pk show ?thesis
    by (cases st) (auto simp: top_error_def queue_error_def finish_def split: if_splits option.splits list.splits)
qed

lemma yyloop_calls:
  "yyloop e st es cs ts = (out, cs', us) \<Longrightarrow> \<exists>vs. ts = vs @ us \<and> length cs' \<le> length cs + length vs"
proof (induction ts arbitrary: st es cs)
  case (Cons t ts)
  show ?case
  proof (cases "pstep e st es cs t")
    case (Stop out' ds)
    with Cons.prems pstep_calls [of e st es cs t] show ?thesis by (intro exI [of _ "[t]"]) auto
  next
    case (Go st' es' ds)
    with Cons.prems Cons.IH [of st' es' ds] obtain vs where "ts = vs @ us" "length cs' \<le> length ds + length vs" by auto
    with Go pstep_calls [of e st es cs t st' es' ds] show ?thesis by (intro exI [of _ "t # vs"]) auto
  qed
qed simp

text \<open>Input that holds no report too long for a screen of width \<open>w\<close>: every run of the parser on it makes
  calls that fit and leaves input of the same kind.\<close>

coinductive fitting :: "int \<Rightarrow> token list \<Rightarrow> bool" for w where
  fitting: "(\<And>e out cs us. monitor_parse e ts = (out, cs, us) \<Longrightarrow> list_all (report_fits w) cs \<and> fitting w us) \<Longrightarrow> fitting w ts"

inductive_cases fitting_run: "fitting w ts"

text \<open>Reports and packet queues as diald writes them, with pauses (\<open>None\<close>) between them.  A run of the parser
  carries out some of them and leaves the others.\<close>

fun piece_tokens :: "block option \<Rightarrow> token list" where
  "piece_tokens None = [T_WOULDBLOCK]"
| "piece_tokens (Some b) = block_tokens b"

fun piece_calls :: "block option \<Rightarrow> call list" where
  "piece_calls None = []"
| "piece_calls (Some b) = block_calls b"

lemma yyloop_pieces:
  assumes "list_all (pred_option block_ok) xs"
  shows "\<exists>ys zs. xs = ys @ zs \<and> fst (snd (yyloop e Top es cs (concat (map piece_tokens xs)))) = cs @ concat (map piece_calls ys) \<and>
    snd (snd (yyloop e Top es cs (concat (map piece_tokens xs)))) = concat (map piece_tokens zs)"
  using assms
proof (induction xs arbitrary: es cs)
  case Nil
  show ?case by simp
next
  case (Cons x xs)
  let ?ts = "concat (map piece_tokens xs)"
  have first: ?case if "yyloop e Top es cs (piece_tokens x @ ?ts) = (out, cs @ piece_calls x, ?ts)" for out
    using that by (intro exI [of _ "[x]"] exI [of _ xs]) simp
  have rest: ?case if step: "yyloop e Top es cs (piece_tokens x @ ?ts) = yyloop e Top es' (cs @ piece_calls x) ?ts" for es'
  proof -
    obtain ys zs where "xs = ys @ zs"
        "fst (snd (yyloop e Top es' (cs @ piece_calls x) ?ts)) = (cs @ piece_calls x) @ concat (map piece_calls ys)"
        "snd (snd (yyloop e Top es' (cs @ piece_calls x) ?ts)) = concat (map piece_tokens zs)"
      using Cons.IH [of es' "cs @ piece_calls x"] Cons.prems by auto
    with step show ?thesis by (intro exI [of _ "x # ys"] exI [of _ zs]) simp
  qed
  show ?case
  proof (cases x)
    case None
    then show ?thesis using first [of Blocked] by simp
  next
    case (Some b)
    show ?thesis
    proof (cases "is_load b")
      case True
      then obtain tx rx where "b = Report (Do_load tx rx)" by (cases b rule: is_load.cases) simp_all
      with Some first [of Accepted] parse_load show ?thesis by simp
    next
      case False
      moreover have "block_ok b" using Cons.prems Some by simp
      ultimately show ?thesis using Some first [of Accepted] rest parse_block_key [of b e es cs ?ts] by (auto split: if_splits)
    qed
  qed
qed

lemma fitting_pieces:
  assumes "list_all (pred_option block_ok) xs" and "list_all (report_fits w) (concat (map piece_calls xs))"
  shows "fitting w (concat (map piece_tokens xs))"
proof -
  have "fitting w ts" if "\<exists>xs. list_all (pred_option block_ok) xs \<and>
      list_all (report_fits w) (concat (map piece_calls xs)) \<and> ts = concat (map piece_tokens xs)" for ts
    using that
  proof (coinduction arbitrary: ts)
    case fitting
    then obtain xs where xs: "list_all (pred_option block_ok) xs" "list_all (report_fits w) (concat (map piece_calls xs))"
        "ts = concat (map piece_tokens xs)" by blast
    have "list_all (report_fits w) cs \<and> (\<exists>xs. list_all (pred_option block_ok) xs \<and>
        list_all (report_fits w) (concat (map piece_calls xs)) \<and> us = concat (map piece_tokens xs))"
      if p: "monitor_parse e ts = (out, cs, us)" for e out cs us
    proof -
      obtain ys zs where "xs = ys @ zs" "cs = concat (map piece_calls ys)" "us = concat (map piece_tokens zs)"
        using yyloop_pieces [OF xs(1), of e 0 "[]"] p xs(3) by (auto simp: monitor_parse_def)
      with xs(1,2) show ?thesis by (intro conjI exI [of _ zs]) simp_all
    qed
    then show ?case by blast
  qed
  then show ?thesis using assms by blast
qed

section \<open>Turns\<close>

lemma do_screen_resize_safe:
  assumes "display_fits w s" and "w \<le> c" "c \<le> 512" and "0 \<le> l" "l \<le> 254"
  shows "safe ok (\<lambda>s'. display_fits w s' \<and> count s' = count s) (do_screen_resize junk (l, c) s)"
proof -
  have s: "rows_ok s" "numbuff s < MAXBUFS" "40 \<le> w" "0 \<le> format_width s" "35 + 2 * format_width s < w" "0 \<le> count s"
    using assms(1) by (simp_all add: display_fits_def display_ok_def)
  obtain u where u: "do_screen_resize junk (l, c) s = Inr (screen_init junk (l, c) u)" "\<forall>i. scrbuff u i = None"
      "no_rows u = no_rows (say Reinit s)"
    using do_screen_resize_init [OF s(1,2)] by blast
  have c: "0 \<le> c" using s(3) assms(2) by simp
  note i = screen_init_result [OF u(2) assms(4) c, of junk]
  have "format_width u = format_width s" "count u = count s" using no_rows_fields(4,5) [OF u(3)] by simp_all
  then have "display_fits w (screen_init junk (l, c) u)"
    using i s assms(2-5) by (simp add: display_fits_def display_ok_def MAXBUFS_def HEAD_LINES_def)
  then show ?thesis using u(1) i(8) \<open>count u = count s\<close> by simp
qed

text \<open>The invariant of the main loop, together with the input that is left.\<close>

definition loop_fits :: "int \<Rightarrow> token list \<Rightarrow> client \<Rightarrow> bool" where
  "loop_fits w ts s \<longleftrightarrow> display_fits w s \<and> fitting w ts \<and> count s + int (length ts) < 10 ^ 9"

lemma loop_fits_cong: "display_of s' = display_of s \<Longrightarrow> loop_fits w ts s' = loop_fits w ts s"
  using display_fits_cong [of s' s w] by (simp add: loop_fits_def display_of_def)

text \<open>A turn on a screen that is at least \<open>w\<close> wide, in which the user types less than a line.\<close>

definition turn_fits :: "int \<Rightarrow> turn \<Rightarrow> bool" where
  "turn_fits w e \<longleftrightarrow> (case t_key e of None \<Rightarrow> True | Some (key, typed) \<Rightarrow> length typed < LINELENGTH) \<and>
     (case t_size e of (l, c) \<Rightarrow> 0 \<le> l \<and> l \<le> 254 \<and> w \<le> c \<and> c \<le> 512)"

lemma key_step_safe:
  assumes "turn_fits w e"
  shows "safe ok (\<lambda>s'. display_of s' = display_of s) (key_step e s)"
proof (cases "key_step e s")
  case (Inl err)
  then show ?thesis using assms
    by (auto simp: key_step_def turn_fits_def parse_keyboard_def get_command_def rbind_eq_Inl Let_def split: option.splits if_splits)
next
  case (Inr s')
  then show ?thesis using dp.key_step_kept [OF Inr] by simp
qed

section \<open>Start\<close>

lemma read_options_safe:
  assumes "\<forall>n. ok (Exit n)"
  shows "safe ok (\<lambda>s'. read_options log_ok os s = Inr s') (read_options log_ok os s)"
proof -
  have "read_options log_ok os s = Inl err \<Longrightarrow> ok err" for err
    using assms by (induction log_ok os s rule: read_options.induct) (auto split: if_splits)
  then show ?thesis by (cases "read_options log_ok os s") simp_all
qed

lemma init_fifo_safe:
  assumes "\<forall>n. ok (Exit n)" and "length (c_monitor s) < 248"
  shows "safe ok (\<lambda>s'. init_fifo e s = Inr s') (init_fifo e s)"
proof -
  have "c_monitor (say ev u) = c_monitor u" for ev u by (simp add: say_def)
  then have "init_fifo e s = Inl err \<Longrightarrow> ok err" for err
    using assms by (auto simp: init_fifo_def connect_remote_def open_local_def rbind_eq_Inl LINELENGTH_def Let_def split: if_splits)
  then show ?thesis by (cases "init_fifo e s") simp_all
qed

lemma display_fits_start:
  assumes "\<forall>i. scrbuff s i = None" and "0 \<le> l" "l \<le> 254" and "40 \<le> c" "c \<le> 512"
    and "init_fifo e (screen_init junk (l, c) s) = Inr s'"
  shows "display_fits c s'"
proof -
  let ?t = "screen_init junk (l, c) s"
  have c: "0 \<le> c" using assms(4) by simp
  note i = screen_init_result [OF assms(1,2) c, of junk] and keep = init_fifo_display [OF assms(6)]
  have "rows_ok s'" using i(1) keep rows_ok_cong [of s' ?t] by simp
  moreover have "(c - 36) sdiv 2 = (c - 36) div 2" using assms(4) by (simp add: signed_divide_int_def)
  ultimately show ?thesis using assms(2-5) i keep
    by (auto simp: display_fits_def display_ok_def MAXBUFS_def HEAD_LINES_def)
qed

section \<open>Memory for host names\<close>

text \<open>The blocks that the environment of a call, of a run of the parser and of a turn can hand out.\<close>

definition call_blocks :: "int \<times> packet_env \<Rightarrow> addr set" where
  "call_blocks te = blocks (p_malloc1 (snd te)) \<union> blocks (p_malloc2 (snd te))"

definition run_blocks :: "run_env \<Rightarrow> addr set" where
  "run_blocks r = (\<Union>n. call_blocks (r_calls r n))"

definition turn_blocks :: "turn \<Rightarrow> addr set" where
  "turn_blocks e = (case t_fifo e of None \<Rightarrow> {} | Some runs \<Rightarrow> \<Union>i \<in> {0..3}. run_blocks (runs i))"

text \<open>Every \<open>malloc\<close> satisfies a condition \<open>mem\<close> on the blocks handed out before it.\<close>

type_synonym mem_supply = "addr set \<Rightarrow> host_malloc \<Rightarrow> bool"

definition call_supplied :: "mem_supply \<Rightarrow> addr set \<Rightarrow> int \<times> packet_env \<Rightarrow> bool" where
  "call_supplied mem A te \<longleftrightarrow> mem A (p_malloc1 (snd te)) \<and> mem (A \<union> blocks (p_malloc1 (snd te))) (p_malloc2 (snd te))"

definition calls_supplied :: "mem_supply \<Rightarrow> addr set \<Rightarrow> nat \<Rightarrow> (nat \<Rightarrow> int \<times> packet_env) \<Rightarrow> bool" where
  "calls_supplied mem A n ce \<longleftrightarrow> (\<forall>m \<ge> n. call_supplied mem (A \<union> (\<Union>k \<in> {n..<m}. call_blocks (ce k))) (ce m))"

definition runs_supplied :: "mem_supply \<Rightarrow> addr set \<Rightarrow> nat \<Rightarrow> (nat \<Rightarrow> run_env) \<Rightarrow> bool" where
  "runs_supplied mem A i runs \<longleftrightarrow>
     (\<forall>j \<in> {i..3}. calls_supplied mem (A \<union> (\<Union>k \<in> {i..<j}. run_blocks (runs k))) 0 (r_calls (runs j)))"

fun turns_supplied :: "mem_supply \<Rightarrow> addr set \<Rightarrow> turn list \<Rightarrow> bool" where
  "turns_supplied mem A [] \<longleftrightarrow> True"
| "turns_supplied mem A (e # es) \<longleftrightarrow>
     (case t_fifo e of None \<Rightarrow> True | Some runs \<Rightarrow> runs_supplied mem A 0 runs) \<and> turns_supplied mem (A \<union> turn_blocks e) es"

lemma UN_step: "i < j \<Longrightarrow> A \<union> (\<Union>k \<in> {i..<j}. f k) = (A \<union> f i) \<union> (\<Union>k \<in> {Suc i..<j}. f k)"
proof -
  assume "i < j"
  then have "{i..<j} = insert i {Suc i..<j}" by auto
  then show ?thesis by (simp add: Un_assoc)
qed

lemma UN_from: "(A \<union> f n) \<union> (\<Union>k \<in> {Suc n..}. f k) = A \<union> (\<Union>k \<in> {n..}. f k)"
proof -
  have "{n..} = insert n {Suc n..}" by auto
  then show ?thesis by (simp only: UN_insert Un_assoc)
qed

lemma UN_upto: "n \<le> m \<Longrightarrow> (A \<union> f n) \<union> (\<Union>k \<in> {Suc n..m}. f k) = A \<union> (\<Union>k \<in> {n..m::nat}. f k)"
proof -
  assume "n \<le> m"
  then have "{n..m} = insert n {Suc n..m}" by auto
  then show ?thesis by (simp only: UN_insert Un_assoc)
qed

lemma calls_supplied_step:
  assumes "calls_supplied mem A n ce"
  shows "call_supplied mem A (ce n)" "calls_supplied mem (A \<union> call_blocks (ce n)) (Suc n) ce"
  using assms by (auto simp: calls_supplied_def Suc_le_eq UN_step [of n _ A "\<lambda>k. call_blocks (ce k)", symmetric] dest: spec [of _ n])

lemma runs_supplied_step:
  assumes "runs_supplied mem A i runs" and "i \<le> 3"
  shows "calls_supplied mem A 0 (r_calls (runs i))" "runs_supplied mem (A \<union> run_blocks (runs i)) (Suc i) runs"
  using assms by (auto simp: runs_supplied_def Suc_le_eq UN_step [of i _ A "\<lambda>k. run_blocks (runs k)", symmetric] dest: bspec [of _ _ i])

lemma turns_supplied_any: "turns_supplied (\<lambda>_ _. True) A es"
  by (induction es arbitrary: A)
    (auto simp: runs_supplied_def calls_supplied_def call_supplied_def split: option.split)

section \<open>The cache as the display sees it\<close>

text \<open>What the rest of the client relies on: \<open>permitted\<close> says which errors may end a run, \<open>cache A\<close> is an
  invariant of the cache whose nodes lie in the blocks \<open>A\<close>, and \<open>resolve\<close> keeps it and leaves the display
  alone when memory is supplied.\<close>

locale name_cache =
  fixes permitted :: "c_error \<Rightarrow> bool" and cache :: "addr set \<Rightarrow> client \<Rightarrow> bool" and mem :: mem_supply
  assumes exits: "\<forall>n. permitted (Exit n)"
    and cache_view: "cache_of s' = cache_of s \<Longrightarrow> cache A s \<Longrightarrow> cache A s'"
    and cache_mono: "A \<subseteq> A' \<Longrightarrow> cache A s \<Longrightarrow> cache A' s"
    and resolves: "cache A s \<Longrightarrow> mem A m \<Longrightarrow>
      safe permitted (\<lambda>(nm, s'). display_of s' = display_of s \<and> cache (A \<union> blocks m) s') (resolve ghba mydom m aaddr s)"
begin

lemma do_packet_safe:
  assumes "display_fits w s" and "length (ttl p) \<le> 8" and "cache A s" "call_supplied mem A (t, e)"
  shows "safe permitted (\<lambda>s'. display_fits w s' \<and> count s' = count s + 1 \<and> cache (A \<union> call_blocks (t, e)) s') (do_packet e p s)"
proof (cases "count s \<le> c_LINES s - HEAD_LINES")
  case False
  have "cache (A \<union> call_blocks (t, e)) (s\<lparr>count := count s + 1\<rparr>)"
    using cache_view [OF hc.link(2)] cache_mono [OF _ assms(3)] by blast
  with False show ?thesis using display_fits_count [OF assms(1), of "count s + 1"] assms(1)
    by (simp add: do_packet_def display_fits_def display_ok_def)
next
  case True
  let ?d = "service (p_gsbp e) (p_memory e) (port1 p) (protocol p)" and ?o = "service (p_gsbp e) (p_memory e) (port2 p) (protocol p)"
  let ?A = "A \<union> blocks (p_malloc1 e)"
  have mem: "mem A (p_malloc1 e)" "mem ?A (p_malloc2 e)" using assms(4) by (simp_all add: call_supplied_def)
  have row: "safe permitted (\<lambda>s'. display_fits w s' \<and> count s' = count s + 1 \<and> cache (A \<union> call_blocks (t, e)) s')
      (rbind (packet_row (format_width u) (protocol p) n1 ?d n2 ?o (ttl p)) (\<lambda>row.
       rbind (fits 512 row) (\<lambda>buf.
       rbind (get_row (count u) u) (\<lambda>b.
       rbind (strncpy b buf (nat (cols u))) (\<lambda>b'.
         let s3 = set_row (count u) b' u in Inr (s3\<lparr>count := count s3 + 1\<rparr>))))))"
    if d: "display_of u = display_of s" and "cache (?A \<union> blocks (p_malloc2 e)) u" for u n1 n2
  proof -
    have u: "display_fits w u" "count u = count s" "c_LINES u = c_LINES s"
      using assms(1) d display_fits_cong [OF d] by (simp_all add: display_of_def)
    obtain r where r: "packet_row (format_width u) (protocol p) n1 ?d n2 ?o (ttl p) = Inr r"
      using u(1) by (simp add: packet_row_def display_fits_def display_ok_def)
    have "int (length r) < cols u" "cols u \<le> 512"
      using length_packet_row [OF r] u(1) assms(2) by (auto simp: display_fits_def display_ok_def)
    then have len: "length r < nat (cols u)" "length r < 512" by linarith+
    obtain b where b: "get_row (count u) u = Inr b" "length b = nat (cols u) + 1"
      using get_row_safe [of u] u True by (auto simp: display_fits_def)
    obtain b' where b': "strncpy b r (nat (cols u)) = Inr b'" "length b' = nat (cols u) + 1" "NUL \<in> set b'"
      using strncpy_fits [OF len(1) b(2)] by blast
    have "display_fits w (set_row (count u) b' u)" using u True by (intro set_row_fits b'(2,3)) simp_all
    then have "display_fits w ((set_row (count u) b' u)\<lparr>count := count u + 1\<rparr>)"
      using u(1) by (intro display_fits_count) (auto simp: display_fits_def display_ok_def)
    moreover have "cache (A \<union> call_blocks (t, e)) u" using that(2) by (simp add: call_blocks_def Un_assoc)
    then have "cache (A \<union> call_blocks (t, e)) ((set_row (count u) b' u)\<lparr>count := count u + 1\<rparr>)"
      by (rule cache_view [rotated]) (simp add: cache_of_def set_row_def)
    ultimately show ?thesis using r len(2) b(1) b'(1) u(2) by (simp add: fits_def set_row_def)
  qed
  have second: "safe permitted (\<lambda>(nm, s'). display_of s' = display_of s \<and> cache (?A \<union> blocks (p_malloc2 e)) s')
      (resolve (p_ghba e) (p_domain e) (p_malloc2 e) (ip2 p) u)"
    if "display_of u = display_of s" "cache ?A u" for u
    using resolves [OF that(2) mem(2)] that(1) by simp
  show ?thesis
    unfolding do_packet_def Let_def using True
    by (auto intro!: safe_rbind [OF resolves [OF assms(3) mem(1)]] safe_rbind [OF second] row [unfolded Let_def] split: prod.splits)
qed

lemma do_report_safe:
  assumes "display_fits w s" and "count s < 10 ^ 9" and "report_fits w c" and "cache A s" "call_supplied mem A te"
  shows "safe permitted (\<lambda>s'. display_fits w s' \<and> count s' \<le> count s + 1 \<and> cache (A \<union> call_blocks te) s') (do_report te c s)"
    (is "safe _ ?P _")
proof -
  have nn: "0 \<le> count s" using assms(1) by (simp add: display_fits_def display_ok_def)
  have keep: "cache (A \<union> call_blocks te) s'" if "cache_of s' = cache_of s" for s'
    using cache_view [OF that] cache_mono [OF _ assms(4)] by blast
  have cong: "?P s'" if "display_of s' = display_of s" "cache_of s' = cache_of s" for s'
    using assms(1) display_fits_cong [OF that(1)] that(1) keep [OF that(2)] by (simp add: display_of_def)
  have "display_of (do_load tx rx s) = display_of s" for tx rx by (simp add: do_load_def display_of_def split: prod.split)
  moreover have "safe permitted ?P (do_state st s)" if "report_fits w (Do_state st)" for st
    using safe_mono [OF do_state_safe [OF assms(1,2)], of st] that keep [OF hc.do_state_kept] by simp
  moreover have "safe permitted ?P (do_interface ifc loc rem s)" if "report_fits w (Do_interface ifc loc rem)" for ifc loc rem
    using safe_mono [OF do_interface_safe [OF assms(1)], of ifc rem loc] that keep [OF hc.do_interface_kept] by simp
  moreover have "safe permitted ?P (do_queue t s)" for t
    by (rule safe_mono [OF do_queue_safe [OF assms(1)]]) (use nn keep [OF hc.do_queue_kept] in simp)
  moreover have "safe permitted ?P (do_packet (snd te) p s)" if "report_fits w (Do_packet p)" for p
    using safe_mono [OF do_packet_safe [OF assms(1) _ assms(4), of p "fst te" "snd te"]] that assms(5) by simp
  ultimately show ?thesis using assms(1,3) cong keep nn
    by (cases te; cases c) (simp_all add: dp.do_message_kept hc.do_message_kept hc.do_load_kept del: report_fits.simps)
qed

lemma do_reports_safe:
  assumes "display_fits w s" and "list_all (report_fits w) cs" and "count s + int (length cs) < 10 ^ 9"
    and "cache A s" "calls_supplied mem A n ce"
  shows "safe permitted (\<lambda>s'. display_fits w s' \<and> count s' \<le> count s + int (length cs) \<and> cache (A \<union> (\<Union>k \<in> {n..}. call_blocks (ce k))) s')
    (do_reports ce n cs s)"
  using assms
proof (induction cs arbitrary: n s A)
  case Nil
  have "cache (A \<union> (\<Union>k \<in> {n..}. call_blocks (ce k))) s" by (rule cache_mono [OF _ Nil(4)]) simp
  with Nil show ?case by simp
next
  case (Cons c cs)
  note step = calls_supplied_step [OF Cons.prems(5)]
  have first: "safe permitted (\<lambda>s'. display_fits w s' \<and> count s' \<le> count s + 1 \<and> cache (A \<union> call_blocks (ce n)) s') (do_report (ce n) c s)"
    using Cons.prems step by (intro do_report_safe) simp_all
  have more: "cache (A \<union> (\<Union>k \<in> {n..}. call_blocks (ce k))) u"
    if "cache ((A \<union> call_blocks (ce n)) \<union> (\<Union>k \<in> {Suc n..}. call_blocks (ce k))) u" for u
    using that by (simp only: UN_from [of A "\<lambda>k. call_blocks (ce k)"])
  show ?case unfolding do_reports.simps
  proof (rule safe_rbind [OF first])
    fix u assume u: "display_fits w u \<and> count u \<le> count s + 1 \<and> cache (A \<union> call_blocks (ce n)) u"
    have "safe permitted (\<lambda>s'. display_fits w s' \<and> count s' \<le> count u + int (length cs) \<and>
        cache ((A \<union> call_blocks (ce n)) \<union> (\<Union>k \<in> {Suc n..}. call_blocks (ce k))) s') (do_reports ce (Suc n) cs u)"
      by (rule Cons.IH [OF _ _ _ _ step(2)]) (use u Cons.prems in simp_all)
    then show "safe permitted (\<lambda>s'. display_fits w s' \<and> count s' \<le> count s + int (length (c # cs)) \<and>
        cache (A \<union> (\<Union>k \<in> {n..}. call_blocks (ce k))) s') (do_reports ce (Suc n) cs u)"
      by (rule safe_mono) (use u more in simp)
  qed
qed

lemma yyparse_safe:
  assumes "loop_fits w ts s" and "cache A s" "calls_supplied mem A 0 (r_calls r)"
  shows "safe permitted (\<lambda>(b, us, s'). loop_fits w us s' \<and> cache (A \<union> run_blocks r) s') (yyparse r ts s)"
proof -
  let ?e = "run_parse_env r s"
  have s: "display_fits w s" "fitting w ts" "count s + int (length ts) < 10 ^ 9" using assms(1) by (simp_all add: loop_fits_def)
  obtain out cs us where p: "monitor_parse ?e ts = (out, cs, us)" by (metis prod_cases3)
  obtain vs where vs: "ts = vs @ us" "length cs \<le> length vs"
    using yyloop_calls [of ?e Top 0 "[]" ts out cs us] p by (auto simp: monitor_parse_def)
  have fit: "list_all (report_fits w) cs" "fitting w us" using s(2) p by (auto elim: fitting_run)
  have "safe permitted (\<lambda>s'. display_fits w s' \<and> count s' \<le> count s + int (length cs) \<and> cache (A \<union> (\<Union>k \<in> {0..}. call_blocks (r_calls r k))) s')
      (do_reports (r_calls r) 0 cs s)"
    using fit(1) assms(2,3) s vs by (intro do_reports_safe) simp_all
  then have reports: "safe permitted (\<lambda>s'. loop_fits w us s' \<and> cache (A \<union> run_blocks r) s') (do_reports (r_calls r) 0 cs s)"
    by (rule safe_mono) (use fit(2) s(3) vs in \<open>auto simp: run_blocks_def loop_fits_def\<close>)
  have "loop_fits w us (u\<lparr>yacc_eof := 1\<rparr>) = loop_fits w us u" for u by (rule loop_fits_cong) (rule dp.flags)
  moreover have "cache B u \<Longrightarrow> cache B (u\<lparr>yacc_eof := 1\<rparr>)" for B u by (rule cache_view) (rule hc.flags)
  ultimately show ?thesis unfolding yyparse_def p prod.case
    using reports exits by (elim safe_rbind) auto
qed

text \<open>The loop parses at most four times, so its bound is not reached.\<close>

lemma parse_loop_safe:
  assumes "loop_fits w ts s" and "cache A s" "runs_supplied mem A i runs" and "i \<le> 3" "n + i = 4"
  shows "safe permitted (\<lambda>(us, s'). loop_fits w us s' \<and> cache (A \<union> (\<Union>k \<in> {i..3}. run_blocks (runs k))) s') (parse_loop n runs i ts s)"
  using assms
proof (induction n arbitrary: i ts s A)
  case (Suc n)
  note step = runs_supplied_step [OF Suc.prems(3,4)]
  have more: "cache (A \<union> (\<Union>k \<in> {i..3}. run_blocks (runs k))) u"
    if "cache ((A \<union> run_blocks (runs i)) \<union> (\<Union>k \<in> {Suc i..3}. run_blocks (runs k))) u" for u
    using that by (simp only: UN_upto [OF Suc.prems(4), of A "\<lambda>k. run_blocks (runs k)"])
  show ?case unfolding parse_loop.simps
  proof (rule safe_rbind [OF yyparse_safe [OF Suc.prems(1,2) step(1)]], clarify)
    fix b us u assume u: "loop_fits w us u" "cache (A \<union> run_blocks (runs i)) u"
    have "safe permitted (\<lambda>(us, s'). loop_fits w us s' \<and> cache (A \<union> (\<Union>k \<in> {i..3}. run_blocks (runs k))) s') (parse_loop n runs (i + 1) us u)"
      if "i + 1 \<le> 3"
      by (rule safe_mono [OF Suc.IH [of us u "A \<union> run_blocks (runs i)" "i + 1"]]) (use u step(2) Suc.prems(5) that more in auto)
    moreover have "cache (A \<union> (\<Union>k \<in> {i..3}. run_blocks (runs k))) u"
      by (rule cache_mono [OF _ u(2)]) (use Suc.prems(4) in auto)
    ultimately show "safe permitted (\<lambda>(us, s'). loop_fits w us s' \<and> cache (A \<union> (\<Union>k \<in> {i..3}. run_blocks (runs k))) s')
        (if \<not> b \<and> i + 1 \<le> 3 then parse_loop n runs (i + 1) us u else Inr (us, u))"
      using u(1) by simp
  qed
qed simp

lemma read_fifo_safe:
  assumes "loop_fits w ts s" and "w \<le> c" "c \<le> 512" and "0 \<le> l" "l \<le> 254" and "cache A s" "runs_supplied mem A 0 runs"
  shows "safe permitted (\<lambda>(ret, us, s'). loop_fits w us s' \<and> cache (A \<union> (\<Union>k \<in> {0..3}. run_blocks (runs k))) s')
    (read_fifo runs junk (l, c) ts s)"
proof -
  let ?A = "A \<union> (\<Union>k \<in> {0..3}. run_blocks (runs k))"
  define ok where "ok us s' \<longleftrightarrow> loop_fits w us s' \<and> cache ?A s'" for us s'
  have okI: "display_of v = display_of u \<Longrightarrow> cache_of v = cache_of u \<Longrightarrow> ok us u \<Longrightarrow> ok us v" for us u v
    using loop_fits_cong [of v u] cache_view [of v u] by (simp add: ok_def)
  have start: "loop_fits w ts (s\<lparr>yacc_eof := 0\<rparr>)" "cache A (s\<lparr>yacc_eof := 0\<rparr>)"
    using assms(1) loop_fits_cong [OF dp.flags(4)] cache_view [OF hc.flags(4) assms(6)] by simp_all
  have loop: "safe permitted (\<lambda>(us, s'). ok us s') (parse_loop 4 runs 0 ts (s\<lparr>yacc_eof := 0\<rparr>))"
    using parse_loop_safe [OF start assms(7), of 4] by (simp add: ok_def)
  have shown: "safe permitted (\<lambda>(ret, us', s'). ok us' s')
      (rbind (do_state (curr_state u) u) (\<lambda>s4. rbind (show_packets s4) (\<lambda>s5. Inr (1, us, s5))))" if u: "ok us u" for us u
  proof (rule safe_rbind [OF do_state_safe])
    show "display_fits w u" "length (curr_state u) < 230" "count u < 10 ^ 9"
      using u by (auto simp: ok_def loop_fits_def display_fits_def)
    fix s4 assume s4: "do_state (curr_state u) u = Inr s4" "display_fits w s4 \<and> count s4 = count u"
    then have "rows_ok s4" by (simp add: display_fits_def display_ok_def)
    from show_packets_total [OF this] obtain s5 where s5: "show_packets s4 = Inr s5" by blast
    have "ok us s4" using u s4 cache_view [OF hc.do_state_kept [OF s4(1)]] by (simp add: ok_def loop_fits_def)
    then have "ok us s5" by (rule okI [OF dp.show_packets_kept [OF s5] hc.show_packets_kept [OF s5]])
    with s5 show "safe permitted (\<lambda>(ret, us', s'). ok us' s') (rbind (show_packets s4) (\<lambda>s5. Inr (1, us, s5)))" by simp
  qed
  have resized: "safe permitted (ok us)
      (if resize_event_p s1 \<noteq> 0 then rbind (do_screen_resize junk (l, c) s1) (\<lambda>s2. Inr (s2\<lparr>resize_event_p := 0\<rparr>)) else Inr s1)"
    if s1: "ok us s1" for us s1
  proof -
    have "display_fits w s1" using s1 by (simp add: ok_def loop_fits_def)
    note r = do_screen_resize_safe [OF this assms(2-5), of permitted junk]
    have "ok us (u\<lparr>resize_event_p := 0\<rparr>)"
      if "do_screen_resize junk (l, c) s1 = Inr u" "display_fits w u" "count u = count s1" for u
    proof (rule okI [OF dp.flags(5) hc.flags(5)])
      show "ok us u" using s1 that cache_view [OF hc.do_screen_resize_kept [OF that(1)]] by (simp add: ok_def loop_fits_def)
    qed
    then show ?thesis using s1 by (auto intro!: safe_rbind [OF r])
  qed
  have "safe permitted (\<lambda>(ret, us, s'). ok us s') (read_fifo runs junk (l, c) ts s)"
    unfolding read_fifo_def
  proof (rule safe_rbind [OF loop], clarify)
    fix us u assume u: "ok us u"
    show "safe permitted (\<lambda>(ret, us', s'). ok us' s')
      (if yacc_eof u \<noteq> 0 then Inr (-1, us, say (Stderr (''diald-top: end of file on monitor pipe'' @ [LF])) u)
       else rbind (if resize_event_p u \<noteq> 0 then rbind (do_screen_resize junk (l, c) u) (\<lambda>s2. Inr (s2\<lparr>resize_event_p := 0\<rparr>)) else Inr u)
         (\<lambda>s3. rbind (do_state (curr_state s3) s3) (\<lambda>s4. rbind (show_packets s4) (\<lambda>s5. Inr (1, us, s5)))))"
    proof (cases "yacc_eof u = 0")
      case True
      then show ?thesis by (simp only: simp_thms if_False) (rule safe_rbind [OF resized [OF u] shown])
    qed (use okI [OF dp.say_any hc.say_any u] in simp)
  qed
  then show ?thesis by (simp add: ok_def)
qed

lemma client_turn_safe:
  assumes "loop_fits w ts s" and "turn_fits w e" and "cache A s"
    and "case t_fifo e of None \<Rightarrow> True | Some runs \<Rightarrow> runs_supplied mem A 0 runs"
  shows "safe permitted (\<lambda>(stop, us, s'). loop_fits w us s' \<and> cache (A \<union> turn_blocks e) s') (client_turn e ts s)"
proof -
  define ok where "ok B us s' \<longleftrightarrow> loop_fits w us s' \<and> cache B s'" for B us s'
  have okI: "display_of v = display_of u \<Longrightarrow> cache_of v = cache_of u \<Longrightarrow> ok B us u \<Longrightarrow> ok B us v" for B us u v
    using loop_fits_cong [of v u] cache_view [of v u] by (simp add: ok_def)
  have more: "ok A us u \<Longrightarrow> ok (A \<union> turn_blocks e) us u" for us u using cache_mono [of A] by (simp add: ok_def)
  have n: "ok A ts (noted e s)" by (rule okI [OF dp.noted_kept hc.noted_kept]) (use assms(1,3) in \<open>simp add: ok_def\<close>)
  have q: "ok B us v \<Longrightarrow> ok B us (v\<lparr>quit := 1\<rparr>)" "ok B us v \<Longrightarrow> ok B us (update_screen v)" for B us v
    using okI [OF dp.flags(1) hc.flags(1)] okI [OF dp.update_screen_kept hc.update_screen_kept] by blast+
  have key: "safe permitted (ok A ts) (key_step e (noted e s))"
    by (rule safe_mono [OF key_step_safe [OF assms(2)]]) (use okI [OF _ hc.key_step_kept n] in blast)
  have read: "safe permitted (\<lambda>(ret, us, s'). ok (A \<union> turn_blocks e) us s') (read_fifo runs (t_junk e) (t_size e) ts u)"
    if "t_fifo e = Some runs" "ok A ts u" for runs u
    using read_fifo_safe [of w ts u "snd (t_size e)" "fst (t_size e)" A runs "t_junk e"] assms(2,4) that
    by (simp add: turn_fits_def case_prod_beta ok_def turn_blocks_def)
  have "safe permitted (\<lambda>(stop, us, s'). ok (A \<union> turn_blocks e) us s') (client_turn e ts s)"
    unfolding client_turn_eq using n more q
    by (auto intro!: safe_rbind [OF key] safe_rbind [OF read] split: option.split)
  then show ?thesis by (simp add: ok_def)
qed

lemma main_loop_safe:
  "loop_fits w ts s \<Longrightarrow> list_all (turn_fits w) es \<Longrightarrow> cache A s \<Longrightarrow> turns_supplied mem A es \<Longrightarrow>
   safe permitted (\<lambda>_. True) (main_loop es ts s)"
proof (induction es arbitrary: ts s A)
  case (Cons e es)
  have "safe permitted (\<lambda>(stop, us, s'). loop_fits w us s' \<and> cache (A \<union> turn_blocks e) s') (client_turn e ts s)"
    using Cons.prems by (intro client_turn_safe) simp_all
  then show ?case unfolding main_loop.simps using Cons by (auto elim!: safe_rbind)
qed simp

lemma client_main_safe:
  assumes "\<forall>i. scrbuff s i = None" and "pr_size p = (l, c)" "0 \<le> l" "l \<le> 254" "40 \<le> c" "c \<le> 512"
    and "length (pr_tmp p) < 248" and "list_all (turn_fits c) (pr_turns p)"
    and "fitting c (pr_tokens p)" "length (pr_tokens p) < 10 ^ 9"
    and "cache A s" "turns_supplied mem A (pr_turns p)"
  shows "safe permitted (\<lambda>_. True) (client_main p s)"
  unfolding client_main_def read_command_line_def Let_def
proof (rule safe_rbind [OF read_options_safe [OF exits]], rule safe_rbind [OF init_fifo_safe [OF exits]])
  let ?s0 = "s\<lparr>c_monitor := pr_tmp p, c_control := pr_control_fifo p, numeric := 0, remotemode := 0\<rparr>"
  fix s1 assume "read_options (pr_log_ok p) (pr_options p) ?s0 = Inr s1"
  from read_options_kept [OF this] have s1: "c_monitor s1 = pr_tmp p" "\<forall>i. scrbuff s1 i = None" "cache_of s1 = cache_of s"
    using assms(1) by (simp_all add: rows_of_def cache_of_def)
  show "length (c_monitor (screen_init (pr_junk p) (pr_size p) s1)) < 248"
    using st.screen_init_kept [of "pr_junk p" "pr_size p" s1] s1(1) assms(7) by (simp add: settings_def)
  fix s3 assume s3: "init_fifo (pr_fifo p) (screen_init (pr_junk p) (pr_size p) s1) = Inr s3"
  have "display_fits c s3" using display_fits_start [OF s1(2) assms(3-6)] s3 assms(2) by simp
  then have "loop_fits c (pr_tokens p) (s3\<lparr>quit := 0\<rparr>)"
    using assms(9,10) init_fifo_display(8) [OF s3] display_fits_cong [OF dp.flags(1)] by (simp add: loop_fits_def)
  moreover have "cache_of (s3\<lparr>quit := 0\<rparr>) = cache_of s"
    using init_fifo_display(9) [OF s3] hc.screen_init_kept s1(3) hc.flags(1) by metis
  then have "cache A (s3\<lparr>quit := 0\<rparr>)" using cache_view assms(11) by blast
  ultimately show "safe permitted (\<lambda>_. True) (rbind (main_loop (pr_turns p) (pr_tokens p) (s3\<lparr>quit := 0\<rparr>))
      (\<lambda>s4. Inr (close_screen (close_fifo (if quit s4 \<noteq> 0 \<or> yacc_eof s4 \<noteq> 0 then s4 else handlesig (pr_signal p) s4)))))"
    using main_loop_safe [OF _ assms(8) _ assms(12)] by (blast intro: safe_rbind [of _ "\<lambda>_. True"] safe_simps(2) [THEN iffD2])
qed

end

section \<open>Buffers\<close>

text \<open>The errors that are accesses outside of a buffer.\<close>

fun overruns :: "c_error \<Rightarrow> bool" where
  "overruns OutOfBounds \<longleftrightarrow> True"
| "overruns BufferOverflow \<longleftrightarrow> True"
| "overruns Unterminated \<longleftrightarrow> True"
| "overruns BadFormat \<longleftrightarrow> True"
| "overruns BadFd \<longleftrightarrow> True"
| "overruns _ \<longleftrightarrow> False"

text \<open>The cache has no buffers of a fixed size, so \<open>resolve\<close> makes none of them, whatever the memory holds.\<close>

abbreviation sound :: "'a res \<Rightarrow> bool" where
  "sound r \<equiv> safe (\<lambda>err. \<not> overruns err) (\<lambda>_. True) r"

lemma find_rec_sound: "find_rec h a p = Some r \<Longrightarrow> sound r"
  by (rule find_rec.raw_induct [where P = "\<lambda>_ _ _. sound"]) (auto split: option.splits if_splits)

lemma find_host_sound: "sound (find_host a s)"
  by (auto simp: find_host_def find_rec_sound split: option.splits)

lemma cache_sound: "sound (gettab m a s)" "sound (get_hr m a hr s)" "sound (get_rec x s)" "sound (set_rec x a nm tr s)"
  by (auto simp: gettab_def get_hr_def get_rec_def set_rec_def intro!: safe_rbind [OF find_host_sound] split: option.splits)

lemma query_host_sound: "sound (query_host ghba mydom m aaddr a hr s)"
  unfolding query_host_def
  by (cases "ghba a") (auto intro!: safe_rbind [OF cache_sound(2)] safe_rbind [OF cache_sound(3)] safe_rbind [OF cache_sound(4)]
      split: prod.splits)

lemma resolve_sound:
  "safe (\<lambda>err. \<not> overruns err) (\<lambda>(nm, s'). display_of s' = display_of s \<and> True) (resolve ghba mydom m aaddr s)"
proof (cases "resolve ghba mydom m aaddr s")
  case (Inr x)
  then show ?thesis using dp.resolve_kept [of ghba mydom m aaddr s "fst x" "snd x"] by (cases x) simp
next
  case (Inl e)
  have "\<not> overruns e" if "find_host a s = Inl e" for a using find_host_sound [of a s] that by simp
  moreover have "\<not> overruns e" if "get_rec x s = Inl e" for x using cache_sound(3) [of x s] that by simp
  moreover have "\<not> overruns e" if "query_host ghba mydom m aaddr a hr s = Inl e" for a hr
    using query_host_sound [of ghba mydom m aaddr a hr s] that by simp
  ultimately show ?thesis using Inl
    by (auto simp: resolve_def probetab_def gettab_def rbind_eq_Inl split: option.splits if_splits)
qed

interpretation loose: name_cache "\<lambda>err. \<not> overruns err" "\<lambda>_ _. True" "\<lambda>_ _. True"
proof unfold_locales
  show "safe (\<lambda>err. \<not> overruns err) (\<lambda>(nm, s'). display_of s' = display_of s \<and> True) (resolve ghba mydom m aaddr s)"
    for s m ghba mydom aaddr by (rule resolve_sound)
qed simp_all

text \<open>C15: the buffers of the client hold.  If the terminal has 40 to 512 columns and at most 254 lines and never
  becomes narrower than at the start, no report of diald is too long for it, and the user types less
  than a line at a prompt, then no run of the client, to its end or up to any \<open>exit\<close>, writes outside of a
  buffer, looks at a row that is not in the array, prints a row that has no end or uses a bad format.\<close>

theorem client_no_overrun:
  assumes "\<forall>i. scrbuff s i = None" and "pr_size p = (l, c)" "0 \<le> l" "l \<le> 254" "40 \<le> c" "c \<le> 512"
    and "length (pr_tmp p) < 248" and "list_all (turn_fits c) (pr_turns p)"
    and "fitting c (pr_tokens p)" "length (pr_tokens p) < 10 ^ 9"
  shows "case client_main p s of Inl err \<Rightarrow> \<not> overruns err | Inr s' \<Rightarrow> True"
  using loose.client_main_safe [OF assms TrueI turns_supplied_any] by (simp add: safe_def)

text \<open>A run that reads a state report and a packet, on the example screen.\<close>

definition ex_pieces :: "block option list" where
  "ex_pieces = [Some (Report (Do_state ''UP'')), Some (Queued [ex_packet]), None]"

definition ex_reading :: program_env where
  "ex_reading = ex_program\<lparr>pr_tokens := concat (map piece_tokens ex_pieces),
     pr_turns := [ex_turn\<lparr>t_fifo := Some (\<lambda>_. ex_run_env)\<rparr>]\<rparr>"

lemma ex_pieces_fitting: "fitting 80 (concat (map piece_tokens ex_pieces))"
proof (rule fitting_pieces)
  show "list_all (pred_option block_ok) ex_pieces"
    using ex_packet_ok by (simp add: ex_pieces_def is_word_def nondigit_def noslash_def is_digit_def)
  show "list_all (report_fits 80) (concat (map piece_calls ex_pieces))"
    using packet_ok_ttl [OF ex_packet_ok] by (simp add: ex_pieces_def)
qed

lemma client_no_overrun_witness:
  "fitting 80 (pr_tokens ex_reading) \<and> (case client_main ex_reading ex_globals of Inl err \<Rightarrow> \<not> overruns err | Inr s' \<Rightarrow> True)"
proof -
  have f: "fitting 80 (pr_tokens ex_reading)" using ex_pieces_fitting by (simp add: ex_reading_def)
  have "case client_main ex_reading ex_globals of Inl err \<Rightarrow> \<not> overruns err | Inr s' \<Rightarrow> True"
    by (rule client_no_overrun [where l = 24 and c = 80])
      (use f in \<open>simp_all add: ex_reading_def ex_pieces_def packet_tokens_def ex_program_def ex_globals_def ex_turn_def
        turn_fits_def LINELENGTH_def\<close>)
  with f show ?thesis by blast
qed

end
