(* ===== verification/ClientMemory.thy ===== *)
theory ClientMemory
  imports ClientSafety
begin

text \<open>
  No run of the client goes wrong.  When every \<open>malloc\<close> hands out a block that it has not handed out
  before, the chains of the hash table stay well-formed during a whole run, so no run follows a bad
  pointer or walks along a chain for ever; with the buffers of \<open>ClientSafety\<close> a \<open>malloc\<close> that fails is
  the one way to crash the client.
\<close>

text \<open>How a run may end early: with \<open>exit\<close>, or without memory.\<close>

fun permits :: "bool \<Rightarrow> c_error \<Rightarrow> bool" where
  "permits may_fail (Exit n) \<longleftrightarrow> True"
| "permits may_fail NullDeref \<longleftrightarrow> may_fail"
| "permits may_fail _ \<longleftrightarrow> False"

lemma cache_fits_view: "cache_of s' = cache_of s \<Longrightarrow> cache_fits A s \<Longrightarrow> cache_fits A s'"
  by (simp add: cache_fits_def cache_ok_def cache_of_def)

interpretation strict: name_cache "permits may_fail" cache_fits "supplied may_fail" for may_fail
proof unfold_locales
  fix A s m ghba mydom aaddr
  assume "cache_fits A s" "supplied may_fail A m"
  then consider "may_fail" "resolve ghba mydom m aaddr s = Inl NullDeref"
    | nm s' where "resolve ghba mydom m aaddr s = Inr (nm, s')" "cache_fits (A \<union> blocks m) s'"
    using resolve_supplied [of A s may_fail m ghba mydom aaddr] by blast
  then show "safe (permits may_fail) (\<lambda>(nm, s'). display_of s' = display_of s \<and> cache_fits (A \<union> blocks m) s')
      (resolve ghba mydom m aaddr s)"
  proof cases
    case 2
    with dp.resolve_kept [OF 2(1)] show ?thesis by simp
  qed simp
next
  show "cache_of s' = cache_of s \<Longrightarrow> cache_fits A s \<Longrightarrow> cache_fits A s'" for s' s A by (rule cache_fits_view)
  show "A \<subseteq> A' \<Longrightarrow> cache_fits A s \<Longrightarrow> cache_fits A' s" for A A' s by (auto simp: cache_fits_def)
qed simp

text \<open>C16: no run of the client goes wrong.  Let the input through the FIFO hold no empty line, and no piece of it that
  begins with a line end behind a pause (with an empty message the scanner never returns, as
  \<open>MonitorLex\<close> shows).  Then the scanner gets through it, and on a terminal of 40 to 512 columns and at
  most 254 lines that never becomes narrower than at the start, with reports that fit it, less than a line
  typed at a prompt, and a \<open>malloc\<close> that never hands out a block twice, every run of the program on these
  tokens goes on to its end or to a call of \<open>exit\<close>: no buffer, row or format is misused, no pointer of the
  host name cache is bad and no search of it goes on for ever.  If \<open>malloc\<close> may fail, then the one other
  way to end is the null pointer that \<open>gettab\<close> does not check.\<close>

theorem client_never_fails:
  assumes "\<forall>i. scrbuff s i = None" and "pr_size p = (l, c)" "0 \<le> l" "l \<le> 254" "40 \<le> c" "c \<le> 512"
    and "length (pr_tmp p) < 248" and "list_all (turn_fits c) (pr_turns p)"
    and calm: "calm ins"
    and fits: "\<And>ts. lex_input INITIAL ins = Some ts \<Longrightarrow> fitting c ts \<and> length ts < 10 ^ 9"
    and "hheap s = Map.empty" "\<forall>h. hosthash s h = None" "turns_supplied (supplied may_fail) {} (pr_turns p)"
  shows "\<exists>ts. lex_input INITIAL ins = Some ts \<and>
    (case client_main (p\<lparr>pr_tokens := ts\<rparr>) s of Inl err \<Rightarrow> permits may_fail err | Inr s' \<Rightarrow> True)"
proof -
  obtain ts where ts: "lex_input INITIAL ins = Some ts" using lex_input_ends [OF calm] by blast
  have "cache_ok s (\<lambda>_. [])" using assms(12) by (simp add: cache_ok_def)
  then have cache: "cache_fits {} s" using assms(11) by (auto simp: cache_fits_def)
  have "safe (permits may_fail) (\<lambda>_. True) (client_main (p\<lparr>pr_tokens := ts\<rparr>) s)"
    by (rule strict.client_main_safe [OF assms(1) _ assms(3-6) _ _ _ _ cache]) (use assms(2,7,8,13) fits [OF ts] in simp_all)
  with ts show ?thesis by (simp add: safe_def)
qed

text \<open>The run of \<open>ex_reading\<close> with names: the packets of the report are looked up, and the four runs
  of the parser have the blocks of different residues.\<close>

definition ex_mallocs :: "nat \<Rightarrow> nat \<Rightarrow> int \<times> packet_env" where
  "ex_mallocs i n = (case r_calls ex_run_env n of (t, e) \<Rightarrow>
     (t, e\<lparr>p_malloc1 := Some (8 * n + 2 * i, ex_hostrec), p_malloc2 := Some (8 * n + 2 * i + 1, ex_hostrec)\<rparr>))"

definition ex_naming :: program_env where
  "ex_naming = ex_reading\<lparr>pr_options := [], pr_turns := [ex_turn\<lparr>t_fifo := Some (\<lambda>i. ex_run_env\<lparr>r_calls := ex_mallocs i\<rparr>)\<rparr>]\<rparr>"

lemma ex_mallocs_blocks: "call_blocks (ex_mallocs i n) = {8 * n + 2 * i, 8 * n + 2 * i + 1}"
  by (auto simp: call_blocks_def ex_mallocs_def blocks_def split: prod.split)

lemma ex_blocks_distinct:
  assumes "k < j" and "j \<le> 3"
  shows "8 * m + 2 * j \<noteq> 8 * n + 2 * k" "8 * m + 2 * j \<noteq> Suc (8 * n + 2 * k)"
    "Suc (8 * m + 2 * j) \<noteq> 8 * n + 2 * k" "8 * m + 2 * j \<noteq> 8 * n + (2 * k :: nat)"
  using assms by presburger+

lemma ex_mallocs_supplied: "turns_supplied (supplied False) {} (pr_turns ex_naming)"
proof -
  have "call_supplied (supplied False) ((\<Union>k \<in> {0..<j}. \<Union>n. {8 * n + 2 * k, 8 * n + 2 * k + 1}) \<union>
      (\<Union>k \<in> {0..<m}. {8 * k + 2 * j, 8 * k + 2 * j + 1})) (ex_mallocs j m)" if "j \<le> 3" for j m
    using that ex_blocks_distinct [of _ j]
    by (auto simp: call_supplied_def supplied_def blocks_def ex_mallocs_def ex_run_env_def)
  then show ?thesis
    by (simp add: ex_naming_def ex_turn_def runs_supplied_def calls_supplied_def run_blocks_def ex_mallocs_blocks)
qed

definition ex_input :: "input list" where
  "ex_input = arrive [reports_text [Report (Do_state ''UP''), Queued [ex_packet]]] @ [pause]"

lemma ex_input_tokens: "lex_input INITIAL ex_input = Some (pr_tokens ex_naming)"
  unfolding ex_input_def
  using lex_input_reports [of "[Report (Do_state ''UP''), Queued [ex_packet]]" "[reports_text [Report (Do_state ''UP''), Queued [ex_packet]]]" "[]" "[]"]
    ex_packet_ok lex_input_Nil
  by (simp add: ex_naming_def ex_reading_def ex_pieces_def is_word_def nondigit_def noslash_def is_digit_def)
    (simp add: reports_text_def nl_def)

lemma ex_input_calm: "calm ex_input"
proof -
  have "\<not> blank_line (LF # reports_text [Report (Do_state ''UP''), Queued [ex_packet]])" by code_simp
  moreover have "reports_text [Report (Do_state ''UP''), Queued [ex_packet]] \<noteq> []" by (simp add: reports_text_def nl_def)
  ultimately show ?thesis
    using pieces_arrive [of "[reports_text [Report (Do_state ''UP''), Queued [ex_packet]]]" "[]" "[pause]"]
    by (simp add: calm_def ex_input_def pause_def yy_nolog_input_def)
qed

lemma client_never_fails_witness:
  "calm ex_input \<and> turns_supplied (supplied False) {} (pr_turns ex_naming) \<and>
   (\<exists>ts. lex_input INITIAL ex_input = Some ts \<and>
    (case client_main (ex_naming\<lparr>pr_tokens := ts\<rparr>) ex_globals of Inl err \<Rightarrow> permits False err | Inr s' \<Rightarrow> True))"
proof -
  have "fitting 80 (pr_tokens ex_naming)" using ex_pieces_fitting by (simp add: ex_naming_def ex_reading_def)
  moreover have "length (pr_tokens ex_naming) < 10 ^ 9"
    by (simp add: ex_naming_def ex_reading_def ex_pieces_def packet_tokens_def)
  ultimately have f: "fitting 80 ts \<and> length ts < 10 ^ 9" if "lex_input INITIAL ex_input = Some ts" for ts
    using that by (simp add: ex_input_tokens)
  have "\<exists>ts. lex_input INITIAL ex_input = Some ts \<and>
    (case client_main (ex_naming\<lparr>pr_tokens := ts\<rparr>) ex_globals of Inl err \<Rightarrow> permits False err | Inr s' \<Rightarrow> True)"
    by (rule client_never_fails [where l = 24 and c = 80, OF _ _ _ _ _ _ _ _ ex_input_calm f _ _ ex_mallocs_supplied])
      (simp_all add: ex_naming_def ex_reading_def ex_program_def ex_globals_def ex_client_def ex_turn_def turn_fits_def LINELENGTH_def)
  with ex_mallocs_supplied ex_input_calm show ?thesis by blast
qed

end
