(* ===== verification/ClientEnds.thy ===== *)
theory ClientEnds
  imports ClientProgram
begin

text \<open>
  How the client ends (\<open>main\<close> of \<open>client/diald-top.c\<close>): the state at the calls of \<open>exit\<close> in \<open>init_fifo\<close>
  (\<open>client/pipe.c\<close>) and in \<open>yyerror\<close> (\<open>client/monitor.y\<close>), and what the exit handlers that are registered by
  then do with it.
\<close>

section \<open>The exits of init_fifo\<close>

text \<open>The operations of \<open>init_fifo\<close> once more, with the state in which they end the program and the message;
  \<open>err\<close> is the text \<open>perror\<close> adds.\<close>

type_synonym 'a ending = "(c_error \<times> client) + 'a"

definition connect_remote_at :: "fifo_env \<Rightarrow> client \<Rightarrow> (string \<times> client) ending" where
  "connect_remote_at e s =
     (if inet_pton (remoteip s) = None then Inl (Exit 1, say (Stderr (''Invalid remote IP: '' @ remoteip s @ [LF])) s)
      else if \<not> f_bound e then Inl (Exit 1, say (Stderr (''Couldn'' @ [CHR 39] @ ''t bind to socket'' @ [LF])) s)
      else if \<not> f_connected e
        then Inl (Exit 1, say (Stderr (''Couldn'' @ [CHR 39] @ ''t connect to '' @ remoteip s @ '':1313'' @ [LF]))
          (s\<lparr>c_monitorfd := f_socket e\<rparr>))
      else Inr (''monitor on'', s\<lparr>c_monitorfd := f_socket e, c_controlfd := f_dup e\<rparr>))"

definition open_local_at :: "string \<Rightarrow> fifo_env \<Rightarrow> client \<Rightarrow> (string \<times> client) ending" where
  "open_local_at err e s =
     (if f_control e < 0 then Inl (Exit 1, say (Stderr (''Could not open diald control pipe: '' @ err @ [LF])) (s\<lparr>c_controlfd := f_control e\<rparr>))
      else
        let s1 = say (MakeFifo (c_monitor s)) (s\<lparr>c_controlfd := f_control e\<rparr>);
            s2 = s1\<lparr>c_monitorfd := f_monitor e\<rparr> in
        if f_monitor e < 0 then Inl (Exit 1, say (Stderr (''Could not open diald monitor pipe: '' @ err @ [LF])) s2)
        else (case fits LINELENGTH (''monitor '' @ c_monitor s1) of Inl x \<Rightarrow> Inl (x, s2) | Inr line \<Rightarrow> Inr (line, s2)))"

definition init_fifo_at :: "string \<Rightarrow> fifo_env \<Rightarrow> client \<Rightarrow> client ending" where
  "init_fifo_at err e s =
     (let s0 = s\<lparr>yacc_eof := 0, count := 0\<rparr> in
      case (if remotemode s0 \<noteq> 0 then connect_remote_at e s0 else open_local_at err e s0) of
        Inl x \<Rightarrow> Inl x
      | Inr (line, s1) \<Rightarrow>
          let s2 = snd (fifo_command line s1) in
          if remotemode s2 = 0 \<and> f_select e \<le> 0
            then Inl (Exit 1, say (Stderr (''No activity on monitor pipe for 5 sec.  Aborting!'' @ [LF])) s2)
          else if \<not> f_fdopen e then Inl (Exit 1, say (Stderr (''Could not fdopen diald monitor pipe'' @ [LF])) s2)
          else Inr (s2\<lparr>format_width := ip_width s2\<rparr>))"

text \<open>Without the states it is \<open>init_fifo\<close>.\<close>

lemma init_fifo_at_result: "init_fifo e s = (case init_fifo_at err e s of Inl (x, s') \<Rightarrow> Inl x | Inr s' \<Rightarrow> Inr s')"
  by (cases "inet_pton (remoteip s)")
    (auto simp: init_fifo_def init_fifo_at_def connect_remote_def connect_remote_at_def open_local_def open_local_at_def
      Let_def fits_def split: if_splits)

section \<open>Giving up\<close>

text \<open>When \<open>init_fifo\<close> ends the program only \<open>close_screen\<close> has been given to \<open>atexit\<close>.\<close>

definition client_abandoned :: "string \<Rightarrow> program_env \<Rightarrow> client \<Rightarrow> client option" where
  "client_abandoned err p s =
     (case read_command_line (pr_tmp p) (pr_control_fifo p) (pr_log_ok p) (pr_options p) s of
        Inl x \<Rightarrow> None
      | Inr s1 \<Rightarrow>
          (case init_fifo_at err (pr_fifo p) (screen_init (pr_junk p) (pr_size p) s1) of
             Inl (Exit n, s2) \<Rightarrow> Some (close_screen s2)
           | _ \<Rightarrow> None))"

lemma client_abandoned_exits:
  "client_abandoned err p s = Some s' \<Longrightarrow> \<exists>n. client_main p s = Inl (Exit n)"
  by (auto simp: client_abandoned_def client_main_def init_fifo_at_result [where err = err] Let_def
      split: sum.splits prod.splits c_error.splits)

lemma alloc_rows_out: "c_out (alloc_rows junk l u) = c_out u"
  by (induction junk l u rule: alloc_rows.induct) (subst alloc_rows.simps, simp add: Let_def)

lemma screen_init_out: "\<exists>es. c_out (screen_init junk sz s) = c_out s @ es \<and> (\<forall>w. RemoveFifo w \<notin> set es)"
  by (cases sz) (simp add: screen_init_def Let_def update_screen_def alloc_rows_out)

lemma say_kept [simp]: "remotemode (say ev u) = remotemode u" "c_monitor (say ev u) = c_monitor u"
  by (simp_all add: say_def)

text \<open>C37: when diald is silent for five seconds the client gives up, and its FIFO stays: it has been made,
  diald has been asked to write into it, and nothing removes it, since \<open>close_fifo\<close> is given to \<open>atexit\<close>
  only behind \<open>init_fifo\<close>.\<close>

theorem silent_diald_leaves_fifo:
  assumes "read_command_line (pr_tmp p) (pr_control_fifo p) (pr_log_ok p) (pr_options p) s = Inr s1"
    and "remotemode s1 = 0" and "c_out s = []" and "length (pr_tmp p) < 248"
    and "0 \<le> f_control (pr_fifo p)" "0 \<le> f_monitor (pr_fifo p)" "f_select (pr_fifo p) \<le> 0"
  shows "\<exists>s' es. client_main p s = Inl (Exit 1) \<and> client_abandoned err p s = Some s' \<and>
    c_out s' = es @ [MakeFifo (pr_tmp p), Send (''monitor '' @ pr_tmp p @ [LF]),
      Stderr (''No activity on monitor pipe for 5 sec.  Aborting!'' @ [LF]), EndWin] \<and> (\<forall>w. RemoveFifo w \<notin> set es)"
proof -
  let ?s2 = "screen_init (pr_junk p) (pr_size p) s1"
  have s1: "c_monitor s1 = pr_tmp p" "c_out s1 = []"
    using read_options_kept [OF assms(1) [unfolded read_command_line_def]] assms(3) by simp_all
  have s2: "c_monitor ?s2 = pr_tmp p" "remotemode ?s2 = 0"
    using st.screen_init_kept [of "pr_junk p" "pr_size p" s1] s1(1) assms(2) by (simp_all add: settings_def)
  obtain es where es: "c_out ?s2 = es" "\<forall>w. RemoveFifo w \<notin> set es"
    using screen_init_out [of "pr_junk p" "pr_size p" s1] s1(2) by auto
  let ?m = "Stderr (''No activity on monitor pipe for 5 sec.  Aborting!'' @ [LF])"
  have "\<exists>u. init_fifo_at err (pr_fifo p) ?s2 = Inl (Exit 1, u) \<and>
      c_out u = es @ [MakeFifo (pr_tmp p), Send (''monitor '' @ pr_tmp p @ [LF]), ?m]"
    using s2 es(1) assms(4-7) by (simp add: init_fifo_at_def open_local_at_def fits_def LINELENGTH_def fifo_command_def Let_def)
  then obtain u where u: "init_fifo_at err (pr_fifo p) ?s2 = Inl (Exit 1, u)"
      "c_out u = es @ [MakeFifo (pr_tmp p), Send (''monitor '' @ pr_tmp p @ [LF]), ?m]" by blast
  have "client_abandoned err p s = Some (close_screen u)" using assms(1) u(1) by (simp add: client_abandoned_def)
  moreover have "client_main p s = Inl (Exit 1)"
    using assms(1) u(1) by (simp add: client_main_def init_fifo_at_result [where err = err] Let_def)
  ultimately show ?thesis using u(2) es(2) by (intro exI [of _ "close_screen u"] exI [of _ es]) (simp add: close_screen_def)
qed

definition ex_silent :: program_env where
  "ex_silent = ex_program\<lparr>pr_fifo := ex_fifo_env\<lparr>f_select := 0\<rparr>\<rparr>"

lemma silent_diald_leaves_fifo_witness:
  "\<exists>s'. client_abandoned [] ex_silent ex_globals = Some s' \<and> MakeFifo ''/tmp/m'' \<in> set (c_out s') \<and> last (c_out s') = EndWin"
proof -
  let ?s1 = "ex_globals\<lparr>c_monitor := ''/tmp/m'', c_control := ''/etc/diald/diald.ctl'', numeric := 1, remotemode := 0\<rparr>"
  have 1: "read_command_line (pr_tmp ex_silent) (pr_control_fifo ex_silent) (pr_log_ok ex_silent) (pr_options ex_silent) ex_globals = Inr ?s1"
    by (simp add: read_command_line_def ex_silent_def ex_program_def ex_globals_def ex_client_def)
  obtain s' es where "client_abandoned [] ex_silent ex_globals = Some s'"
      "c_out s' = es @ [MakeFifo (pr_tmp ex_silent), Send (''monitor '' @ pr_tmp ex_silent @ [LF]),
        Stderr (''No activity on monitor pipe for 5 sec.  Aborting!'' @ [LF]), EndWin]"
    using silent_diald_leaves_fifo [OF 1, of "[]"]
    by (auto simp: ex_silent_def ex_program_def ex_fifo_env_def ex_globals_def ex_client_def)
  then show ?thesis by (simp add: ex_silent_def ex_program_def)
qed

section \<open>The exit of the parser\<close>

text \<open>With \<open>-q\<close> a parse error ends the program from inside \<open>yyparse\<close>.  The state at that \<open>exit\<close>, for the
  parser and the operations around it.\<close>

definition yyparse_exit :: "run_env \<Rightarrow> token list \<Rightarrow> client \<Rightarrow> client option" where
  "yyparse_exit r ts s =
     (case monitor_parse (run_parse_env r s) ts of (out, cs, us) \<Rightarrow>
        case do_reports (r_calls r) 0 cs s of Inl x \<Rightarrow> None | Inr s1 \<Rightarrow> if out = Exited then Some s1 else None)"

fun parse_loop_exit :: "nat \<Rightarrow> (nat \<Rightarrow> run_env) \<Rightarrow> nat \<Rightarrow> token list \<Rightarrow> client \<Rightarrow> client option" where
  "parse_loop_exit 0 runs i ts s = None"
| "parse_loop_exit (Suc n) runs i ts s =
     (case yyparse (runs i) ts s of Inl x \<Rightarrow> yyparse_exit (runs i) ts s
      | Inr (yacc_block, us, s1) \<Rightarrow> if \<not> yacc_block \<and> i + 1 \<le> 3 then parse_loop_exit n runs (i + 1) us s1 else None)"

definition client_turn_exit :: "turn \<Rightarrow> token list \<Rightarrow> client \<Rightarrow> client option" where
  "client_turn_exit e ts s =
     (if t_select e = -1 \<or> t_error e then None
      else case key_step e (noted e s) of Inl x \<Rightarrow> None
      | Inr s1 \<Rightarrow> (case t_fifo e of None \<Rightarrow> None | Some runs \<Rightarrow> parse_loop_exit 4 runs 0 ts (s1\<lparr>yacc_eof := 0\<rparr>)))"

fun main_loop_exit :: "turn list \<Rightarrow> token list \<Rightarrow> client \<Rightarrow> client option" where
  "main_loop_exit [] ts s = None"
| "main_loop_exit (e # es) ts s =
     (if quit s \<noteq> 0 then None
      else case client_turn e ts s of Inl x \<Rightarrow> client_turn_exit e ts s
      | Inr (stop, us, s1) \<Rightarrow> if stop then None else main_loop_exit es us s1)"

lemma yyparse_exits: "yyparse_exit r ts s = Some s' \<Longrightarrow> yyparse r ts s = Inl (Exit 1)"
  by (auto simp: yyparse_exit_def yyparse_def split: prod.splits sum.splits if_splits)

lemma parse_loop_exits: "parse_loop_exit n runs i ts s = Some s' \<Longrightarrow> parse_loop n runs i ts s = Inl (Exit 1)"
proof (induction n arbitrary: i ts s)
  case (Suc n)
  then show ?case by (auto simp: rbind_eq_Inl dest: yyparse_exits split: sum.splits prod.splits if_splits)
qed simp

lemma client_turn_exits: "client_turn_exit e ts s = Some s' \<Longrightarrow> client_turn e ts s = Inl (Exit 1)"
  by (auto simp: client_turn_exit_def client_turn_eq read_fifo_def dest!: parse_loop_exits split: if_splits sum.splits option.splits)

lemma main_loop_exits: "main_loop_exit es ts s = Some s' \<Longrightarrow> main_loop es ts s = Inl (Exit 1)"
proof (induction es arbitrary: ts s)
  case (Cons e es)
  then show ?case by (auto dest: client_turn_exits split: sum.splits prod.splits if_splits)
qed simp

text \<open>What is kept and sent up to the exit.\<close>

context kept_rows
begin

lemma parse_loop_exit_kept: "parse_loop_exit n runs i ts s = Some s' \<Longrightarrow> f s' = f s"
proof (induction n arbitrary: i ts s)
  case (Suc n)
  have "yyparse_exit (runs i) ts s = Some s' \<Longrightarrow> f s' = f s"
    by (auto simp: yyparse_exit_def dest: do_reports_kept split: prod.splits sum.splits if_splits)
  with Suc show ?case by (auto dest: yyparse_kept split: sum.splits prod.splits if_splits)
qed simp

end

lemma client_turn_exit_kept: "client_turn_exit e ts s = Some s' \<Longrightarrow> settings s' = settings s"
  by (auto simp: client_turn_exit_def st.noted_kept st.flags dest!: st.parse_loop_exit_kept st.key_step_kept
      split: if_splits sum.splits option.splits)

lemma client_turn_exit_sent:
  assumes "client_turn_exit e ts s = Some s'"
  shows "\<exists>cs. sent (c_out s') = sent (c_out s) @ map (\<lambda>c. c @ [LF]) cs \<and> set cs \<subseteq> set cmd"
proof -
  obtain s1 runs where "key_step e (noted e s) = Inr s1" "parse_loop_exit 4 runs 0 ts (s1\<lparr>yacc_eof := 0\<rparr>) = Some s'"
    using assms by (auto simp: client_turn_exit_def split: if_splits sum.splits option.splits)
  then show ?thesis using key_step_sent [of e "noted e s" s1] sn.parse_loop_exit_kept [of 4 runs 0 ts "s1\<lparr>yacc_eof := 0\<rparr>" s']
    by (simp add: sn.noted_kept sn.flags)
qed

lemma main_loop_exit_kept: "main_loop_exit es ts s = Some s' \<Longrightarrow> settings s' = settings s"
proof (induction es arbitrary: ts s)
  case (Cons e es)
  then show ?case by (auto dest: client_turn_exit_kept st.client_turn_kept split: sum.splits prod.splits if_splits)
qed simp

lemma main_loop_exit_sent:
  assumes "main_loop_exit es ts s = Some s'"
  shows "\<exists>cs. sent (c_out s') = sent (c_out s) @ map (\<lambda>c. c @ [LF]) cs \<and> set cs \<subseteq> set cmd"
  using assms
proof (induction es arbitrary: ts s)
  case (Cons e es)
  show ?case
  proof (cases "client_turn e ts s")
    case (Inl x)
    with Cons.prems client_turn_exit_sent show ?thesis by (auto split: if_splits)
  next
    case (Inr y)
    then obtain stop us s1 where s1: "client_turn e ts s = Inr (stop, us, s1)" by (cases y) simp
    with Cons.prems have "main_loop_exit es us s1 = Some s'" by (auto split: if_splits)
    from Cons.IH [OF this] client_turn_sent [OF s1] obtain cs ds where
      "sent (c_out s') = sent (c_out s) @ map (\<lambda>c. c @ [LF]) (cs @ ds)" "set (cs @ ds) \<subseteq> set cmd" by auto
    then show ?thesis by (intro exI [of _ "cs @ ds"]) simp
  qed
qed simp

section \<open>All ends\<close>

text \<open>The state in which a run ends that has got through \<open>init_fifo\<close>: by \<open>q\<close>, an error or the end of the FIFO, by
  a signal, or by a parse error.\<close>

definition client_ends :: "program_env \<Rightarrow> client \<Rightarrow> client option" where
  "client_ends p s =
     (case client_main p s of Inr s' \<Rightarrow> Some s'
      | Inl x \<Rightarrow>
          (case read_command_line (pr_tmp p) (pr_control_fifo p) (pr_log_ok p) (pr_options p) s of Inl x \<Rightarrow> None
           | Inr s1 \<Rightarrow>
               (case init_fifo (pr_fifo p) (screen_init (pr_junk p) (pr_size p) s1) of Inl x \<Rightarrow> None
                | Inr s3 \<Rightarrow>
                    map_option (\<lambda>s4. close_screen (close_fifo s4)) (main_loop_exit (pr_turns p) (pr_tokens p) (s3\<lparr>quit := 0\<rparr>)))))"

text \<open>C14: the conversation of a run of the client that has found diald, whatever the options, the user, diald
  and the signals do, and also when it ends at a parse error.  First it asks for reports, once; then it sends commands of its list and nothing else, each with
  a line end; at the end it closes its two descriptors, removes its FIFO and gives the terminal back,
  in this order.\<close>

theorem client_conversation:
  assumes "client_ends p s = Some s'" and "c_out s = []"
  shows "\<exists>cs es. sent (c_out s') = (monitor_request s' @ [LF]) # map (\<lambda>c. c @ [LF]) cs \<and> set cs \<subseteq> set cmd \<and>
    c_monitor s' = pr_tmp p \<and>
    c_out s' = es @ [CloseFd (c_controlfd s'), CloseFd (c_monitorfd s'), RemoveFifo (pr_tmp p), EndWin]"
proof -
  obtain s1 s3 s4 s5 where
    p: "read_command_line (pr_tmp p) (pr_control_fifo p) (pr_log_ok p) (pr_options p) s = Inr s1"
      "init_fifo (pr_fifo p) (screen_init (pr_junk p) (pr_size p) s1) = Inr s3"
      "main_loop (pr_turns p) (pr_tokens p) (s3\<lparr>quit := 0\<rparr>) = Inr s4 \<or>
       main_loop_exit (pr_turns p) (pr_tokens p) (s3\<lparr>quit := 0\<rparr>) = Some s4"
      "s5 = s4 \<or> s5 = handlesig (pr_signal p) s4" "s' = close_screen (close_fifo s5)"
  proof (cases "client_main p s")
    case (Inl x)
    then show thesis using assms(1) that by (auto simp: client_ends_def split: sum.splits)
  next
    case (Inr y)
    then have "client_main p s = Inr s'" using assms(1) by (simp add: client_ends_def)
    from client_main_parts [OF this] that show thesis by metis
  qed
  have "settings s4 = settings s3" using p(3) st.main_loop_kept main_loop_exit_kept st.flags(1) by metis
  moreover obtain cs where "sent (c_out s4) = sent (c_out s3) @ map (\<lambda>c. c @ [LF]) cs" "set cs \<subseteq> set cmd"
    using p(3) main_loop_sent [of "pr_turns p" "pr_tokens p" "s3\<lparr>quit := 0\<rparr>" s4]
      main_loop_exit_sent [of "pr_turns p" "pr_tokens p" "s3\<lparr>quit := 0\<rparr>" s4] by auto
  ultimately show ?thesis using run_conversation [OF p(1,2) assms(2) _ _ _ p(4,5)] by blast
qed

lemma client_conversation_witness:
  "\<exists>s' es. client_ends ex_program ex_globals = Some s' \<and>
    c_out s' = es @ [CloseFd (c_controlfd s'), CloseFd (c_monitorfd s'), RemoveFifo ''/tmp/m'', EndWin]"
proof -
  obtain s' where s': "client_main ex_program ex_globals = Inr s'" using ex_program_runs by blast
  then have "client_ends ex_program ex_globals = Some s'" by (simp add: client_ends_def)
  moreover have "c_out ex_globals = []" "pr_tmp ex_program = ''/tmp/m''"
    by (simp_all add: ex_globals_def ex_client_def ex_program_def)
  ultimately show ?thesis using client_conversation [of ex_program ex_globals s'] by auto
qed

end
