(* ===== verification/Tester.thy ===== *)
theory Tester
  imports MonitorParse Commands
begin

text \<open>
  The test program of the parser (\<open>client/tester.c\<close>, and \<open>client/parser.c\<close> compiled with \<open>TESTER\<close>): it
  parses a file until its end and prints every report and the result of every run of the parser.  The
  lemmas show that it ends when its input holds no empty line (on other input the scanner need not end), and what
  it prints for reports as diald writes them.
\<close>

section \<open>Printing reports\<close>

text \<open>The handlers of \<open>parser.c\<close> as \<open>TESTER\<close> has them.\<close>

fun tester_print :: "call \<Rightarrow> string" where
  "tester_print (Do_status ns ws) =
     ''Status:  up = '' @ show_int (ns ! 0) @ ''; force = '' @ show_int (ns ! 1) @ ''; im = '' @ show_int (ns ! 2) @
     ''; im_itm = '' @ show_int (ns ! 3) @ ''; im_tm = '' @ show_int (ns ! 4) @ '';'' @ [LF, CHR 0x09] @
     ''im_fuzz = '' @ show_int (ns ! 5) @ ''; im_to = '' @ ws ! 0 @ ''; force_to = '' @ ws ! 1 @ ''; to = '' @ ws ! 2 @ [LF]"
| "tester_print (Do_load tx rx) = ''Load: Tx = '' @ show_int tx @ ''; Rx = '' @ show_int rx @ [LF]"
| "tester_print (Do_interface i l r) = ''Interface: IF = '' @ i @ ''; Local IP = '' @ l @ ''; Remote IP = '' @ r @ [LF]"
| "tester_print (Do_state w) = ''State:  '' @ w @ [LF]"
| "tester_print (Do_message m) = ''Message:  '' @ m @ [LF]"
| "tester_print Do_queue = ''Start Queue'' @ [LF]"
| "tester_print (Do_packet p) = ''Packet: Protocol = '' @ protocol p @ ''; From = '' @ ip1 p @ ''/'' @ show_int (port1 p) @
     ''; To = '' @ ip2 p @ ''/'' @ show_int (port2 p) @ ''; TTL = '' @ ttl p @ [LF]"
| "tester_print Do_endqueue = ''End Queue'' @ [LF]"

section \<open>main\<close>

text \<open>\<open>atoi\<close> on any text: blanks, a sign, digits.\<close>

definition atoi_text :: "string \<Rightarrow> int" where
  "atoi_text w =
     (let u = dropWhile isspace w;
          v = (if u \<noteq> [] \<and> (hd u = CHR ''-'' \<or> hd u = CHR ''+'') then tl u else u);
          n = int (read_nat (takeWhile is_digit v))
      in signed_take_bit 31 (if u \<noteq> [] \<and> hd u = CHR ''-'' then max (- n) (- (2 ^ 63)) else min n (2 ^ 63 - 1)))"

text \<open>\<open>lex_testkey\<close> is 0 in the test program, and nothing sets \<open>quit_if_parse_error\<close>; \<open>ptr\<close> is the number a
  pointer prints as.\<close>

definition tester_env :: "(string \<Rightarrow> int) \<Rightarrow> parse_env" where
  "tester_env ptr = \<lparr>pe_quit = False, pe_key = (\<lambda>_. False), pe_pointer = ptr\<rparr>"

text \<open>The start of \<open>main\<close>: the debugging level and the input, a file named by the second argument if it can be
  opened.  The input comes in pieces.\<close>

definition tester_setup :: "(string \<Rightarrow> string list option) \<Rightarrow> string list \<Rightarrow> string list \<Rightarrow> int \<times> string list" where
  "tester_setup fopen stdin argv =
     (let yydebug = (if length argv \<ge> 2 then atoi_text (argv ! 1) else 0);
          yyin = (if length argv \<ge> 3 then (case fopen (argv ! 2) of None \<Rightarrow> stdin | Some ws \<Rightarrow> ws) else stdin)
      in (yydebug, yyin))"

text \<open>What \<open>yyparse\<close> returns.\<close>

definition parse_result :: "outcome \<Rightarrow> int" where
  "parse_result out = (if out = Aborted then 1 else 0)"

definition result_line :: "int \<Rightarrow> string" where
  "result_line ret = ''Parse Result = '' @ show_int ret @ [LF, LF]"

text \<open>A run leaves fewer tokens unless it meets the end of the file.\<close>

lemma yyloop_rest:
  "yyloop e st es cs ts = (out, cs', us) \<Longrightarrow> out = Accepted \<or> out = Blocked \<Longrightarrow> length us < length ts"
proof (induction ts arbitrary: st es cs)
  case Nil
  have "at_eof e st es \<noteq> Accepted \<and> at_eof e st es \<noteq> Blocked" by (cases st) simp_all
  with Nil show ?case by auto
next
  case (Cons t ts)
  then show ?case by (auto split: move.splits dest!: Cons.IH)
qed

lemma monitor_parse_rest:
  "monitor_parse e ts = (out, cs, us) \<Longrightarrow> out \<noteq> Exited \<Longrightarrow> out \<noteq> Ended \<Longrightarrow> out \<noteq> Aborted \<Longrightarrow> length us < length ts"
  unfolding monitor_parse_def by (erule yyloop_rest) (cases out; simp)

text \<open>The loop of \<open>main\<close>: what is printed, and what \<open>main\<close> returns.\<close>

function tester_loop :: "(string \<Rightarrow> int) \<Rightarrow> token list \<Rightarrow> string \<times> int" where
  "tester_loop ptr ts =
     (case monitor_parse (tester_env ptr) ts of (out, cs, us) \<Rightarrow>
        let printed = concat (map tester_print cs) in
        if out = Exited then (printed, 1)
        else let ret = parse_result out; line = printed @ result_line ret in
             if out = Ended \<or> out = Aborted then (line, ret)
             else let (rest, ret') = tester_loop ptr us in (line @ rest, ret'))"
  by pat_completeness auto

termination
  by (relation "measure (\<lambda>(_, ts). length ts)") (auto dest: monitor_parse_rest [OF sym])

declare tester_loop.simps [simp del]

text \<open>\<open>main\<close>: what is printed on standard output and what is returned; \<open>None\<close> when the scanner does not end.\<close>

definition tester_main ::
  "(string \<Rightarrow> int) \<Rightarrow> (string \<Rightarrow> string list option) \<Rightarrow> string list \<Rightarrow> string list \<Rightarrow> (string \<times> int) option" where
  "tester_main ptr fopen stdin argv =
     map_option (tester_loop ptr) (lex_input INITIAL (arrive (snd (tester_setup fopen stdin argv))))"

section \<open>What is printed\<close>

text \<open>The output for a report; behind a load report the parser returns.\<close>

definition block_output :: "block \<Rightarrow> string" where
  "block_output b = concat (map tester_print (block_calls b)) @ (if is_load b then result_line 0 else [])"

text \<open>The output from the middle of a run, \<open>cs\<close> being the calls of the run so far.\<close>

definition run_output :: "(string \<Rightarrow> int) \<Rightarrow> outcome \<times> call list \<times> token list \<Rightarrow> string \<times> int" where
  "run_output ptr r =
     (case r of (out, cs, us) \<Rightarrow>
        let printed = concat (map tester_print cs) in
        if out = Exited then (printed, 1)
        else let ret = parse_result out; line = printed @ result_line ret in
             if out = Ended \<or> out = Aborted then (line, ret)
             else let (rest, ret') = tester_loop ptr us in (line @ rest, ret'))"

lemma tester_loop_run: "tester_loop ptr ts = run_output ptr (yyloop (tester_env ptr) Top 0 [] ts)"
  by (subst tester_loop.simps) (simp add: run_output_def monitor_parse_def)

lemma run_output_blocks:
  assumes "list_all block_ok bs"
  shows "run_output ptr (yyloop (tester_env ptr) Top 0 cs (concat (map block_tokens bs))) =
    (concat (map tester_print cs) @ concat (map block_output bs) @ result_line 0, 0)"
  using assms
proof (induction bs arbitrary: cs)
  case Nil
  then show ?case by (simp add: run_output_def parse_result_def)
next
  case (Cons b bs)
  let ?ts = "concat (map block_tokens bs)"
  show ?case
  proof (cases "is_load b")
    case True
    then obtain tx rx where b: "b = Report (Do_load tx rx)" by (cases b rule: is_load.cases) simp_all
    have "tester_loop ptr ?ts = (concat (map block_output bs) @ result_line 0, 0)"
      using Cons.IH [of "[]"] Cons.prems by (simp add: tester_loop_run)
    then show ?thesis
      using parse_load [of "tester_env ptr" 0 cs tx rx ?ts]
      by (simp add: b run_output_def parse_result_def block_output_def [of "Report _"] del: call_tokens.simps tester_print.simps)
  next
    case False
    then show ?thesis
      using parse_block [of b "tester_env ptr" cs 0 ?ts] Cons.IH [of "cs @ block_calls b"] Cons.prems
      by (simp add: tester_env_def block_output_def)
  qed
qed

text \<open>The program ends on a file without an empty line.\<close>

lemma tester_ends:
  assumes "tester_setup fopen stdin argv = (dbg, ws)" and "[] \<notin> set ws" and "\<not> blank_line (LF # concat ws)"
  shows "tester_main ptr fopen stdin argv \<noteq> None"
proof -
  have "calm (arrive ws)" using pieces_arrive [OF assms(2), of "[]" "[]"] assms(3) by (simp add: calm_def)
  then show ?thesis using lex_input_ends [of "arrive ws" INITIAL] assms(1) by (auto simp: tester_main_def)
qed

text \<open>C22: on a file of reports and packet queues as diald writes them, the test program ends.  It
  prints each of them with its values, in order, and a result of 0 behind each load
  report and at the end of the file; then it returns 0.\<close>

theorem tester_prints_reports:
  assumes "list_all block_ok bs" and "tester_setup fopen stdin argv = (dbg, ws)"
    and "concat ws = reports_text bs" "[] \<notin> set ws"
  shows "tester_main ptr fopen stdin argv = Some (concat (map block_output bs) @ result_line 0, 0)"
proof -
  obtain ts where "lex_input INITIAL (arrive ws) = Some ts" "ts = concat (map block_tokens bs)"
    using lex_reports [OF assms(1)] by (simp add: lex_input_arrive [OF assms(4)] assms(3))
  then show ?thesis
    using run_output_blocks [OF assms(1), of ptr "[]"] assms(2) by (simp add: tester_main_def tester_loop_run)
qed

lemma tester_prints_reports_witness:
  "tester_main (\<lambda>_. 0) (\<lambda>_. Some [reports_text [Report (Do_load 12 340), Report (Do_state ''UP'')]]) [] [''tester'', ''0'', ''log''] =
      Some (''Load: Tx = 12; Rx = 340'' @ [LF] @ ''Parse Result = 0'' @ [LF, LF] @ ''State:  UP'' @ [LF] @ ''Parse Result = 0'' @ [LF, LF], 0)"
proof -
  let ?bs = "[Report (Do_load 12 340), Report (Do_state ''UP'')]"
  have ok: "list_all block_ok ?bs" by (simp add: is_num_def is_word_def nondigit_def noslash_def is_digit_def)
  have "concat (map block_output ?bs) @ result_line 0 =
      ''Load: Tx = 12; Rx = 340'' @ [LF] @ ''Parse Result = 0'' @ [LF, LF] @ ''State:  UP'' @ [LF] @ ''Parse Result = 0'' @ [LF, LF]"
    by code_simp
  moreover have "tester_setup (\<lambda>_. Some [reports_text ?bs]) [] [''tester'', ''0'', ''log''] = (atoi_text ''0'', [reports_text ?bs])"
    by (simp add: tester_setup_def)
  moreover have "reports_text ?bs \<noteq> []" by (simp add: reports_text_def nl_def)
  ultimately show ?thesis using tester_prints_reports [OF ok, where ws = "[reports_text ?bs]" and ptr = "\<lambda>_. 0"] by simp
qed

end
