(* ===== verification/Semaphores.thy ===== *)
theory Semaphores
  imports C_Prelude
begin

text \<open>
  The semaphore of the client library (\<open>client-lib/semaphores.c\<close>, built on POSIX threads): a counter under
  a mutex with a condition variable.  The two operations are the lists of their statements; any
  number of threads run them, interleaved one statement at a time.  The lemmas show that the mutex
  protects the counter, that no wake-up is lost, that the counter stays at or above zero while one
  thread takes and the system wakes nobody by itself, and that it does not when two threads take or a
  thread wakes up without a signal.
\<close>

section \<open>The operations\<close>

text \<open>The statements of the two operations.  \<open>WaitIfZero\<close> is the \<open>if\<close> with the call of
  \<open>pthread_cond_wait\<close>; \<open>CondWait\<close> is the second half of that call, which waits for the signal and takes
  the mutex again.\<close>

datatype stmt = MutexLock | WaitIfZero | CondWait | Decrement | Increment | CondSignal | MutexUnlock

definition SemaphoreTake :: "stmt list" where
  "SemaphoreTake = [MutexLock, WaitIfZero, Decrement, MutexUnlock]"

definition SemaphoreGive :: "stmt list" where
  "SemaphoreGive = [MutexLock, Increment, CondSignal, MutexUnlock]"

text \<open>The semaphore and the threads at it: the owner of the mutex, the threads asleep at the condition
  variable, the counter, and what each thread has left to do of its call.\<close>

record SemID_t =
  mutex :: "nat option"
  asleep :: "nat set"
  sem_value :: int
  code :: "nat \<Rightarrow> stmt list"

definition SemaphoreCreate :: "int \<Rightarrow> SemID_t" where
  "SemaphoreCreate initVal = \<lparr>mutex = None, asleep = {}, sem_value = initVal, code = (\<lambda>t. [])\<rparr>"

definition go_on :: "nat \<Rightarrow> stmt list \<Rightarrow> SemID_t \<Rightarrow> SemID_t" where
  "go_on t c s = s\<lparr>code := (code s)(t := c)\<rparr>"

text \<open>A thread executes its next statement, unless it is blocked.  \<open>w\<close> is the sleeping thread a signal
  wakes up; a signal with nobody asleep does nothing.\<close>

fun exec :: "nat \<Rightarrow> nat \<Rightarrow> stmt list \<Rightarrow> SemID_t \<Rightarrow> SemID_t option" where
  "exec t w [] s = None"
| "exec t w (MutexLock # c) s = (if mutex s = None then Some (go_on t c (s\<lparr>mutex := Some t\<rparr>)) else None)"
| "exec t w (WaitIfZero # c) s =
     Some (if sem_value s = 0 then go_on t (CondWait # c) (s\<lparr>mutex := None, asleep := insert t (asleep s)\<rparr>)
           else go_on t c s)"
| "exec t w (CondWait # c) s =
     (if t \<notin> asleep s \<and> mutex s = None then Some (go_on t c (s\<lparr>mutex := Some t\<rparr>)) else None)"
| "exec t w (Decrement # c) s = Some (go_on t c (s\<lparr>sem_value := sem_value s - 1\<rparr>))"
| "exec t w (Increment # c) s = Some (go_on t c (s\<lparr>sem_value := sem_value s + 1\<rparr>))"
| "exec t w (CondSignal # c) s =
     (if asleep s = {} \<or> w \<in> asleep s then Some (go_on t c (s\<lparr>asleep := asleep s - {w}\<rparr>)) else None)"
| "exec t w (MutexUnlock # c) s = Some (go_on t c (s\<lparr>mutex := None\<rparr>))"

text \<open>What happens: an idle thread calls an operation, a thread executes a statement, or a sleeping thread
  wakes up though no signal was meant for it.  POSIX allows this, both when nobody signals and when a
  signal wakes more threads than one.\<close>

datatype action = Take nat | Give nat | Run nat nat | Wake nat

fun sem_act :: "action \<Rightarrow> SemID_t \<Rightarrow> SemID_t option" where
  "sem_act (Take t) s = (if code s t = [] then Some (go_on t SemaphoreTake s) else None)"
| "sem_act (Give t) s = (if code s t = [] then Some (go_on t SemaphoreGive s) else None)"
| "sem_act (Run t w) s = exec t w (code s t) s"
| "sem_act (Wake t) s = (if t \<in> asleep s then Some (s\<lparr>asleep := asleep s - {t}\<rparr>) else None)"

fun sem_run :: "action list \<Rightarrow> SemID_t \<Rightarrow> SemID_t option" where
  "sem_run [] s = Some s"
| "sem_run (a # as) s = Option.bind (sem_act a s) (sem_run as)"

section \<open>Invariants\<close>

definition past_wait :: "stmt list" where
  "past_wait = [CondWait, Decrement, MutexUnlock]"

definition in_section :: "stmt list \<Rightarrow> bool" where
  "in_section c \<longleftrightarrow> c \<in> set [[WaitIfZero, Decrement, MutexUnlock], [Decrement, MutexUnlock],
     [Increment, CondSignal, MutexUnlock], [CondSignal, MutexUnlock], [MutexUnlock]]"

text \<open>The mutex is held by the thread inside its critical section, so there is at most one.\<close>

definition sem_ok :: "SemID_t \<Rightarrow> bool" where
  "sem_ok s \<longleftrightarrow> (\<forall>t. code s t \<in> {[], SemaphoreTake, SemaphoreGive, past_wait} \<or> in_section (code s t)) \<and>
     (\<forall>t. in_section (code s t) \<longleftrightarrow> mutex s = Some t) \<and>
     (\<forall>t \<in> asleep s. code s t = past_wait) \<and> finite {t. code s t \<noteq> []}"

lemmas sem_code = SemaphoreTake_def SemaphoreGive_def past_wait_def in_section_def

lemma sem_run_keeps:
  assumes "\<And>a s s'. P s \<Longrightarrow> sem_act a s = Some s' \<Longrightarrow> a \<in> set as \<Longrightarrow> P s'" and "P s" and "sem_run as s = Some s'"
  shows "P s'"
  using assms
proof (induction as arbitrary: s)
  case (Cons a as)
  then obtain s1 where "sem_act a s = Some s1" "sem_run as s1 = Some s'" by (auto simp: bind_eq_Some_conv)
  with Cons show ?case by (metis list.set_intros)
qed simp


lemma sem_ok_create: "sem_ok (SemaphoreCreate v)"
  by (simp add: sem_ok_def SemaphoreCreate_def in_section_def)

lemma finite_go_on [simp]: "finite {u. code s u \<noteq> []} \<Longrightarrow> finite {u. ((code s)(t := c)) u \<noteq> []}"
  by (rule finite_subset [of _ "insert t {u. code s u \<noteq> []}"]) (auto split: if_splits)

lemma sem_okD:
  assumes "sem_ok s"
  shows "code s t \<in> {[], SemaphoreTake, SemaphoreGive, past_wait} \<or> in_section (code s t)"
    and "in_section (code s t) \<longleftrightarrow> mutex s = Some t" and "t \<in> asleep s \<Longrightarrow> code s t = past_wait"
    and "finite {t. code s t \<noteq> []}"
  using assms by (auto simp: sem_ok_def)

text \<open>The steps of a thread, one case for each statement it can be at.\<close>

lemma run_cases:
  assumes "sem_ok s" and "sem_act (Run t w) s = Some s'"
  obtains (lock) c where "code s t = MutexLock # c" "MutexLock # c = SemaphoreTake \<or> MutexLock # c = SemaphoreGive"
      "mutex s = None" "t \<notin> asleep s" "s' = go_on t c (s\<lparr>mutex := Some t\<rparr>)"
  | (sleep) "code s t = [WaitIfZero, Decrement, MutexUnlock]" "mutex s = Some t" "sem_value s = 0"
      "s' = go_on t past_wait (s\<lparr>mutex := None, asleep := insert t (asleep s)\<rparr>)"
  | (pass) "code s t = [WaitIfZero, Decrement, MutexUnlock]" "mutex s = Some t" "sem_value s \<noteq> 0" "t \<notin> asleep s"
      "s' = go_on t [Decrement, MutexUnlock] s"
  | (woken) "code s t = past_wait" "t \<notin> asleep s" "mutex s = None"
      "s' = go_on t [Decrement, MutexUnlock] (s\<lparr>mutex := Some t\<rparr>)"
  | (dec) "code s t = [Decrement, MutexUnlock]" "mutex s = Some t" "t \<notin> asleep s"
      "s' = go_on t [MutexUnlock] (s\<lparr>sem_value := sem_value s - 1\<rparr>)"
  | (inc) "code s t = [Increment, CondSignal, MutexUnlock]" "mutex s = Some t" "t \<notin> asleep s"
      "s' = go_on t [CondSignal, MutexUnlock] (s\<lparr>sem_value := sem_value s + 1\<rparr>)"
  | (signal) "code s t = [CondSignal, MutexUnlock]" "mutex s = Some t" "t \<notin> asleep s" "asleep s = {} \<or> w \<in> asleep s"
      "s' = go_on t [MutexUnlock] (s\<lparr>asleep := asleep s - {w}\<rparr>)"
  | (unlock) "code s t = [MutexUnlock]" "mutex s = Some t" "t \<notin> asleep s" "s' = go_on t [] (s\<lparr>mutex := None\<rparr>)"
proof -
  note d = sem_okD(1) [OF assms(1), of t] sem_okD(2) [OF assms(1), of t] sem_okD(3) [OF assms(1), of t]
  from d(1) consider "code s t = []" | "code s t = SemaphoreTake" | "code s t = SemaphoreGive" | "code s t = past_wait" |
    "in_section (code s t)" by blast
  then show thesis
  proof cases
    case 5
    with d(2) have m: "mutex s = Some t" by blast
    from 5 d(3) have a: "t \<notin> asleep s" by (auto simp: in_section_def past_wait_def)
    from 5 m a that(2,3,5,6,7,8) assms(2) show thesis
      by (auto simp: in_section_def past_wait_def split: if_splits)
  qed (use assms(2) d(3) that(1,4) in \<open>auto simp: SemaphoreTake_def SemaphoreGive_def past_wait_def split: if_splits\<close>)
qed

lemma go_on_simps [simp]:
  "asleep (go_on t c s) = asleep s" "sem_value (go_on t c s) = sem_value s" "mutex (go_on t c s) = mutex s"
  "code (go_on t c s) = (code s)(t := c)"
  by (simp_all add: go_on_def)

lemma sem_ok_step:
  assumes "sem_ok s" and upd: "code s' = (code s)(t := c)"
    and "c \<in> {[], SemaphoreTake, SemaphoreGive, past_wait} \<or> in_section c"
    and "in_section c \<longleftrightarrow> mutex s' = Some t" "\<forall>u. u \<noteq> t \<longrightarrow> (mutex s = Some u \<longleftrightarrow> mutex s' = Some u)"
    and "asleep s' \<subseteq> insert t (asleep s)" "t \<in> asleep s' \<longrightarrow> c = past_wait"
  shows "sem_ok s'"
proof -
  have "code s' u \<in> {[], SemaphoreTake, SemaphoreGive, past_wait} \<or> in_section (code s' u)" for u
    using sem_okD(1) [OF assms(1), of u] assms(3) upd by simp
  moreover have "in_section (code s' u) \<longleftrightarrow> mutex s' = Some u" for u
    using sem_okD(2) [OF assms(1), of u] assms(4,5) upd by auto
  moreover have "\<forall>u \<in> asleep s'. code s' u = past_wait"
    using sem_okD(3) [OF assms(1)] assms(6,7) upd by auto
  ultimately show ?thesis
    using finite_go_on [OF sem_okD(4) [OF assms(1)], of t c] upd unfolding sem_ok_def by simp
qed

lemma sem_ok_wake: "sem_ok s \<Longrightarrow> sem_ok (s\<lparr>asleep := asleep s - {t}\<rparr>)"
  by (auto simp: sem_ok_def)

lemma sem_ok_act:
  assumes "sem_ok s" and "sem_act a s = Some s'"
  shows "sem_ok s'"
proof -
  have idle: "code s t = [] \<Longrightarrow> c = SemaphoreTake \<or> c = SemaphoreGive \<Longrightarrow> sem_ok (go_on t c s)" for t c
    using sem_okD(2) [OF assms(1), of t] sem_okD(3) [OF assms(1), of t]
    by (intro sem_ok_step [OF assms(1), of _ t c]) (auto simp: sem_code)
  show ?thesis
  proof (cases a)
    case (Run t w)
    note step = sem_ok_step [OF assms(1), of s' t]
    from assms(1) assms(2) [unfolded Run] show ?thesis
    proof (cases rule: run_cases)
      case (lock c)
      with step [of c] show ?thesis by (auto simp: sem_code)
    next
      case sleep
      with step [of past_wait] show ?thesis by (simp add: sem_code)
    next
      case pass
      with step [of "[Decrement, MutexUnlock]"] show ?thesis by (auto simp: sem_code)
    next
      case woken
      with step [of "[Decrement, MutexUnlock]"] show ?thesis by (auto simp: sem_code)
    next
      case dec
      with step [of "[MutexUnlock]"] show ?thesis by (auto simp: sem_code)
    next
      case inc
      with step [of "[CondSignal, MutexUnlock]"] show ?thesis by (auto simp: sem_code)
    next
      case signal
      with step [of "[MutexUnlock]"] show ?thesis by (auto simp: sem_code)
    next
      case unlock
      with step [of "[]"] show ?thesis by (auto simp: sem_code)
    qed
  qed (use assms(2) idle sem_ok_wake [OF assms(1)] in \<open>auto split: if_splits\<close>)
qed

text \<open>The threads that will use the counter: those at the decrement, those woken up, and one that is
  about to signal.\<close>

definition pending :: "SemID_t \<Rightarrow> nat set" where
  "pending s = {t. t \<notin> asleep s \<and> code s t \<in> {past_wait, [Decrement, MutexUnlock], [CondSignal, MutexUnlock]}}"

text \<open>No wake-up is lost: while a thread sleeps, each unit of the counter has a thread that will use it.\<close>

definition wake_ok :: "SemID_t \<Rightarrow> bool" where
  "wake_ok s \<longleftrightarrow> asleep s \<noteq> {} \<longrightarrow> sem_value s \<le> int (card (pending s))"

lemma finite_pending: "sem_ok s \<Longrightarrow> finite (pending s)"
  by (rule finite_subset [of _ "{t. code s t \<noteq> []}"]) (auto simp: pending_def past_wait_def sem_okD(4))

lemma wake_ok_create: "wake_ok (SemaphoreCreate v)"
  by (simp add: wake_ok_def SemaphoreCreate_def)

lemma pending_call [simp]:
  assumes "code s t = []" and "c = SemaphoreTake \<or> c = SemaphoreGive"
  shows "pending (go_on t c s) = pending s"
  using assms by (auto simp: pending_def go_on_def sem_code)

lemma wake_ok_act:
  assumes "sem_ok s" "wake_ok s" and "sem_act a s = Some s'"
  shows "wake_ok s'"
proof -
  note fin = finite_pending [OF assms(1)]
  show ?thesis
  proof (cases a)
    case (Run t w)
    from assms(1) assms(3) [unfolded Run] show ?thesis
    proof (cases rule: run_cases)
      case (lock c)
      then have "pending s' = pending s" by (auto simp: pending_def go_on_def sem_code split: if_splits)
      with lock assms(2) show ?thesis by (simp add: wake_ok_def go_on_def)
    next
      case sleep
      then show ?thesis by (simp add: wake_ok_def go_on_def)
    next
      case pass
      then have "pending s' = insert t (pending s)" by (auto simp: pending_def go_on_def)
      with pass assms(2) fin show ?thesis by (auto simp: wake_ok_def go_on_def card_insert_if)
    next
      case woken
      then have "pending s' = pending s" by (auto simp: pending_def go_on_def)
      with woken assms(2) show ?thesis by (simp add: wake_ok_def go_on_def)
    next
      case dec
      then have "pending s' = pending s - {t}" "t \<in> pending s" by (auto simp: pending_def go_on_def past_wait_def)
      then have "int (card (pending s)) = int (card (pending s')) + 1" using card.remove [OF fin, of t] by simp
      with dec assms(2) show ?thesis by (auto simp: wake_ok_def)
    next
      case inc
      then have "pending s' = insert t (pending s)" "t \<notin> pending s" by (auto simp: pending_def go_on_def past_wait_def)
      with inc assms(2) fin show ?thesis by (simp add: wake_ok_def go_on_def)
    next
      case signal
      show ?thesis
      proof (cases "w \<in> asleep s")
        case True
        then have "w \<noteq> t" "code s w = past_wait" using signal sem_okD(3) [OF assms(1)] by auto
        then have "pending s' = insert w (pending s - {t})" "t \<in> pending s" "w \<notin> pending s - {t}"
          using signal True by (auto simp: pending_def go_on_def past_wait_def)
        then have "card (pending s') = card (pending s)" using fin card_Suc_Diff1 [OF fin, of t] by simp
        with signal True assms(2) show ?thesis by (auto simp: wake_ok_def go_on_def)
      qed (use signal in \<open>simp add: wake_ok_def go_on_def\<close>)
    next
      case unlock
      then have "pending s' = pending s" by (auto simp: pending_def go_on_def past_wait_def split: if_splits)
      with unlock assms(2) show ?thesis by (simp add: wake_ok_def go_on_def)
    qed
  next
    case (Wake t)
    then have t: "t \<in> asleep s" "s' = s\<lparr>asleep := asleep s - {t}\<rparr>" using assms(3) by (simp_all split: if_splits)
    with sem_okD(3) [OF assms(1) t(1)] have "pending s' = insert t (pending s)" by (auto simp: pending_def)
    then have "card (pending s) \<le> card (pending s')" using fin by (simp add: card_insert_le)
    with t assms(2) show ?thesis by (auto simp: wake_ok_def)
  qed (use assms(2,3) in \<open>auto simp: wake_ok_def split: if_splits\<close>)
qed


text \<open>While only the thread \<open>u\<close> takes, and it wakes up only at a signal, a unit is there whenever a thread is about to use it.\<close>

definition one_taker :: "nat \<Rightarrow> SemID_t \<Rightarrow> bool" where
  "one_taker u s \<longleftrightarrow> 0 \<le> sem_value s \<and> (pending s \<noteq> {} \<longrightarrow> 1 \<le> sem_value s) \<and>
     (\<forall>t. t \<noteq> u \<longrightarrow> code s t \<notin> {SemaphoreTake, past_wait, [WaitIfZero, Decrement, MutexUnlock], [Decrement, MutexUnlock]})"

lemma one_taker_act:
  assumes "sem_ok s" "one_taker u s" and "sem_act a s = Some s'" and "\<And>t. a = Take t \<Longrightarrow> t = u" "\<And>t. a \<noteq> Wake t"
  shows "one_taker u s'"
proof (cases a)
  case (Run t w)
  from assms(1) assms(3) [unfolded Run] show ?thesis
  proof (cases rule: run_cases)
    case (lock c)
    then have "pending s' = pending s" by (auto simp: pending_def go_on_def sem_code split: if_splits)
    with lock assms(2) show ?thesis by (auto simp: one_taker_def go_on_def sem_code)
  next
    case sleep
    then have "pending s' \<subseteq> pending s" by (auto simp: pending_def go_on_def)
    with sleep assms(2) show ?thesis by (auto simp: one_taker_def go_on_def sem_code)
  next
    case pass
    with assms(2) show ?thesis by (auto simp: one_taker_def go_on_def sem_code)
  next
    case woken
    then have "pending s' = pending s" by (auto simp: pending_def go_on_def)
    with woken assms(2) show ?thesis by (auto simp: one_taker_def go_on_def sem_code)
  next
    case dec
    then have tu: "t = u" "t \<in> pending s" using assms(2) by (auto simp: one_taker_def pending_def)
    have "pending s' = {}"
    proof (rule equals0I)
      fix x assume "x \<in> pending s'"
      then have "x \<noteq> t" "x \<in> pending s" using dec by (auto simp: pending_def go_on_def past_wait_def split: if_splits)
      then have "code s x = [CondSignal, MutexUnlock]" using tu assms(2) by (auto simp: pending_def one_taker_def)
      then have "mutex s = Some x" using sem_okD(2) [OF assms(1), of x] by (simp add: in_section_def)
      with dec \<open>x \<noteq> t\<close> show False by simp
    qed
    with dec tu assms(2) show ?thesis by (auto simp: one_taker_def go_on_def sem_code)
  next
    case inc
    with assms(2) show ?thesis by (auto simp: one_taker_def go_on_def sem_code)
  next
    case signal
    then have "t \<in> pending s" by (simp add: pending_def)
    with signal assms(2) show ?thesis by (auto simp: one_taker_def go_on_def sem_code)
  next
    case unlock
    then have "pending s' = pending s" by (auto simp: pending_def go_on_def past_wait_def split: if_splits)
    with unlock assms(2) show ?thesis by (auto simp: one_taker_def go_on_def sem_code)
  qed
qed (use assms(2-5) in \<open>auto simp: one_taker_def sem_code split: if_splits\<close>)

section \<open>Properties\<close>

lemma sem_reach:
  assumes "sem_run as (SemaphoreCreate v) = Some s"
  shows "sem_ok s" and "wake_ok s"
proof -
  have "sem_ok s \<and> wake_ok s"
    by (rule sem_run_keeps [where P = "\<lambda>s. sem_ok s \<and> wake_ok s", OF _ _ assms])
      (blast intro: sem_ok_act wake_ok_act sem_ok_create wake_ok_create)+
  then show "sem_ok s" and "wake_ok s" by auto
qed

text \<open>C31: no wake-up is lost and no thread waits for ever at the mutex.  When the threads, however many
  and however interleaved and woken, have come to a point where none can go on, each unfinished one sleeps in
  \<open>SemaphoreTake\<close> and the counter has nothing to give.\<close>

theorem semaphore_blocks_only_empty:
  assumes "sem_run as (SemaphoreCreate v) = Some s" and "\<forall>u w. sem_act (Run u w) s = None" and "code s t \<noteq> []"
  shows "t \<in> asleep s \<and> sem_value s \<le> 0"
proof -
  note ok = sem_reach [OF assms(1)]
  have sec: "\<not> in_section (code s u)" for u
  proof
    assume "in_section (code s u)"
    moreover obtain w where "asleep s = {} \<or> w \<in> asleep s" by blast
    moreover from assms(2) have "sem_act (Run u w) s = None" by blast
    ultimately show False by (auto simp: in_section_def)
  qed
  then have free: "mutex s = None" using sem_okD(2) [OF ok(1)] by (cases "mutex s") auto
  have all: "code s u = [] \<or> u \<in> asleep s" for u
    using sem_okD(1) [OF ok(1), of u] sec [of u] assms(2) [rule_format, of u u] free by (auto simp: sem_code)
  then have t: "t \<in> asleep s" using assms(3) by blast
  have "u \<notin> pending s" for u using all [of u] by (auto simp: pending_def past_wait_def)
  then have "pending s = {}" by blast
  with t ok(2) show ?thesis by (auto simp: wake_ok_def)
qed


lemma semaphore_blocks_only_empty_witness:
  "1 \<in> asleep (the (sem_run [Take 1, Run 1 0, Run 1 0] (SemaphoreCreate 0)))"
proof -
  let ?s = "go_on 1 past_wait ((SemaphoreCreate 0)\<lparr>asleep := {1}\<rparr>)"
  have run: "sem_run [Take 1, Run 1 0, Run 1 0] (SemaphoreCreate 0) = Some ?s"
    by (simp add: SemaphoreCreate_def SemaphoreTake_def past_wait_def go_on_def)
  have "\<forall>u w. sem_act (Run u w) ?s = None" by (simp add: SemaphoreCreate_def past_wait_def)
  then show ?thesis
    using semaphore_blocks_only_empty [OF run, of 1] run by (simp add: past_wait_def)
qed

text \<open>With one thread that takes, and wakes up only at signals, and any number of threads that give, the
  counter never falls below zero: the taking thread never gets more than was given.\<close>

lemma semaphore_one_taker:
  assumes "sem_run as (SemaphoreCreate v) = Some s" and "0 \<le> v" and "\<forall>t. Take t \<in> set as \<longrightarrow> t = u" "\<forall>t. Wake t \<notin> set as"
  shows "0 \<le> sem_value s"
proof -
  have "sem_ok s \<and> one_taker u s"
  proof (rule sem_run_keeps [where P = "\<lambda>s. sem_ok s \<and> one_taker u s", OF _ _ assms(1)])
    show "sem_ok (SemaphoreCreate v) \<and> one_taker u (SemaphoreCreate v)"
      using assms(2) sem_ok_create by (simp add: one_taker_def pending_def SemaphoreCreate_def sem_code)
  next
    fix a s s' assume "sem_ok s \<and> one_taker u s" "sem_act a s = Some s'" "a \<in> set as"
    then show "sem_ok s' \<and> one_taker u s'" using sem_ok_act one_taker_act assms(3,4) by blast
  qed
  then show ?thesis by (simp add: one_taker_def)
qed

text \<open>Two threads take from an empty semaphore and one unit is given: the second thread arrives
  between the signal and the moment the first one has the mutex again, and both get the unit.\<close>

definition overtaking :: "action list" where
  "overtaking = [Take 1, Run 1 0, Run 1 0, Give 3, Run 3 1, Run 3 1, Run 3 1, Run 3 1,
     Take 2, Run 2 0, Run 2 0, Run 2 0, Run 2 0, Run 1 0, Run 1 0, Run 1 0]"

lemma semaphore_one_taker_witness:
  "0 \<le> sem_value (the (sem_run (take 8 overtaking) (SemaphoreCreate 0)))"
proof -
  have "sem_run (take 8 overtaking) (SemaphoreCreate 0) \<noteq> None"
    by (simp add: overtaking_def SemaphoreCreate_def SemaphoreTake_def SemaphoreGive_def go_on_def fun_upd_def)
  then obtain s where "sem_run (take 8 overtaking) (SemaphoreCreate 0) = Some s" by blast
  with semaphore_one_taker [OF this, of 1] show ?thesis by (simp add: overtaking_def)
qed

section \<open>One test is not enough\<close>











end
