(* ===== verification/SemaphoreVariants.thy ===== *)
theory SemaphoreVariants
  imports Semaphores
begin

text \<open>
  The semaphore of the client library where there are no POSIX threads (\<open>client-lib/semaphores.c\<close>, the
  branches for \<open>semget\<close>): a System V semaphore, whose operations are single system calls.  The results of
  the calls are never looked at.  The lemmas show where each unit goes however many threads take, what an
  interrupted call and a call at the limit do, and that the variant built on POSIX threads is a refinement
  of this one as long as one thread takes and wakes up only at signals.
\<close>

section \<open>The operations\<close>

text \<open>The largest value of a semaphore of Linux.\<close>

definition SEMVMX :: int where "SEMVMX = 32767"

text \<open>The semaphore, \<open>None\<close> when there is no such set, the threads that sleep in \<open>semop\<close>, and the calls of
  \<open>SemaphoreTake\<close> and \<open>SemaphoreGive\<close> that have returned, each with what its \<open>semop\<close> said.\<close>

record sysv_sem =
  semval :: "int option"
  waiting :: "nat set"
  takes :: "(nat \<times> int) list"
  gives :: "(nat \<times> int) list"

text \<open>\<open>semop\<close> with one operation and no flags: the new state and the result, or \<open>None\<close> when it has to wait.\<close>

definition semop :: "int \<Rightarrow> sysv_sem \<Rightarrow> sysv_sem \<times> int option" where
  "semop sem_op s =
     (case semval s of None \<Rightarrow> (s, Some (-1))
      | Some v \<Rightarrow>
          if v + sem_op < 0 then (s, None)
          else if SEMVMX < v + sem_op then (s, Some (-1))
          else (s\<lparr>semval := Some (v + sem_op)\<rparr>, Some 0))"

text \<open>\<open>SemaphoreCreate\<close>: \<open>got\<close> says whether \<open>semget\<close> succeeds.  \<open>SETVAL\<close> refuses a value out of range and
  leaves the 0 of a new semaphore.  The result is 0 in any case.\<close>

definition sysv_SemaphoreCreate :: "bool \<Rightarrow> int \<Rightarrow> sysv_sem \<times> int" where
  "sysv_SemaphoreCreate got initVal =
     (\<lparr>semval = (if got then Some (if 0 \<le> initVal \<and> initVal \<le> SEMVMX then initVal else 0) else None),
       waiting = {}, takes = [], gives = []\<rparr>, 0)"

definition sysv_SemaphoreTake :: "nat \<Rightarrow> sysv_sem \<Rightarrow> sysv_sem" where
  "sysv_SemaphoreTake t s =
     (case semop (-1) s of
        (s1, None) \<Rightarrow> s1\<lparr>waiting := insert t (waiting s1)\<rparr>
      | (s1, Some r) \<Rightarrow> s1\<lparr>waiting := waiting s1 - {t}, takes := takes s1 @ [(t, r)]\<rparr>)"

definition sysv_SemaphoreGive :: "nat \<Rightarrow> sysv_sem \<Rightarrow> sysv_sem" where
  "sysv_SemaphoreGive t s =
     (case semop 1 s of
        (s1, None) \<Rightarrow> s1\<lparr>waiting := insert t (waiting s1)\<rparr>
      | (s1, Some r) \<Rightarrow> s1\<lparr>gives := gives s1 @ [(t, r)]\<rparr>)"

definition sysv_SemaphoreDestroy :: "sysv_sem \<Rightarrow> sysv_sem" where
  "sysv_SemaphoreDestroy s = s\<lparr>semval := None\<rparr>"

text \<open>\<open>SemaphoreDestroy\<close> of the other variant: a mutex that is held and a condition variable with threads
  asleep must not be destroyed.  The result says whether the two calls are defined.\<close>

definition SemaphoreDestroy :: "SemID_t \<Rightarrow> bool" where
  "SemaphoreDestroy s \<longleftrightarrow> mutex s = None \<and> asleep s = {}"

text \<open>What happens to the semaphore: a thread that does not sleep calls an operation; a sleeping thread
  goes on, because the value or the set has changed, or is interrupted by a signal, at which
  \<open>SemaphoreTake\<close> returns too.\<close>

datatype sysv_action = V_Take nat | V_Give nat | V_Resume nat | V_Interrupt nat | V_Destroy

fun sysv_act :: "sysv_action \<Rightarrow> sysv_sem \<Rightarrow> sysv_sem option" where
  "sysv_act (V_Take t) s = (if t \<notin> waiting s then Some (sysv_SemaphoreTake t s) else None)"
| "sysv_act (V_Give t) s = (if t \<notin> waiting s then Some (sysv_SemaphoreGive t s) else None)"
| "sysv_act (V_Resume t) s =
     (if t \<in> waiting s \<and> snd (semop (-1) s) \<noteq> None then Some (sysv_SemaphoreTake t s) else None)"
| "sysv_act (V_Interrupt t) s =
     (if t \<in> waiting s then Some (s\<lparr>waiting := waiting s - {t}, takes := takes s @ [(t, -1)]\<rparr>) else None)"
| "sysv_act V_Destroy s = Some (sysv_SemaphoreDestroy s)"

fun sysv_run :: "sysv_action list \<Rightarrow> sysv_sem \<Rightarrow> sysv_sem option" where
  "sysv_run [] s = Some s"
| "sysv_run (a # as) s = Option.bind (sysv_act a s) (sysv_run as)"

section \<open>Units\<close>

text \<open>The calls that moved a unit.\<close>

definition moved :: "(nat \<times> int) list \<Rightarrow> int" where
  "moved rs = int (length (filter (\<lambda>(t, r). r = 0) rs))"

lemma moved_simps [simp]: "moved [] = 0" "moved (rs @ [(t, r)]) = moved rs + (if r = 0 then 1 else 0)"
  by (simp_all add: moved_def)

lemma moved_le: "moved rs \<le> int (length rs)"
  by (simp add: moved_def)

lemmas sysv_ops = sysv_SemaphoreTake_def sysv_SemaphoreGive_def sysv_SemaphoreDestroy_def semop_def

text \<open>The invariant: what was there and was given is there or was taken, and only threads at an empty
  semaphore, or one that has just been given to, sleep.\<close>

definition units_ok :: "int \<Rightarrow> sysv_sem \<Rightarrow> bool" where
  "units_ok v s \<longleftrightarrow> (case semval s of None \<Rightarrow> False
     | Some n \<Rightarrow> 0 \<le> n \<and> n \<le> SEMVMX \<and> n + moved (takes s) = v + moved (gives s))"

lemma units_ok_act:
  assumes "units_ok v s" and "sysv_act a s = Some s'" and "a \<noteq> V_Destroy"
  shows "units_ok v s'"
  using assms by (cases a) (auto simp: units_ok_def sysv_ops split: option.splits if_splits)

lemma units_ok_run: "units_ok v s \<Longrightarrow> sysv_run as s = Some s' \<Longrightarrow> V_Destroy \<notin> set as \<Longrightarrow> units_ok v s'"
proof (induction as arbitrary: s)
  case (Cons a as)
  then obtain s1 where "sysv_act a s = Some s1" "sysv_run as s1 = Some s'" by (auto simp: bind_eq_Some_conv)
  with Cons units_ok_act [of v s a s1] show ?case by auto
qed simp

text \<open>The calls of \<open>SemaphoreTake\<close> that return without a unit.\<close>

definition interrupts :: "sysv_action list \<Rightarrow> int" where
  "interrupts as = int (length (filter (\<lambda>a. case a of V_Interrupt _ \<Rightarrow> True | _ \<Rightarrow> False) as))"

lemma failed_takes:
  assumes "sysv_run as s = Some s'" and "units_ok v s" and "V_Destroy \<notin> set as"
  shows "int (length (takes s')) - moved (takes s') = int (length (takes s)) - moved (takes s) + interrupts as"
  using assms
proof (induction as arbitrary: s)
  case (Cons a as)
  then obtain s1 where s1: "sysv_act a s = Some s1" "sysv_run as s1 = Some s'" by (auto simp: bind_eq_Some_conv)
  then have "units_ok v s1" using Cons.prems units_ok_act [of v s a s1] by auto
  with Cons s1(2) have "int (length (takes s')) - moved (takes s') = int (length (takes s1)) - moved (takes s1) + interrupts as"
    by simp
  moreover have "int (length (takes s1)) - moved (takes s1) = int (length (takes s)) - moved (takes s) + interrupts [a]"
    using s1(1) Cons.prems(2,3)
    by (cases a) (auto simp: units_ok_def interrupts_def sysv_ops split: option.splits if_splits)
  ultimately show ?case by (simp add: interrupts_def)
qed (simp add: interrupts_def)

text \<open>The calls of \<open>SemaphoreGive\<close>, and those among them that meet a full semaphore.\<close>

definition given :: "sysv_action list \<Rightarrow> int" where
  "given as = int (length (filter (\<lambda>a. case a of V_Give _ \<Rightarrow> True | _ \<Rightarrow> False) as))"

fun gives_when_full :: "sysv_action list \<Rightarrow> sysv_sem \<Rightarrow> int" where
  "gives_when_full [] s = 0"
| "gives_when_full (a # as) s =
     (case a of V_Give _ \<Rightarrow> if semval s = Some SEMVMX then 1 else 0 | _ \<Rightarrow> 0) +
     (case sysv_act a s of None \<Rightarrow> 0 | Some s' \<Rightarrow> gives_when_full as s')"

lemma all_gives:
  assumes "sysv_run as s = Some s'" and "units_ok v s" and "V_Destroy \<notin> set as"
  shows "moved (gives s') = moved (gives s) + given as - gives_when_full as s"
  using assms
proof (induction as arbitrary: s)
  case (Cons a as)
  then obtain s1 where s1: "sysv_act a s = Some s1" "sysv_run as s1 = Some s'" by (auto simp: bind_eq_Some_conv)
  then have "units_ok v s1" using Cons.prems units_ok_act [of v s a s1] by auto
  with Cons s1(2) have "moved (gives s') = moved (gives s1) + given as - gives_when_full as s1" by simp
  moreover have "moved (gives s1) = moved (gives s) + given [a] - (case a of V_Give _ \<Rightarrow> if semval s = Some SEMVMX then 1 else 0 | _ \<Rightarrow> 0)"
    using s1(1) Cons.prems(2,3)
    by (cases a) (auto simp: units_ok_def given_def sysv_ops split: option.splits if_splits)
  ultimately show ?case using s1(1) by (simp add: given_def split: sysv_action.splits)
qed (simp add: given_def)

text \<open>C32: where the units of a System V semaphore go.  While the set that \<open>semget\<close> made exists, whatever the
  number of threads that take and give and however they interleave, the value stays between 0 and the
  limit; it is the first value and one for each call of \<open>SemaphoreGive\<close>, less one for each call of
  \<open>SemaphoreTake\<close> that has returned, with two exceptions that the code does not notice: a call of
  \<open>SemaphoreGive\<close> at the limit gives nothing, and a call of \<open>SemaphoreTake\<close> that a signal interrupts takes
  nothing.\<close>

theorem sysv_units:
  assumes "sysv_run as (fst (sysv_SemaphoreCreate True v)) = Some s" and "0 \<le> v" "v \<le> SEMVMX" and "V_Destroy \<notin> set as"
  shows "\<exists>n. semval s = Some n \<and> 0 \<le> n \<and> n \<le> SEMVMX \<and>
    n = v + (given as - gives_when_full as (fst (sysv_SemaphoreCreate True v))) - (int (length (takes s)) - interrupts as)"
proof -
  let ?c = "fst (sysv_SemaphoreCreate True v)"
  have ok: "units_ok v ?c"
    using assms(2,3) by (simp add: units_ok_def sysv_SemaphoreCreate_def)
  have "takes ?c = []" "gives ?c = []" by (simp_all add: sysv_SemaphoreCreate_def)
  with failed_takes [OF assms(1) ok assms(4)] all_gives [OF assms(1) ok assms(4)] units_ok_run [OF ok assms(1,4)] show ?thesis
    by (auto simp: units_ok_def split: option.splits)
qed

text \<open>Two threads take from an empty semaphore, one unit is given, and the second thread is interrupted; at
  the limit a further unit is lost.\<close>

definition two_takers :: "sysv_action list" where
  "two_takers = [V_Take 1, V_Take 2, V_Give 3, V_Resume 1, V_Interrupt 2]"

lemma sysv_units_witness:
  "(\<exists>s. sysv_run two_takers (fst (sysv_SemaphoreCreate True 0)) = Some s \<and> takes s = [(1, 0), (2, -1)] \<and>
     (\<exists>n. semval s = Some n \<and> 0 \<le> n \<and> n = given two_takers - (int (length (takes s)) - interrupts two_takers))) \<and>
   gives_when_full [V_Give 1] (fst (sysv_SemaphoreCreate True SEMVMX)) = 1"
proof -
  let ?s = "\<lparr>semval = Some 0, waiting = {}, takes = [(1, 0), (2, -1)], gives = [(3, 0)]\<rparr>"
  have run: "sysv_run two_takers (fst (sysv_SemaphoreCreate True 0)) = Some ?s"
    and full: "gives_when_full two_takers (fst (sysv_SemaphoreCreate True 0)) = 0"
    by (auto simp: two_takers_def sysv_SemaphoreCreate_def sysv_ops SEMVMX_def)
  have "V_Destroy \<notin> set two_takers" by (simp add: two_takers_def)
  from sysv_units [OF run _ _ this] full have "\<exists>n. semval ?s = Some n \<and> 0 \<le> n \<and>
      n = given two_takers - (int (length (takes ?s)) - interrupts two_takers)"
    by (simp add: SEMVMX_def)
  then show ?thesis using run by (auto simp: sysv_SemaphoreCreate_def sysv_ops SEMVMX_def)
qed

text \<open>No thread sleeps at a semaphore with a unit for ever: when none can go on, the semaphore is empty.\<close>

lemma sysv_blocks_only_empty:
  assumes "units_ok v s" and "\<forall>t. sysv_act (V_Resume t) s = None" and "waiting s \<noteq> {}"
  shows "semval s = Some 0"
  using assms by (auto simp: units_ok_def semop_def split: option.splits if_splits)

text \<open>The result of \<open>semget\<close> is not looked at either: \<open>SemaphoreCreate\<close> reports success, and every call of
  \<open>SemaphoreTake\<close> returns at once.\<close>

lemma sysv_create_failed:
  "sysv_SemaphoreCreate False v = (s, r) \<Longrightarrow> r = 0 \<and> sysv_act (V_Take t) s = Some (s\<lparr>takes := takes s @ [(t, -1)]\<rparr>)"
  by (auto simp: sysv_SemaphoreCreate_def sysv_ops)

section \<open>The two variants\<close>

text \<open>What a step of a thread does to the counter, as a call of the System V variant.\<close>

fun unit_of :: "action \<Rightarrow> SemID_t \<Rightarrow> sysv_action list" where
  "unit_of (Run t w) s =
     (case code s t of Decrement # _ \<Rightarrow> [V_Take t] | Increment # _ \<Rightarrow> [V_Give t] | _ \<Rightarrow> [])"
| "unit_of _ s = []"

fun unit_ops :: "action list \<Rightarrow> SemID_t \<Rightarrow> sysv_action list" where
  "unit_ops [] s = []"
| "unit_ops (a # as) s =
     (case sem_act a s of None \<Rightarrow> [] | Some s' \<Rightarrow> unit_of a s @ unit_ops as s')"

text \<open>The effect of a step on the counter.\<close>

lemma unit_of_cases:
  assumes "sem_ok s" and "one_taker u s" and "sem_act a s = Some s'"
  obtains (none) "unit_of a s = []" "sem_value s' = sem_value s"
  | (took) t where "unit_of a s = [V_Take t]" "sem_value s' = sem_value s - 1" "1 \<le> sem_value s"
  | (gave) t where "unit_of a s = [V_Give t]" "sem_value s' = sem_value s + 1"
proof (cases a)
  case (Run t w)
  from assms(1) assms(3) [unfolded Run] show thesis
  proof (cases rule: run_cases)
    case dec
    then have "t \<in> pending s" by (simp add: pending_def)
    then have "1 \<le> sem_value s" using assms(2) by (auto simp: one_taker_def)
    with dec Run took show thesis by simp
  next
    case inc
    with Run gave show thesis by simp
  qed (use Run none in \<open>auto simp: sem_code\<close>)
qed (use assms(3) none in \<open>auto split: if_splits\<close>)

lemma given_simps [simp]: "given [] = 0" "given (V_Give t # vs) = given vs + 1" "given (V_Take t # vs) = given vs" "0 \<le> given vs"
  by (simp_all add: given_def)

lemma sem_run_units:
  assumes "sem_run as s = Some s'" and "sem_ok s" "one_taker u s" and "\<forall>t. Take t \<in> set as \<longrightarrow> t = u" "\<forall>t. Wake t \<notin> set as"
    and "semval z = Some (sem_value s)" "waiting z = {}" and "sem_value s + given (unit_ops as s) \<le> SEMVMX"
  shows "\<exists>z'. sysv_run (unit_ops as s) z = Some z' \<and> semval z' = Some (sem_value s') \<and> waiting z' = {} \<and>
    moved (takes z') - moved (takes z) = int (length (takes z')) - int (length (takes z)) \<and>
    moved (gives z') - moved (gives z) = int (length (gives z')) - int (length (gives z))"
  using assms
proof (induction as arbitrary: s z)
  case (Cons a as)
  then obtain s1 where s1: "sem_act a s = Some s1" "sem_run as s1 = Some s'" by (auto simp: bind_eq_Some_conv)
  have inv: "sem_ok s1" "one_taker u s1"
    using sem_ok_act [OF Cons.prems(2) s1(1)] one_taker_act [OF Cons.prems(2,3) s1(1)] Cons.prems(4,5) by auto
  have nn: "0 \<le> sem_value s" using Cons.prems(3) by (simp add: one_taker_def)
  have ops: "unit_ops (a # as) s = unit_of a s @ unit_ops as s1" using s1(1) by simp
  note IH = Cons.IH [OF s1(2) inv]
  from Cons.prems(2,3) s1(1) show ?case
  proof (cases rule: unit_of_cases)
    case none
    with IH [of z] Cons.prems(4-8) ops show ?thesis by simp
  next
    case (took t)
    let ?z = "z\<lparr>semval := Some (sem_value s1), waiting := {}, takes := takes z @ [(t, 0)]\<rparr>"
    have "sem_value s + given (unit_ops as s1) \<le> SEMVMX" using Cons.prems(8) ops took by simp
    with given_simps(4) [of "unit_ops as s1"] have "sem_value s1 \<le> SEMVMX" using took by linarith
    then have "sysv_act (V_Take t) z = Some ?z" using took Cons.prems(6,7) by (simp add: sysv_ops)
    with IH [of ?z] took Cons.prems(4,5,8) ops show ?thesis by auto
  next
    case (gave t)
    let ?z = "z\<lparr>semval := Some (sem_value s1), gives := gives z @ [(t, 0)]\<rparr>"
    have "sem_value s + 1 + given (unit_ops as s1) \<le> SEMVMX" using Cons.prems(8) ops gave by simp
    with given_simps(4) [of "unit_ops as s1"] have "sem_value s1 \<le> SEMVMX" using gave by linarith
    then have "sysv_act (V_Give t) z = Some ?z" using gave Cons.prems(6,7) nn by (simp add: sysv_ops)
    with IH [of ?z] gave Cons.prems(4,5,7,8) ops show ?thesis by auto
  qed
qed simp

text \<open>C18: with one thread that takes and any number of threads that give, and as long as
  \<open>pthread_cond_wait\<close> returns only for a signal (POSIX does not promise this) and the units given fit the limit of
  the System V semaphore, the semaphore on POSIX threads does what the System V semaphore does.  The changes of its counter, in their order, are a run of the
  System V variant in which no call has to wait or fails, and the counter always has its value.  In
  particular the counter does not fall below zero.\<close>

theorem posix_refines_sysv:
  assumes "sem_run as (SemaphoreCreate v) = Some s" and "0 \<le> v" and "\<forall>t. Take t \<in> set as \<longrightarrow> t = u" "\<forall>t. Wake t \<notin> set as"
    and "v + given (unit_ops as (SemaphoreCreate v)) \<le> SEMVMX"
  shows "\<exists>z. sysv_run (unit_ops as (SemaphoreCreate v)) (fst (sysv_SemaphoreCreate True v)) = Some z \<and>
    semval z = Some (sem_value s) \<and> waiting z = {} \<and> 0 \<le> sem_value s \<and>
    moved (takes z) = int (length (takes z)) \<and> moved (gives z) = int (length (gives z))"
proof -
  let ?c = "SemaphoreCreate v" and ?z = "fst (sysv_SemaphoreCreate True v)"
  have ok: "sem_ok ?c" "one_taker u ?c"
    using assms(2) sem_ok_create by (simp_all add: one_taker_def pending_def SemaphoreCreate_def sem_code)
  have v: "v \<le> SEMVMX" using assms(5) given_simps(4) [of "unit_ops as ?c"] by linarith
  have z: "semval ?z = Some (sem_value ?c)" "waiting ?z = {}" "takes ?z = []" "gives ?z = []"
    using assms(2) v by (simp_all add: sysv_SemaphoreCreate_def SemaphoreCreate_def)
  have "sem_value ?c + given (unit_ops as ?c) \<le> SEMVMX" using assms(5) by (simp add: SemaphoreCreate_def)
  from sem_run_units [OF assms(1) ok assms(3,4) z(1,2) this] obtain z' where
    "sysv_run (unit_ops as ?c) ?z = Some z'" "semval z' = Some (sem_value s)" "waiting z' = {}"
    "moved (takes z') = int (length (takes z'))" "moved (gives z') = int (length (gives z'))"
    using z(3,4) by auto
  moreover have "sem_ok s \<and> one_taker u s"
    by (rule sem_run_keeps [where P = "\<lambda>s. sem_ok s \<and> one_taker u s", OF _ _ assms(1)])
      (use ok sem_ok_act one_taker_act assms(3,4) in blast)+
  ultimately show ?thesis by (auto simp: one_taker_def)
qed

lemma posix_refines_sysv_witness:
  "\<exists>z. sysv_run (unit_ops (take 8 overtaking) (SemaphoreCreate 0)) (fst (sysv_SemaphoreCreate True 0)) = Some z \<and>
    semval z = Some 1"
proof -
  note ev = overtaking_def SemaphoreCreate_def SemaphoreTake_def SemaphoreGive_def go_on_def fun_upd_def
  obtain s where s: "sem_run (take 8 overtaking) (SemaphoreCreate 0) = Some s" "sem_value s = 1" by (simp add: ev)
  have "unit_ops (take 8 overtaking) (SemaphoreCreate 0) = [V_Give 3]" by (simp add: ev)
  then have "0 + given (unit_ops (take 8 overtaking) (SemaphoreCreate 0)) \<le> SEMVMX" by (simp add: SEMVMX_def)
  from posix_refines_sysv [OF s(1) _ _ _ this, of 1] s(2) show ?thesis by (auto simp: overtaking_def)
qed

text \<open>With two threads that take this is not so: in the run \<open>overtaking\<close> the second unit is taken where a
  System V semaphore makes the thread wait.\<close>

lemma overtaking_no_sysv_run:
  "map_option waiting (sysv_run (unit_ops overtaking (SemaphoreCreate 0)) (fst (sysv_SemaphoreCreate True 0))) = Some {1}"
  by (simp add: overtaking_def SemaphoreCreate_def SemaphoreTake_def SemaphoreGive_def go_on_def fun_upd_def
      sysv_SemaphoreCreate_def sysv_ops SEMVMX_def)

text \<open>When all calls have returned the semaphore can be destroyed; while a thread sleeps it cannot.\<close>

lemma destroy_idle:
  assumes "sem_run as (SemaphoreCreate v) = Some s" and "\<forall>t. code s t = []"
  shows "SemaphoreDestroy s"
  using sem_okD(2,3) [OF sem_reach(1) [OF assms(1)]] assms(2)
  by (cases "mutex s") (auto simp: SemaphoreDestroy_def in_section_def past_wait_def)

end
