(* ===== verification/Threads.thy ===== *)
theory Threads
  imports C_Prelude
begin

text \<open>
  Threads and shared memory of the client library (\<open>client-lib/thread.c\<close>, \<open>client-lib/shared_memory.c\<close>),
  each in the variants that \<open>config.h\<close> chooses from.  The lemmas show that threads made of processes can
  be joined once each, what a failing \<open>fork\<close> leads to, and that the variant on \<open>mmap\<close> gives no memory.
\<close>

section \<open>Processes\<close>

text \<open>What the source uses of POSIX processes.  The children that have not been waited for are a list, in
  the order in which they end.  \<open>fork\<close> fails or makes a child with a new number; in the parent it returns
  that number.  \<open>waitpid\<close> with a number waits for that child, with -1 for any.\<close>

type_synonym children = "int list"

definition fork :: "int option \<Rightarrow> children \<Rightarrow> int \<times> children" where
  "fork new cs = (case new of None \<Rightarrow> (-1, cs) | Some pid \<Rightarrow> (pid, cs @ [pid]))"

definition waitpid :: "int \<Rightarrow> children \<Rightarrow> int \<times> children" where
  "waitpid p cs =
     (if p = -1 then (case cs of [] \<Rightarrow> (-1, cs) | c # cs' \<Rightarrow> (c, cs'))
      else if p \<in> set cs then (p, remove1 p cs) else (-1, cs))"

section \<open>thread.c\<close>

text \<open>The variants: POSIX threads, processes, or neither.\<close>

datatype threading = Pthread | Fork | Neither

text \<open>What \<open>pthread_create\<close> and \<open>pthread_join\<close> return, and whether \<open>fork\<close> makes a process.\<close>

record thread_env =
  te_create :: "int \<times> int"
  te_join :: "int \<Rightarrow> int"
  te_fork :: "int option"

text \<open>\<open>ThreadCreate\<close> as the caller sees it: the result, the thread number, and the children.  \<open>old\<close> is what
  \<open>pThreadID\<close> points to before.\<close>

definition ThreadCreate :: "threading \<Rightarrow> thread_env \<Rightarrow> int \<Rightarrow> children \<Rightarrow> int \<times> int \<times> children" where
  "ThreadCreate v e old cs =
     (case v of
        Pthread \<Rightarrow> (case te_create e of (result, tid) \<Rightarrow> (result, if result = 0 then tid else old, cs))
      | Fork \<Rightarrow> (case fork (te_fork e) cs of (pid, cs') \<Rightarrow> (0, pid, cs'))
      | Neither \<Rightarrow> (-1, old, cs))"

text \<open>The child of \<open>fork\<close> runs the function and exits with 0, whatever the function returns.\<close>

definition thread_child :: "('a \<Rightarrow> 'b) \<Rightarrow> 'a \<Rightarrow> 'b \<times> int" where
  "thread_child startFunc arg = (startFunc arg, 0)"

definition ThreadJoin :: "threading \<Rightarrow> thread_env \<Rightarrow> int \<Rightarrow> children \<Rightarrow> int \<times> children" where
  "ThreadJoin v e threadID cs =
     (case v of
        Pthread \<Rightarrow> (te_join e threadID, cs)
      | Fork \<Rightarrow> (case waitpid threadID cs of (result, cs') \<Rightarrow> (if result = threadID then 0 else result, cs'))
      | Neither \<Rightarrow> (-1, cs))"

text \<open>\<open>ThreadExit\<close> of a process: the status it exits with.\<close>

definition ThreadExit :: "64 word \<Rightarrow> 8 word" where
  "ThreadExit retVal = ucast (ucast retVal :: 32 word)"

text \<open>Threads made one after the other, and joined.\<close>

fun create_all :: "int option list \<Rightarrow> children \<Rightarrow> (int \<times> int) list \<times> children" where
  "create_all [] cs = ([], cs)"
| "create_all (new # news) cs =
     (case ThreadCreate Fork \<lparr>te_create = (0, 0), te_join = (\<lambda>_. 0), te_fork = new\<rparr> 0 cs of (result, tid, cs1) \<Rightarrow>
        case create_all news cs1 of (ts, cs2) \<Rightarrow> ((result, tid) # ts, cs2))"

fun join_all :: "int list \<Rightarrow> children \<Rightarrow> int list \<times> children" where
  "join_all [] cs = ([], cs)"
| "join_all (tid # tids) cs =
     (case ThreadJoin Fork \<lparr>te_create = (0, 0), te_join = (\<lambda>_. 0), te_fork = None\<rparr> tid cs of (result, cs1) \<Rightarrow>
        case join_all tids cs1 of (rs, cs2) \<Rightarrow> (result # rs, cs2))"

lemma create_all_some: "create_all (map Some pids) cs = (map (\<lambda>p. (0, p)) pids, cs @ pids)"
  by (induction pids arbitrary: cs) (simp_all add: ThreadCreate_def fork_def)

lemma join_all_children:
  assumes "distinct tids" and "set tids \<subseteq> set cs" and "\<forall>t \<in> set tids. 0 < t" and "distinct cs"
  shows "join_all tids cs = (map (\<lambda>_. 0) tids, filter (\<lambda>c. c \<notin> set tids) cs)"
  using assms
proof (induction tids arbitrary: cs)
  case (Cons t ts)
  have "join_all ts (remove1 t cs) = (map (\<lambda>_. 0) ts, filter (\<lambda>c. c \<notin> set ts) (remove1 t cs))"
    using Cons.prems by (intro Cons.IH) auto
  moreover have "filter (\<lambda>c. c \<notin> set ts) (remove1 t cs) = filter (\<lambda>c. c \<notin> set (t # ts)) cs"
    using Cons.prems(4) by (auto simp: distinct_remove1_removeAll removeAll_filter_not_eq intro: filter_cong)
  ultimately show ?case using Cons.prems by (simp add: ThreadJoin_def waitpid_def)
qed simp

text \<open>Threads made of processes.  When every \<open>fork\<close> succeeds, each \<open>ThreadCreate\<close> returns 0, and the
  threads can be joined in any order: each \<open>ThreadJoin\<close> returns 0, and at the end the processes that were
  there before are there.\<close>

lemma threads_joined:
  assumes "distinct (cs @ pids)" and "\<forall>p \<in> set pids. 0 < p" and "set tids = set pids" "distinct tids"
  shows "case create_all (map Some pids) cs of (rs, cs') \<Rightarrow>
    rs = map (\<lambda>p. (0, p)) pids \<and> join_all tids cs' = (map (\<lambda>_. 0) tids, cs)"
proof -
  have "filter (\<lambda>c. c \<notin> set tids) (cs @ pids) = cs"
    using assms(1,3) by (auto simp: filter_id_conv filter_empty_conv)
  then have "join_all tids (cs @ pids) = (map (\<lambda>_. 0) tids, cs)"
    using join_all_children [of tids "cs @ pids"] assms by auto
  then show ?thesis by (simp add: create_all_some)
qed

lemma threads_joined_witness:
  "case create_all [Some 101, Some 102] [100] of (rs, cs') \<Rightarrow>
    rs = [(0, 101), (0, 102)] \<and> join_all [102, 101] cs' = ([0, 0], [100])"
  using threads_joined [of "[100]" "[101, 102]" "[102, 101]"] by (simp add: insert_commute del: create_all.simps join_all.simps)

text \<open>C40: a failing \<open>fork\<close> goes unnoticed.  \<open>ThreadCreate\<close> returns 0 for it, with the thread number -1.
  Joining that thread succeeds when there is no other process; otherwise it takes away the process of
  another thread, which can then not be joined.\<close>

theorem failed_fork_unnoticed:
  assumes "0 < c" and "c \<notin> set cs"
  shows "create_all [None] cs = ([(0, -1)], cs) \<and> join_all [-1] [] = ([0], []) \<and> join_all [-1, c] (c # cs) = ([c, -1], cs)"
  using assms by (auto simp: ThreadCreate_def ThreadJoin_def fork_def waitpid_def split: list.splits)

lemma failed_fork_unnoticed_witness:
  "create_all [None] [102] = ([(0, -1)], [102]) \<and> join_all [-1] [] = ([0], []) \<and> join_all [-1, 101] [101, 102] = ([101, -1], [102])"
  using failed_fork_unnoticed [of 101 "[102]"] by simp

section \<open>shared_memory.c\<close>

text \<open>The variants: \<open>malloc\<close>, \<open>shm_open\<close> with \<open>mmap\<close>, and System V segments.\<close>

datatype sharing = Malloc | Librt | Shmget

text \<open>The calls made, with what they are given.\<close>

datatype shm_call =
    Shm_open string
  | Ftruncate int int
  | Mmap int int int
  | Close int
  | On_exit int
  | Free int
  | Munmap int int
  | Shm_unlink string
  | Shmdt int
  | Shmctl_rmid int

text \<open>What the calls return: \<open>malloc\<close> and \<open>shmat\<close> by size or number, the descriptor or number, and \<open>mmap\<close> by
  length, descriptor and offset.\<close>

record shm_env =
  me_malloc :: "int \<Rightarrow> int"
  me_fd :: int
  me_mmap :: "int \<Rightarrow> int \<Rightarrow> int \<Rightarrow> int"
  me_shmat :: "int \<Rightarrow> int"

definition SharedMemoryGet :: "sharing \<Rightarrow> shm_env \<Rightarrow> int \<Rightarrow> int \<times> shm_call list" where
  "SharedMemoryGet v e sz =
     (case v of
        Malloc \<Rightarrow> (me_malloc e sz, [])
      | Librt \<Rightarrow> (let fd = me_fd e in
          (me_mmap e sz 0 fd, [Shm_open ''/diald-top'', Ftruncate fd sz, Mmap sz 0 fd, Close fd]))
      | Shmget \<Rightarrow> (let fd = me_fd e in (me_shmat e fd, [On_exit fd])))"

definition SharedMemoryRemove :: "sharing \<Rightarrow> int \<Rightarrow> int \<Rightarrow> shm_call list" where
  "SharedMemoryRemove v buffer sz =
     (case v of Malloc \<Rightarrow> [Free buffer] | Librt \<Rightarrow> [Munmap buffer sz, Shm_unlink ''/diald-top''] | Shmget \<Rightarrow> [Shmdt buffer])"

text \<open>\<open>SharedMemoryDestroy\<close>, which \<open>on_exit\<close> calls.\<close>

definition SharedMemoryDestroy :: "sharing \<Rightarrow> int \<Rightarrow> shm_call list" where
  "SharedMemoryDestroy v arg = (case v of Shmget \<Rightarrow> [Shmctl_rmid arg] | _ \<Rightarrow> [])"

text \<open>The arguments of \<open>mmap\<close> are the wrong way round: it is asked for the standard input, with the
  descriptor of the segment as the offset.  As \<open>mmap\<close> returns -1 for an offset that is not a multiple of
  the page size, there is no shared memory unless that descriptor is one.\<close>

lemma shared_memory_librt_fails:
  assumes "\<And>len fd off. off mod 4096 \<noteq> 0 \<Longrightarrow> me_mmap e len fd off = -1" and "0 < me_fd e" "me_fd e < 4096"
  shows "fst (SharedMemoryGet Librt e sz) = -1"
  using assms by (simp add: SharedMemoryGet_def Let_def)

end
