(* ===== verification/Spec2Isabelle.thy ===== *)
theory Spec2Isabelle
  imports ServerProgram ClientMemory ClientEnds Tester SemaphoreVariants Threads
begin

text \<open>
  A model of diald-top, the monitor of the dial-on-demand daemon diald, and of its network server.

  \<^bold>\<open>The programs.\<close>  \<open>diald-top\<close> (\<open>src/client\<close>) is a curses program.  It asks diald for reports through a control
  FIFO, reads them from a monitor FIFO and shows the state of the link, its load and the queued packets; keys
  send commands to diald.  \<open>diald-top-server\<close> (\<open>src/server\<close>) does the same for clients on the network: it
  listens on a port, asks the host of a client who its user is (ident), gives it access from a list in a
  configuration file, copies the reports of diald to all clients that monitor, and passes on the commands of those
  that may give them.  \<open>src/client-lib\<close> holds semaphores, threads and shared memory.

  \<^bold>\<open>The server.\<close>  The state is the record \<open>server\<close> of ServerState: a heap with the linked queue of clients,
  the sets of descriptors, the access list and the descriptors of the FIFOs.  What leaves the program is a list
  of events.
  \<^item> FdSets (\<open>selection.c\<close>, \<open>fds.h\<close>): the three descriptor sets, their union for \<open>select\<close> and back.
  \<^item> Auth (\<open>authenticate.c\<close>, list and lookup); Scanner, ConfFile (\<open>conffile.l\<close>, \<open>conffile.y\<close>, \<open>read_conf\<close>); Inet: addresses.
  \<^item> PortQueue, PortServer (\<open>port-queue.c\<close>): the queue, closing a client, the commands of a client, the walk over
    the clients that are ready.
  \<^item> FifoServer (\<open>fifo-server.c\<close>): the monitor FIFO and sending reports on.
  \<^item> Ident, PortDaemon (\<open>port-daemon.c\<close>): connections, ident, the access a client starts with.
  \<^item> ServerMain (\<open>reread_conf\<close>, main loop): a round of the main loop, a reload, the step relation \<open>server_step\<close> and
    the invariants of its reachable states.  ServerProgram (\<open>diald-top-server.c\<close>): the whole program as a function of
    rounds and signals, which has exactly those states (\<open>server_main_reachable\<close>) and does not fail.

  \<^bold>\<open>The client.\<close>  The globals are the record \<open>client\<close> of ClientState, with what is printed and sent as \<open>c_out\<close>.
  \<^item> HostCache (\<open>resolve.c\<close>): the hash table of host names on a heap, and the abstract map it implements.
  \<^item> Screen (\<open>screen.c\<close>): set-up, resize with the row buffers, help, the usage text.  Display (\<open>parser.c\<close>): the handlers of the
    reports.  Commands (\<open>pipe.c\<close>, \<open>screen.c\<close>): keys, prompts and commands.
  \<^item> MonitorLex (\<open>monitor.l\<close>), MonitorParse (\<open>monitor.y\<close>): from the characters in the FIFO to the calls of the handlers.
    Tester (\<open>tester.c\<close>): the test program of the parser.
  \<^item> ClientFrame: what operations leave alone, proved once for any view of the state that some fields do not enter.  The locale \<open>quiet\<close> is
    extended by \<open>cacheless\<close> (host names), \<open>linkless\<close> (state of the link) and \<open>rowless\<close> (rows of the screen), these by \<open>kept\<close>, \<open>kept_rows\<close> and
    \<open>kept_keys\<close>; the views are the lines sent, the settings, the rows, the display and the cache of host names.
  \<^item> ClientMain (\<open>diald-top.c\<close>, \<open>pipe.c\<close>): options, connection, reading reports, main loop.  ClientProgram: a whole run with
    signals and exit handlers.  ClientEnds: the same for the exits inside \<open>init_fifo\<close> and the parser, with the state they leave.
  \<^item> ClientSafety: no run writes outside a buffer, as long as screen, reports and typed lines keep within bounds.  \<open>safe ok P r\<close>
    says that a result is an error that \<open>ok\<close> allows or a value with the property \<open>P\<close>; the coinductive \<open>fitting\<close> says which input is short
    enough.  The locale \<open>name_cache\<close> is what a run relies on in the cache: it holds of any cache if only buffers matter.
  \<^item> HostMemory: the blocks of memory \<open>resolve\<close> uses and what it does without memory.  ClientMemory: with it the well-formed cache
    satisfies \<open>name_cache\<close> too, and so no run of the client crashes unless memory runs out.

  \<^bold>\<open>The library.\<close>  Semaphores (\<open>semaphores.c\<close>): taking and giving as programs of single statements, interleaved in any order, with
  the spurious wake-ups POSIX allows (\<open>Wake\<close>).  SemaphoreVariants: the System V variant, and that the other one refines it while one thread takes
  and only signals wake it.  Threads (\<open>thread.c\<close>, \<open>shared_memory.c\<close>).  C\_Prelude holds what all share: \<open>'a res\<close>, a value or an \<open>error\<close> (an exit, an access out
  of bounds, to a null or freed pointer, an overflow of a buffer, a loop without end), C strings, printing and reading of
  numbers, and linked lists on a heap.

  \<^bold>\<open>What is shown.\<close>  For the server: in every reachable state write access agrees with the access list in force; only clients
  with write access reach the control FIFO; a run never fails when clients have names and lines are short;
  ready clients are read; reports
  arrive once and in order; a reload gives each client the access of the new file; a configuration file means its list of
  entries.  For the client: reports as diald prints them are read back as they are, in as many runs of the parser as keys and
  load reports make of it, and shown with names or addresses, from the characters to the rows of the screen; scanner and regular expressions agree; the parser finds back after errors; a run sends commands and
  nothing else and cleans up, however it ends; the rows always fit the screen, and on input without empty lines no buffer overflows and no pointer is
  bad; the cache of host names
  implements a map.  For the library: no wake-up is lost, and what becomes of the units given: with one taker and no spurious wake-up the semaphore on
  threads hands out no more than it was given, and the System V semaphore no more and no less but for calls at its limit and calls that
  a signal interrupts.  For both: a command typed into the client
  reaches diald, and a report of diald the screen.  A last group states where the code goes wrong: each theorem gives the condition
  and what happens.

  \<^bold>\<open>Fuel.\<close>  A walk over the queue of the server is bounded by \<open>QFUEL = 1025\<close>: there are at most 1024 descriptors and so at most 1024
  clients, and each turn moves on.  \<open>bcast\<close> may start over when it closes a client, so it has \<open>BFUEL = 1050625\<close>, a walk for each
  client and one more.  \<open>server_never_fails\<close> shows that both are enough, and \<open>client_never_fails\<close>
  that the loop of \<open>read_fifo\<close> over at most four runs of the parser is.  A run out of fuel is the error \<open>Diverges\<close>.  The walk over a
  bucket of the hash table and the scanner are partial functions; \<open>None\<close> stands for not returning.  The scanner does not return behind an
  empty message, and it does on input that is \<open>calm\<close> (\<open>lex_input_ends\<close>); the input of \<open>client_main\<close> is the
  list of tokens of a scanner that returns.  All other loops are
  structural or have a measure.

  \<^bold>\<open>Assumptions.\<close>  A SIGHUP of the server arrives between two rounds of its main loop, where the server waits.  \<open>config.h\<close> has
  \<open>HAVE_INET_PTON\<close>, \<open>HAVE_GETHOSTBYADDR\<close>, \<open>HAVE_GETDOMAINNAME\<close>, \<open>HAVE_PTHREAD\<close> (other variants of the threads are there too), and not
  \<open>YYDEBUG\<close>; \<open>TESTER\<close> only in Tester.  The arguments of the \<open>sprintf\<close> in \<open>do_packet\<close> are evaluated from left to right.  Sums of the load, counts of
  packets and lengths of lines on the screen stay within \<open>int\<close>, except where a width says otherwise.  \<open>malloc\<close> fails only where a
  parameter says so.  The results of system calls, of the name service and of \<open>select\<close> are parameters; what a theorem needs of
  them is a hypothesis.

  \<^bold>\<open>Not modelled.\<close>  The read of \<open>curr->next\<close> behind \<open>free\<close> in \<open>close_port\<close>, whose value is not used, is left out.  What goes to syslog, the text of \<open>yyerror\<close> and the trace of \<open>yydebug\<close> have no effect on the rest.  An exit inside
  \<open>read_command_line\<close> leaves nothing behind and is an error value only.  Memory for strings is there, and is not freed too early or
  twice: \<open>lex_string\<close>, \<open>lex_free\<close> and the obstack are left out.  \<open>lex_char\<close> is never called.  The main program \<open>LEXONLY\<close> of \<open>tester.c\<close> does not
  compile.  Declarations (\<open>prototypes.h\<close>, \<open>protos.h\<close>), the build files and the packaging hold no operations.
\<close>

section \<open>Client and server together\<close>

lemma no_prefix_cmd:
  "c \<in> set cmd \<Longrightarrow> cstr (c @ [LF]) = c @ [LF] \<and> quoted_back (c @ [LF])"
proof -
  have "list_all (\<lambda>c. cstr (c @ [LF]) = c @ [LF] \<and> quoted_back (c @ [LF])) cmd" by code_simp
  then show "c \<in> set cmd \<Longrightarrow> cstr (c @ [LF]) = c @ [LF] \<and> quoted_back (c @ [LF])"
    by (simp add: list_all_iff)
qed

text \<open>C9: a command given to the client reaches diald.  Every line the main loop of the client sends is
  passed on unchanged into the control FIFO by the server, when it reads the line from a client with
  write access.\<close>

theorem commands_reach_diald:
  assumes "main_loop es ts c = Inr c'" and "sent (c_out c') = sent (c_out c) @ ls" and "l \<in> set ls"
    and "clients_ok s (us @ (a, p) # ys)" and "has_flag p FLAG_WRITE"
  shows "parse_incoming mo l a s = Inr (False, emit (ToControl l) s)"
proof -
  obtain cs where cs: "sent (c_out c') = sent (c_out c) @ map (\<lambda>c. c @ [LF]) cs" "set cs \<subseteq> set cmd"
    using main_loop_sent [OF assms(1)] by blast
  with assms(2,3) obtain d where d: "l = d @ [LF]" "d \<in> set cs" by auto
  then have "d \<in> set cmd" using cs(2) by blast
  with d no_prefix_cmd [of d] assms(5) show ?thesis
    by (simp add: parse_incoming_def Let_def clients_ok_deref [OF assms(4)] quoted_back_def asks_monitor_off_def)
qed

lemma commands_reach_diald_witness:
  "parse_incoming (''/tmp/g'', 9) (''down'' @ [LF]) 1 ex_server = Inr (False, emit (ToControl (''down'' @ [LF])) ex_server)"
proof -
  have "case main_loop [ex_turn] [] ex_client of Inl _ \<Rightarrow> False | Inr c \<Rightarrow> sent (c_out c) = [''down'' @ [LF]]"
    by code_simp
  then obtain c' where c': "main_loop [ex_turn] [] ex_client = Inr c'" "sent (c_out c') = [''down'' @ [LF]]"
    by (auto split: sum.splits)
  have out: "sent (c_out c') = sent (c_out ex_client) @ [''down'' @ [LF]]"
    using c'(2) by (simp add: ex_client_def)
  have ok: "clients_ok ex_server ([] @ (1, ex_port 5 7 (Some ''gavin'')) #
      [(2, ex_port 6 5 (Some ''guest'')), (3, ex_port 7 5 None)])"
    using ex_clients_ok by (simp add: ex_clients_def)
  show ?thesis
    by (rule commands_reach_diald [OF c'(1) out _ ok ex_flags(3)]) simp
qed

text \<open>A client started with \<open>-r\<close> gets the reports.  The line it sends once it is connected makes the
  server mark it as a monitoring client.\<close>

lemma remote_client_monitors:
  assumes init: "init_fifo e c = Inr c'" and "remotemode c \<noteq> 0"
    and ok: "clients_ok s (us @ (a, p) # ys)" and mon: "\<not> has_flag p FLAG_MONITOR" and fs: "fullcount (fs s) \<noteq> 0"
  shows "\<exists>l s' q. sent (c_out c') = sent (c_out c) @ [l] \<and> parse_incoming mo l a s = Inr (False, s') \<and>
    clients_ok s' (us @ (a, q) # ys) \<and> has_flag q FLAG_MONITOR \<and> fd q = fd p"
proof -
  let ?l = "''monitor on'' @ [LF]"
  have sent: "sent (c_out c') = sent (c_out c) @ [?l]"
    using init assms(2) by (auto simp: init_fifo_def connect_remote_def fifo_command_def Let_def split: if_splits)
  have cmp: "cstr ?l = ?l" "strncasecmp ?l (''monitor off'' @ [CR]) 12 \<noteq> 0"
    "strncasecmp ?l (''monitor'' @ [CR]) 8 \<noteq> 0" "strncasecmp ?l ''monitor '' 8 = 0"
    by code_simp+
  then obtain s' q where "parse_incoming mo ?l a s = Inr (False, s')" "clients_ok s' (us @ (a, q) # ys)"
      "has_flag q FLAG_MONITOR" "fd q = fd p"
    using parse_monitor_request [OF ok mon fs] by blast
  with sent show ?thesis by blast
qed

lemma remote_client_monitors_witness:
  "\<exists>c' l s'. init_fifo ex_fifo_env (ex_client\<lparr>remotemode := 1, remoteip := ''127.0.0.1''\<rparr>) = Inr c' \<and>
    sent (c_out c') = [l] \<and> parse_incoming (''/tmp/g'', 9) l 2 ex_quiet = Inr (False, s')"
proof -
  let ?c = "ex_client\<lparr>remotemode := 1, remoteip := ''127.0.0.1''\<rparr>"
  have "inet_pton ''127.0.0.1'' = Some 16777343" by (simp only: inet_pton_iff) code_simp
  then obtain c' where c': "init_fifo ex_fifo_env ?c = Inr c'"
    by (simp add: init_fifo_def connect_remote_def ex_fifo_env_def fifo_command_def)
  have "\<not> has_flag (ex_port 6 1 (Some ''guest'')) FLAG_MONITOR" "fullcount (fs ex_quiet) \<noteq> 0" "c_out ?c = []"
    by (simp_all add: has_flag_def ex_port_def flag_defs ex_quiet_def ex_server_def ex_client_def)
  with remote_client_monitors [OF c' _ ex_quiet_ok, of "(''/tmp/g'', 9)"] c' show ?thesis by auto
qed

text \<open>What the server writes to one descriptor.\<close>

fun received :: "int \<Rightarrow> event list \<Rightarrow> string" where
  "received f [] = []"
| "received f (ToClient g t # es) = (if g = f then t @ received f es else received f es)"
| "received f (e # es) = received f es"

lemma received_append [simp]: "received f (xs @ ys) = received f xs @ received f ys"
  by (induction f xs rule: received.induct) simp_all

lemma received_broadcast:
  fixes p :: port_t
  assumes "distinct (map fd qs)" and "p \<in> set qs"
  shows "received (fd p) (map (\<lambda>q. ToClient (fd q) line) qs) = line"
proof -
  obtain us vs where qs: "qs = us @ p # vs" using split_list [OF assms(2)] by blast
  have "received (fd p) (map (\<lambda>q. ToClient (fd q) line) ws) = []" if "fd p \<notin> fd ` set ws" for ws :: "port_t list"
    using that by (induction ws) auto
  from this [of us] this [of vs] show ?thesis using assms(1) qs by auto
qed

text \<open>However \<open>fifo_server\<close> finds the characters cut into chunks, each monitoring client gets them all.\<close>

lemma fifo_server_received:
  assumes "clients_ok s xs" and "p \<in> set (monitors xs)" and "\<forall>(line, epipe) \<in> set cs. \<forall>i f. \<not> epipe i f"
  shows "\<exists>s'. fifo_server cs s = Inr s' \<and> received (fd p) (out s') = received (fd p) (out s) @ concat (map fst cs)"
proof -
  have d: "distinct (map fd (monitors xs))" using assms(1) by (intro distinct_monitors) (simp add: clients_ok_def)
  have "received (fd p) (concat (map (\<lambda>(line, epipe). map (\<lambda>p. ToClient (fd p) line) (monitors xs)) cs)) = concat (map fst cs)"
    by (induction cs) (auto simp: received_broadcast [OF d assms(2)])
  moreover have "monitors xs \<noteq> []" using assms(2) by auto
  ultimately show ?thesis using fifo_server_result [OF assms(1) _ assms(3)] by simp
qed

text \<open>C7: from diald to the screen of a remote user.  When diald writes a state report and a list of packets
  into the monitor FIFO of the server, in whatever pieces the server reads them, and no connection is
  broken, each monitoring client receives that text.  A client that reads it from its connection, in whatever chunks it
  comes, whether or not the user has pressed a key in the meantime, shows the state with the number of packets, and
  the packets one to a row in the order diald gave them, as far as there is room: with the addresses as they are after
  \<open>-n\<close>, and otherwise with the names of \<open>resolve_spec\<close>, from what its cache knew before, what the
  name server says, and what it has learnt from the packets further up.  It is a client whose screen fits
  its rows and has not been resized since, whose hash table is well-formed, and that has memory for new
  records (each \<open>malloc\<close> gives a block that is not in use); \<open>d\<close> is the domain that \<open>getdomainname\<close> returns
  each time.\<close>

theorem diald_reports_shown:
  fixes w d and runs :: "nat \<Rightarrow> run_env" and pks :: "packet list" and B :: "nat \<Rightarrow> bucket"
  defines "eps \<equiv> with_env (queue_calls runs w) 1 pks" and "tm \<equiv> fst (queue_calls runs w 0)"
  assumes server: "clients_ok s xs" "p \<in> set (monitors xs)" "\<forall>(line, epipe) \<in> set cs. \<forall>i f. \<not> epipe i f"
    and written: "concat (map fst cs) = reports_text [Report (Do_state w), Queued pks]"
      "list_all packet_ok pks" "pks \<noteq> []" "length pks < 10 ^ 9" "is_word w" "length w < 230"
    and client: "display_ok c" "resize_event_p c = 0" "count c < 10 ^ 9"
      "cache_ok c B" "mydomain c \<in> {[], d}" "fed d (dom (hheap c)) eps"
    and chunks: "concat ws = concat (map fst cs)" "[] \<notin> set ws" "lex_input INITIAL ins = Some us"
  shows "\<exists>s' ts c' es. fifo_server cs s = Inr s' \<and> received (fd p) (out s') = received (fd p) (out s) @ concat ws \<and>
    lex_input INITIAL (arrive ws @ pause # ins) = Some ts \<and> read_fifo runs junk sz ts c = Inr (1, us, c') \<and> curr_state c' = w \<and>
    c_out c' = es @ state_lines w (c\<lparr>count := int (length pks)\<rparr>) @ Erase Sub #
      map (\<lambda>i. Print Sub (int i) 0 (packet_rows eps (c\<lparr>curr_state := w, now := tm\<rparr>) (host_map B) i))
        [0..<min (nat (numbuff c)) (length pks)]"
proof -
  obtain s' where s': "fifo_server cs s = Inr s'" "received (fd p) (out s') = received (fd p) (out s) @ concat (map fst cs)"
    using fifo_server_received [OF server] by blast
  from reports_shown [where runs = runs, OF client(1-5) client(6) [unfolded eps_def] written(2-6)
      chunks(1) [unfolded written(1)] chunks(2,3), of junk sz] s'
  show ?thesis unfolding chunks(1) eps_def tm_def by blast
qed

text \<open>The link comes up, and the packet that waits is shown with the name of one of its hosts, while a key
  is waiting.\<close>

definition ex_named_env :: packet_env where
  "ex_named_env = ex_packet_env\<lparr>p_ghba := (\<lambda>a. if a = 16777226 then Host ''gate.home'' else NoSuchHost), p_domain := ''home'',
     p_malloc1 := Some (1, ex_hostrec), p_malloc2 := Some (2, ex_hostrec)\<rparr>"

definition ex_named_run :: run_env where
  "ex_named_run = \<lparr>r_parse = ex_parse_env, r_calls = (\<lambda>_. (1000, ex_named_env)), r_ready = (\<lambda>_. 1)\<rparr>"

lemma ex_named_rows:
  "packet_rows (with_env (queue_calls (\<lambda>_. ex_named_run) ''UP'') 1 [ex_packet])
      ((ex_client\<lparr>trunc_local_hosts := 1\<rparr>)\<lparr>curr_state := ''UP'', now := fst (queue_calls (\<lambda>_. ex_named_run) ''UP'' 0)\<rparr>) Map.empty 0 =
     ''tcp                    gate/80                  192.168.0.7/1042      00:09:55'' @ [LF]"
proof -
  have ip: "inet_pton ''10.0.0.1'' = Some 16777226" "inet_pton ''192.168.0.7'' = Some 117483712"
    by (simp only: inet_pton_iff, code_simp)+
  have cut: "cut_domain ''home'' ''gate.home'' = ''gate''" by code_simp
  have row: "cstr (packet_text ex_named_env (ex_packet\<lparr>ip1 := ''gate'', ip2 := ''192.168.0.7''\<rparr>) 22) =
     ''tcp                    gate/80                  192.168.0.7/1042      00:09:55'' @ [LF]" by code_simp
  have env: "with_env (queue_calls (\<lambda>_. ex_named_run) ''UP'') 1 [ex_packet] = [(ex_named_env, ex_packet)]"
    by (simp add: queue_calls_def lex_testkey_def ex_named_run_def)
  let ?c = "(ex_client\<lparr>trunc_local_hosts := 1\<rparr>)\<lparr>curr_state := ''UP'', now := fst (queue_calls (\<lambda>_. ex_named_run) ''UP'' 0)\<rparr>"
  have q: "numeric ?c = 0" "may_query ?c" "mydomain ?c = []" "trunc_local_hosts ?c = 1" "format_width ?c = 22" "c_LINES ?c = 24"
    by (simp_all add: may_query_def ex_client_def MAX_QUERY_LOAD_def)
  have dom: "p_domain ex_named_env = ''home''" "p_ghba ex_named_env 16777226 = Host ''gate.home''"
    "p_ghba ex_named_env 117483712 = NoSuchHost" by (simp_all add: ex_named_env_def)
  have pk: "ip1 ex_packet = ''10.0.0.1''" "ip2 ex_packet = ''192.168.0.7''" by (simp_all add: ex_packet_def)
  have "packet_lines ?c Map.empty [(ex_named_env, ex_packet)] =
      [packet_text ex_named_env (ex_packet\<lparr>ip1 := ''gate'', ip2 := ''192.168.0.7''\<rparr>) 22]"
    unfolding packet_lines.simps resolve_spec_def pk ip dom by (simp add: q cut dom Let_def)
  then show ?thesis unfolding env packet_rows_def q by (simp add: row HEAD_LINES_def)
qed

lemma diald_reports_shown_witness:
  "\<exists>s' ts c' es. fifo_server [(reports_text [Report (Do_state ''UP''), Queued [ex_packet]], \<lambda>_ _. False)] ex_server = Inr s' \<and>
    received 5 (out s') = received 5 (out ex_server) @ reports_text [Report (Do_state ''UP''), Queued [ex_packet]] \<and>
    lex_input INITIAL (arrive [reports_text [Report (Do_state ''UP''), Queued [ex_packet]]] @ [pause]) = Some ts \<and>
    read_fifo (\<lambda>_. ex_named_run) (\<lambda>_ _. NUL) (24, 80) ts (ex_client\<lparr>trunc_local_hosts := 1\<rparr>) = Inr (1, [], c') \<and>
    curr_state c' = ''UP'' \<and>
    c_out c' = es @ [ClrToEol LINE_STATE, Print Full LINE_STATE 0 ''Link Status:  UP          '',
        Print Full LINE_STATE 28 ''   Packets Queued:  1   '', Erase Sub,
        Print Sub 0 0 (''tcp                    gate/80                  192.168.0.7/1042      00:09:55'' @ [LF])]"
proof -
  let ?c = "ex_client\<lparr>trunc_local_hosts := 1\<rparr>" and ?p = "ex_port 5 7 (Some ''gavin'')"
  let ?cs = "[(reports_text [Report (Do_state ''UP''), Queued [ex_packet]], \<lambda>_ _. False)]"
  have srv: "?p \<in> set (monitors ex_clients)" "\<forall>(line, epipe) \<in> set ?cs. \<forall>i f. \<not> epipe i f"
    "concat (map fst ?cs) = reports_text [Report (Do_state ''UP''), Queued [ex_packet]]" "fd ?p = 5"
    by (simp_all add: ex_clients_def ex_port_def has_flag_def flag_defs)
  have lines: "state_lines ''UP'' (?c\<lparr>count := int (length [ex_packet])\<rparr>) =
      [ClrToEol LINE_STATE, Print Full LINE_STATE 0 ''Link Status:  UP          '',
        Print Full LINE_STATE 28 ''   Packets Queued:  1   '']" by code_simp
  have idx: "[0..<min (nat (numbuff ?c)) (length [ex_packet])] = [0]" by (simp add: ex_client_def)
  have pk: "list_all packet_ok [ex_packet]" "[ex_packet] \<noteq> []" "length [ex_packet] < 10 ^ 9" "is_word ''UP''" "length ''UP'' < 230"
    using ex_packet_ok by (simp_all add: is_word_def nondigit_def noslash_def is_digit_def)
  have disp: "display_ok ?c"
    using ex_rows_ok rows_ok_cong [of ?c ex_client] by (simp add: display_ok_def) (simp add: ex_client_def HEAD_LINES_def)
  have cl: "resize_event_p ?c = 0" "count ?c < 10 ^ 9" "cache_ok ?c (\<lambda>_. [])" "mydomain ?c \<in> {[], ''home''}"
    using ex_cache_ok by (simp_all add: cache_ok_def) (simp_all add: ex_client_def)
  have fed: "fed ''home'' (dom (hheap ?c)) (with_env (queue_calls (\<lambda>_. ex_named_run) ''UP'') 1 [ex_packet])"
    by (simp add: queue_calls_def lex_testkey_def ex_named_run_def ex_named_env_def supplied_def blocks_def ex_client_def)
  have map: "host_map (\<lambda>_. []) = Map.empty" by (rule ext) (simp add: host_map_def)
  have ch: "concat [reports_text [Report (Do_state ''UP''), Queued [ex_packet]]] = concat (map fst ?cs)"
    "[] \<notin> set [reports_text [Report (Do_state ''UP''), Queued [ex_packet]]]"
    by (simp_all add: reports_text_def nl_def)
  from diald_reports_shown [where runs = "\<lambda>_. ex_named_run", OF ex_clients_ok srv(1-3) pk disp cl fed ch lex_input_Nil, of "\<lambda>_ _. NUL" "(24, 80)"]
  show ?thesis unfolding lines idx srv(4) map
    by (simp only: list.map ex_named_rows int_ops append.simps append_assoc concat.simps append_Nil2)
qed

end
